(* ===== verification/Koh_Prelude.thy ===== *)
theory Koh_Prelude
  imports Main "HOL-Library.Word"
begin

text \<open>
  What the other theories share: the machine integers of the Rust code (bytes as
  8-bit words; the wider counters as natural numbers whose saturation or check is
  written out at the width the code gives them), the few slice and iterator functions of
  the Rust standard library that the code calls, and the results of fallible functions.
\<close>

named_theorems koh_defs \<open>small definitions unfolded in every proof\<close>
named_theorems koh_inv \<open>each operation keeps its component's invariant\<close>

section \<open>Machine integers\<close>

type_synonym byte = "8 word"

definition u16_max :: nat where "u16_max = 65535"
definition u32_max :: nat where "u32_max = 4294967295"
definition u64_max :: nat where "u64_max = 18446744073709551615"

text \<open>Rust's \<open>saturating_add\<close> and \<open>checked_add\<close> at a width with the largest value \<open>m\<close>.\<close>

definition sat_add :: "nat \<Rightarrow> nat \<Rightarrow> nat \<Rightarrow> nat" where
  "sat_add m a b = min (a + b) m"

definition checked_add :: "nat \<Rightarrow> nat \<Rightarrow> nat \<Rightarrow> nat option" where
  "checked_add m a b = (if a + b \<le> m then Some (a + b) else None)"

definition checked_sub :: "nat \<Rightarrow> nat \<Rightarrow> nat option" where
  "checked_sub a b = (if b \<le> a then Some (a - b) else None)"

abbreviation sat_add64 :: "nat \<Rightarrow> nat \<Rightarrow> nat" where
  "sat_add64 \<equiv> sat_add u64_max"

lemma sat_add_le [simp]: "sat_add m a b \<le> m"
  by (simp add: sat_add_def)

lemma sat_add_exact [simp]: "a + b \<le> m \<Longrightarrow> sat_add m a b = a + b"
  by (simp add: sat_add_def)

lemma sat_add_mono: "a \<le> m \<Longrightarrow> a \<le> sat_add m a b"
  by (simp add: sat_add_def)

lemma sat_add_strict: "a < m \<Longrightarrow> a < sat_add m a (Suc 0)"
  by (simp add: sat_add_def)

lemma checked_add_Some [simp]:
  "checked_add m a b = Some c \<longleftrightarrow> a + b \<le> m \<and> c = a + b"
  by (auto simp: checked_add_def)

lemma checked_sub_Some [simp]:
  "checked_sub a b = Some c \<longleftrightarrow> b \<le> a \<and> c = a - b"
  by (auto simp: checked_sub_def)

section \<open>Instants\<close>

text \<open>
  Instants and durations are nanoseconds. An instant's \<open>checked_add\<close> fails past the last instant
  the standard library represents on Unix, \<open>2 ^ 63\<close> seconds.
\<close>

definition NANOS :: nat where "NANOS = 1000000000"
definition instant_end :: nat where "instant_end = 2 ^ 63 * NANOS"

abbreviation millis :: "nat \<Rightarrow> nat" where
  "millis n \<equiv> n * 1000000"

definition instant_add :: "nat \<Rightarrow> nat \<Rightarrow> nat option" where
  "instant_add t d = (if t + d < instant_end then Some (t + d) else None)"

lemma instant_add_Some [simp]: "instant_add t d = Some u \<longleftrightarrow> t + d < instant_end \<and> u = t + d"
  by (auto simp: instant_add_def)

lemma instant_add_in [simp]: "t + d < instant_end \<Longrightarrow> instant_add t d = Some (t + d)"
  by (simp add: instant_add_def)

section \<open>Bytes and text\<close>

text \<open>The bytes of an ASCII literal, as Rust's \<open>b"..."\<close>.\<close>

definition ascii :: "string \<Rightarrow> byte list" where
  "ascii s = map of_char s"

lemma ascii_simps [simp]:
  "ascii [] = []" "ascii (c # s) = of_char c # ascii s"
  by (simp_all add: ascii_def)

section \<open>Slices\<close>

text \<open>\<open>iter().position(p)\<close>: the index of the first element that satisfies \<open>p\<close>.\<close>

fun position :: "('a \<Rightarrow> bool) \<Rightarrow> 'a list \<Rightarrow> nat option" where
  "position p [] = None"
| "position p (x # xs) = (if p x then Some 0 else map_option Suc (position p xs))"

lemma position_None_iff: "position p xs = None \<longleftrightarrow> (\<forall>x\<in>set xs. \<not> p x)"
  by (induction xs) auto

lemma position_SomeD:
  "position p xs = Some n \<Longrightarrow> n < length xs \<and> p (xs ! n) \<and> (\<forall>x\<in>set (take n xs). \<not> p x)"
  by (induction xs arbitrary: n) (auto split: if_splits)

lemma position_takeWhile:
  "(case position p xs of None \<Rightarrow> length xs | Some n \<Rightarrow> n)
     = length (takeWhile (\<lambda>x. \<not> p x) xs)"
proof (induction xs)
  case (Cons x xs)
  then show ?case by (cases "position p xs") auto
qed simp

text \<open>\<open>slice.split(|b| b == c)\<close>: the pieces between the separators, one more than there are.\<close>

fun split_on :: "'a \<Rightarrow> 'a list \<Rightarrow> 'a list list" where
  "split_on c [] = [[]]"
| "split_on c (x # xs) =
     (if x = c then [] # split_on c xs
      else (case split_on c xs of [] \<Rightarrow> [[x]] | p # ps \<Rightarrow> (x # p) # ps))"

lemma split_on_nonempty [simp]: "split_on c xs \<noteq> []"
  by (induction xs) (auto split: list.splits)

lemma split_on_no_sep: "p \<in> set (split_on c xs) \<Longrightarrow> c \<notin> set p"
  by (induction xs arbitrary: p) (auto split: if_splits list.splits)

lemma split_on_subset: "p \<in> set (split_on c xs) \<Longrightarrow> set p \<subseteq> set xs"
  by (induction xs arbitrary: p) (auto split: if_splits list.splits, fastforce+)

text \<open>\<open>pieces.join(&c)\<close>.\<close>

fun join_with :: "'a \<Rightarrow> 'a list list \<Rightarrow> 'a list" where
  "join_with c [] = []"
| "join_with c [p] = p"
| "join_with c (p # ps) = p @ c # join_with c ps"

lemma join_with_Cons: "ps \<noteq> [] \<Longrightarrow> join_with c (p # ps) = p @ c # join_with c ps"
  by (cases ps) auto

lemma join_split [simp]: "join_with c (split_on c xs) = xs"
proof (induction xs)
  case (Cons x xs)
  obtain p ps where s: "split_on c xs = p # ps"
    by (cases "split_on c xs") auto
  show ?case
    using Cons.IH by (cases ps) (auto simp: s)
qed simp

lemma split_on_sep_free: "c \<notin> set p \<Longrightarrow> split_on c p = [p]"
  by (induction p) auto

lemma split_on_append:
  "c \<notin> set p \<Longrightarrow> split_on c (p @ c # q) = p # split_on c q"
  by (induction p) auto

lemma split_join:
  "ps \<noteq> [] \<Longrightarrow> (\<And>p. p \<in> set ps \<Longrightarrow> c \<notin> set p) \<Longrightarrow> split_on c (join_with c ps) = ps"
proof (induction ps)
  case (Cons p ps)
  then show ?case
    by (cases "ps = []") (auto simp: join_with_Cons split_on_append split_on_sep_free)
qed simp

lemma set_join_with: "set (join_with c ps) \<subseteq> insert c (\<Union> (set ` set ps))"
  by (induction c ps rule: join_with.induct) auto

text \<open>\<open>starts_with\<close>, \<open>strip_prefix\<close> and \<open>strip_suffix\<close>.\<close>

definition starts_with :: "'a list \<Rightarrow> 'a list \<Rightarrow> bool" where
  "starts_with p xs \<longleftrightarrow> take (length p) xs = p"

definition strip_prefix :: "'a list \<Rightarrow> 'a list \<Rightarrow> 'a list option" where
  "strip_prefix p xs = (if starts_with p xs then Some (drop (length p) xs) else None)"

definition strip_suffix :: "'a list \<Rightarrow> 'a list \<Rightarrow> 'a list option" where
  "strip_suffix s xs =
     (if length s \<le> length xs \<and> drop (length xs - length s) xs = s
      then Some (take (length xs - length s) xs) else None)"

lemma starts_with_iff: "starts_with p xs \<longleftrightarrow> (\<exists>r. xs = p @ r)"
  unfolding starts_with_def by (metis append_eq_conv_conj)

lemma strip_prefix_Some: "strip_prefix p xs = Some r \<longleftrightarrow> xs = p @ r"
  by (auto simp: strip_prefix_def starts_with_iff)

lemma strip_prefix_append [simp]: "strip_prefix p (p @ r) = Some r"
  by (simp add: strip_prefix_Some)

lemma strip_suffix_Some: "strip_suffix s xs = Some r \<longleftrightarrow> xs = r @ s"
proof
  assume "strip_suffix s xs = Some r"
  then show "xs = r @ s"
    by (auto simp: strip_suffix_def split: if_splits)
       (metis append_take_drop_id)
qed (simp add: strip_suffix_def)

lemma strip_suffix_append [simp]: "strip_suffix s (r @ s) = Some r"
  by (simp add: strip_suffix_Some)

section \<open>Fallible results\<close>

text \<open>The \<open>?\<close> operator on a \<open>Result\<close>: \<open>Inl\<close> is the error, returned early.\<close>

definition bindE :: "'e + 'a \<Rightarrow> ('a \<Rightarrow> 'e + 'b) \<Rightarrow> 'e + 'b" where
  "bindE r f = (case r of Inl e \<Rightarrow> Inl e | Inr a \<Rightarrow> f a)"

lemma bindE_simps [simp]: "bindE (Inl e) f = Inl e" "bindE (Inr a) f = f a"
  by (simp_all add: bindE_def)

lemma bindE_Inr_iff: "bindE r f = Inr b \<longleftrightarrow> (\<exists>a. r = Inr a \<and> f a = Inr b)"
  by (cases r) auto

definition okay :: "'e + 'a \<Rightarrow> bool" where
  "okay r = (case r of Inl _ \<Rightarrow> False | Inr _ \<Rightarrow> True)"

lemma okay_simps [simp]: "\<not> okay (Inl e)" "okay (Inr a)"
  by (simp_all add: okay_def)

end
