(* ===== verification/Koh_Bounded.thy ===== *)
theory Koh_Bounded
  imports Koh_Prelude
begin

text \<open>
  \<open>src/src/bounded.rs\<close>: the queue of at most \<open>N\<close> items (\<open>Bounded<T, N>\<close>), the only queue the
  program may use, and \<open>at_most\<close>, which decodes the wire's sequences. The constant
  generic \<open>N\<close> is the first argument of the operations that look at it.

  The interface other components rely on is the locale \<open>window\<close>: what the items are after
  each operation, and that none grows the queue past its bound. The lemmas proved in it
  (a run of \<open>push_evicting\<close> keeps the newest items) serve the echo acknowledgements, the
  attach loop's tops and the pending handshakes.
\<close>

section \<open>The queue\<close>

datatype 'a bounded = Bounded (items: "'a list")

definition bounded_new :: "'a bounded" where
  "bounded_new = Bounded []"

definition is_full :: "nat \<Rightarrow> 'a bounded \<Rightarrow> bool" where
  "is_full n q \<longleftrightarrow> n \<le> length (items q)"

text \<open>Add at the back, or give the item back (\<open>Inl\<close>) if the queue is full.\<close>

definition push_back :: "nat \<Rightarrow> 'a bounded \<Rightarrow> 'a \<Rightarrow> 'a + 'a bounded" where
  "push_back n q x = (if is_full n q then Inl x else Inr (Bounded (items q @ [x])))"

text \<open>Add at the back, dropping the oldest to make room.\<close>

definition push_evicting :: "nat \<Rightarrow> 'a bounded \<Rightarrow> 'a \<Rightarrow> 'a bounded" where
  "push_evicting n q x =
     (let kept = (if is_full n q then tl (items q) else items q) in Bounded (kept @ [x]))"

definition pop_front :: "'a bounded \<Rightarrow> 'a option \<times> 'a bounded" where
  "pop_front q = (case items q of [] \<Rightarrow> (None, q) | x # xs \<Rightarrow> (Some x, Bounded xs))"

definition front :: "'a bounded \<Rightarrow> 'a option" where
  "front q = (case items q of [] \<Rightarrow> None | x # _ \<Rightarrow> Some x)"

text \<open>Remove the oldest item that matches: \<open>position\<close>, then \<open>remove\<close> at that index.\<close>

definition take_first :: "('a \<Rightarrow> bool) \<Rightarrow> 'a bounded \<Rightarrow> 'a option \<times> 'a bounded" where
  "take_first matches q =
     (case position matches (items q) of
        None \<Rightarrow> (None, q)
      | Some at \<Rightarrow> (Some (items q ! at), Bounded (take at (items q) @ drop (Suc at) (items q))))"

text \<open>\<open>back_mut\<close>: change the newest item with \<open>f\<close>, if there is one.\<close>

definition back_mut :: "('a \<Rightarrow> 'a) \<Rightarrow> 'a bounded \<Rightarrow> 'a bounded" where
  "back_mut f q =
     (case items q of [] \<Rightarrow> q | _ \<Rightarrow> Bounded (butlast (items q) @ [f (last (items q))]))"

definition retain :: "('a \<Rightarrow> bool) \<Rightarrow> 'a bounded \<Rightarrow> 'a bounded" where
  "retain keep q = Bounded (filter keep (items q))"

definition bounded_clear :: "'a bounded \<Rightarrow> 'a bounded" where
  "bounded_clear q = Bounded []"

definition within :: "nat \<Rightarrow> 'a bounded \<Rightarrow> bool" where
  "within n q \<longleftrightarrow> length (items q) \<le> n"

section \<open>The window interface\<close>

text \<open>
  A window of at most \<open>cap\<close> items, oldest first. \<open>put\<close> is the evicting push; a window
  holds what was put last.
\<close>

locale window =
  fixes cap :: nat
    and content :: "'q \<Rightarrow> 'a list"
    and fresh :: "'q"
    and put :: "'q \<Rightarrow> 'a \<Rightarrow> 'q"
    and drop_matching :: "('a \<Rightarrow> bool) \<Rightarrow> 'q \<Rightarrow> 'q"
  assumes cap_pos: "0 < cap"
    and content_fresh: "content fresh = []"
    and content_put: "length (content q) \<le> cap \<Longrightarrow>
          content (put q x) = drop (Suc (length (content q)) - cap) (content q @ [x])"
    and content_drop: "content (drop_matching p q) = filter (\<lambda>x. \<not> p x) (content q)"
begin

lemma put_bound: "length (content q) \<le> cap \<Longrightarrow> length (content (put q x)) \<le> cap"
  using cap_pos by (auto simp: content_put)

lemma put_newest: "length (content q) \<le> cap \<Longrightarrow> content (put q x) \<noteq> [] \<and> last (content (put q x)) = x"
  using cap_pos by (simp add: content_put)

lemma drop_bound: "length (content q) \<le> cap \<Longrightarrow> length (content (drop_matching p q)) \<le> cap"
  by (simp add: content_drop le_trans [OF length_filter_le])

lemma puts_bound: "length (content q) \<le> cap \<Longrightarrow> length (content (foldl put q xs)) \<le> cap"
  by (induction xs arbitrary: q) (auto simp: put_bound)

text \<open>After a run of puts the window holds the newest \<open>cap\<close> of everything it was given.\<close>

lemma content_puts:
  "length (content q) \<le> cap \<Longrightarrow>
     content (foldl put q xs) = drop (length (content q) + length xs - cap) (content q @ xs)"
proof (induction xs arbitrary: q)
  case (Cons x xs)
  let ?q = "put q x" and ?c = "content q" and ?k = "Suc (length (content q)) - cap"
  have len: "length (content ?q) \<le> cap" using Cons.prems by (rule put_bound)
  have c: "content ?q = drop ?k (?c @ [x])" using Cons.prems by (rule content_put)
  have k: "?k \<le> length (?c @ [x])" by simp
  have "content (foldl put q (x # xs))
          = drop (length (content ?q) + length xs - cap) (content ?q @ xs)"
    using Cons.IH [OF len] by simp
  also have "content ?q @ xs = drop ?k (?c @ x # xs)"
  proof -
    have "drop ?k ((?c @ [x]) @ xs) = drop ?k (?c @ [x]) @ xs"
      using k by (subst drop_append) simp
    then show ?thesis by (simp add: c)
  qed
  also have "drop (length (content ?q) + length xs - cap) (drop ?k (?c @ x # xs))
          = drop (length ?c + length (x # xs) - cap) (?c @ x # xs)"
  proof -
    have "length (content ?q) = Suc (length ?c) - ?k" by (simp add: c)
    then have "?k + (length (content ?q) + length xs - cap) = length ?c + length (x # xs) - cap
        \<or> length (content ?q) + length xs - cap + ?k = length ?c + length (x # xs) - cap"
      using Cons.prems cap_pos by auto
    then show ?thesis by (simp only: drop_drop add.commute) auto
  qed
  finally show ?case .
qed simp

lemma content_puts_fresh:
  "content (foldl put fresh xs) = drop (length xs - cap) xs"
  using content_puts [of fresh xs] by (simp add: content_fresh)

end

lemma items_push_evicting:
  "length (items q) \<le> n \<Longrightarrow> 0 < n \<Longrightarrow>
     items (push_evicting n q x) = drop (Suc (length (items q)) - n) (items q @ [x])"
proof -
  assume le: "length (items q) \<le> n" and pos: "0 < n"
  show ?thesis
  proof (cases "length (items q) = n")
    case True
    then have "items q \<noteq> []" using pos by auto
    with True show ?thesis
      by (cases "items q") (auto simp: push_evicting_def is_full_def)
  next
    case False
    with le show ?thesis by (simp add: push_evicting_def is_full_def)
  qed
qed

interpretation bq: window "Suc n" items bounded_new "push_evicting (Suc n)" "\<lambda>p. retain (\<lambda>x. \<not> p x)"
  by unfold_locales (auto simp: bounded_new_def items_push_evicting retain_def)

section \<open>Facts about the operations\<close>

lemma items_new [simp]: "items bounded_new = []"
  by (simp add: bounded_new_def)

lemma items_retain [simp]: "items (retain keep q) = filter keep (items q)"
  by (simp add: retain_def)

lemma within_new [koh_inv]: "within n bounded_new"
  by (simp add: within_def)

lemma within_push_back [koh_inv]: "push_back n q x = Inr q' \<Longrightarrow> within n q'"
  by (auto simp: push_back_def within_def is_full_def split: if_splits)

lemma within_push_evicting [koh_inv]: "within n q \<Longrightarrow> 0 < n \<Longrightarrow> within n (push_evicting n q x)"
  by (auto simp: within_def items_push_evicting)

lemma within_pop_front [koh_inv]: "within n q \<Longrightarrow> within n (snd (pop_front q))"
  by (auto simp: within_def pop_front_def split: list.splits)

lemma within_retain [koh_inv]: "within n q \<Longrightarrow> within n (retain keep q)"
  by (simp add: within_def le_trans [OF length_filter_le])

lemma length_back_mut [simp]: "length (items (back_mut f q)) = length (items q)"
  by (auto simp: back_mut_def split: list.splits)

lemma within_back_mut [koh_inv]: "within n q \<Longrightarrow> within n (back_mut f q)"
  by (simp add: within_def)

lemma take_first_None: "fst (take_first m q) = None \<longleftrightarrow> (\<forall>x\<in>set (items q). \<not> m x)"
  by (auto simp: take_first_def position_None_iff split: option.splits)
     (metis nth_mem position_SomeD)

lemma take_first_Some:
  "take_first m q = (Some x, q') \<Longrightarrow>
     \<exists>as bs. items q = as @ x # bs \<and> items q' = as @ bs \<and> m x \<and> (\<forall>a\<in>set as. \<not> m a)"
proof -
  assume t: "take_first m q = (Some x, q')"
  then obtain i where i: "position m (items q) = Some i"
    and x: "x = items q ! i" and q': "q' = Bounded (take i (items q) @ drop (Suc i) (items q))"
    by (auto simp: take_first_def split: option.splits)
  from position_SomeD [OF i] have "i < length (items q)" "m (items q ! i)"
    "\<forall>a\<in>set (take i (items q)). \<not> m a" by auto
  then show ?thesis
    by (intro exI [of _ "take i (items q)"] exI [of _ "drop (Suc i) (items q)"])
       (auto simp: x q' id_take_nth_drop [symmetric])
qed

lemma within_take_first [koh_inv]: "within n q \<Longrightarrow> within n (snd (take_first m q))"
  by (cases "take_first m q")
     (auto simp: within_def take_first_def split: option.splits dest: position_SomeD)

section \<open>Sequences on the wire\<close>

text \<open>
  \<open>AtMost::visit_seq\<close>: \<open>announced\<close> is the access's size hint, \<open>elements\<close> what its
  \<open>next_element\<close> gives in turn before it says there are no more. An error of an element is
  returned as it is; a length past the bound is the visitor's own error.
\<close>

datatype 'e seq_error = InvalidLength nat | Element 'e

fun visit_items :: "nat \<Rightarrow> 'a list \<Rightarrow> ('e + 'a) list \<Rightarrow> 'e seq_error + 'a list" where
  "visit_items n got [] = Inr got"
| "visit_items n got (Inl e # _) = Inl (Element e)"
| "visit_items n got (Inr x # es) =
     (if length got = n then Inl (InvalidLength (Suc n)) else visit_items n (got @ [x]) es)"

definition at_most :: "nat \<Rightarrow> nat option \<Rightarrow> ('e + 'a) list \<Rightarrow> 'e seq_error + 'a list" where
  "at_most n hint elements =
     (let announced = (case hint of None \<Rightarrow> 0 | Some a \<Rightarrow> a) in
      if n < announced then Inl (InvalidLength announced) else visit_items n [] elements)"

lemma visit_items_Inr:
  "length got \<le> n \<Longrightarrow>
     visit_items n got es = Inr r \<longleftrightarrow>
       (\<exists>xs. es = map Inr xs \<and> r = got @ xs \<and> length r \<le> n)"
proof (induction es arbitrary: got)
  case (Cons e es)
  show ?case
  proof (cases e)
    case (Inr x)
    show ?thesis
    proof (cases "length got = n")
      case True
      then show ?thesis by (auto simp: Inr Cons_eq_map_conv)
    next
      case False
      with Cons.prems Cons.IH [of "got @ [x]"] show ?thesis
        by (auto simp: Inr Cons_eq_map_conv)
    qed
  qed (auto simp: Cons_eq_map_conv)
qed auto

end
