(* ===== verification/Koh_Glob.thy ===== *)
theory Koh_Glob
  imports Koh_Bounded
begin

text \<open>
  \<open>src/src/sync/glob.rs\<close>: the patterns of \<open>koh cp --exclude\<close>. \<open>glob_loop\<close> is the matcher the
  code runs, with its indices and its one remembered star; each round takes one unit of fuel,
  and \<open>glob_fuel\<close>, the product of the lengths the comment promises, is always enough. The
  specification is \<open>tokens_match\<close> on the pattern read as a list of \<open>gtok\<close>s, where a star may
  stand for any run without a slash.
\<close>

section \<open>The code\<close>

definition MAX_PATTERN :: nat where "MAX_PATTERN = 1024"
definition MAX_EXCLUDES :: nat where "MAX_EXCLUDES = 256"

abbreviation SLASH :: byte where "SLASH \<equiv> 0x2f"
abbreviation STAR :: byte where "STAR \<equiv> 0x2a"
abbreviation QUESTION :: byte where "QUESTION \<equiv> 0x3f"
abbreviation OPEN_SET :: byte where "OPEN_SET \<equiv> 0x5b"
abbreviation CLOSE_SET :: byte where "CLOSE_SET \<equiv> 0x5d"
abbreviation DASH :: byte where "DASH \<equiv> 0x2d"

text \<open>\<open>slice.get(i)\<close>.\<close>

definition get :: "'a list \<Rightarrow> nat \<Rightarrow> 'a option" where
  "get xs i = (if i < length xs then Some (xs ! i) else None)"

text \<open>The loop over a set: \<open>lo-hi\<close> takes three bytes, anything else one.\<close>

fun set_hit :: "byte list \<Rightarrow> byte \<Rightarrow> bool" where
  "set_hit (lo # d # hi # rest) c =
     (if d = DASH then (lo \<le> c \<and> c \<le> hi) \<or> set_hit rest c
      else lo = c \<or> set_hit (d # hi # rest) c)"
| "set_hit (lo # rest) c = (lo = c \<or> set_hit rest c)"
| "set_hit [] c = False"

text \<open>The set at \<open>pattern[at]\<close>: whether it matches \<open>c\<close>, and where the pattern goes on.\<close>

definition class_at :: "byte list \<Rightarrow> nat \<Rightarrow> byte \<Rightarrow> bool \<times> nat" where
  "class_at pattern at c =
     (let body = drop (at + 1) pattern;
          negated = (case body of b # _ \<Rightarrow> b = 0x21 \<or> b = 0x5e | [] \<Rightarrow> False);
          body = (if negated then tl body else body)
      in case map_option Suc (position (\<lambda>b. b = CLOSE_SET) (drop 1 body)) of
           None \<Rightarrow> (c = OPEN_SET, at + 1)
         | Some close \<Rightarrow>
             let hit = set_hit (take close body) c;
                 next = at + 1 + (if negated then 1 else 0) + close + 1
             in (hit \<noteq> negated \<and> c \<noteq> SLASH, next))"

definition one_at :: "byte list \<Rightarrow> nat \<Rightarrow> byte \<Rightarrow> bool \<times> nat" where
  "one_at pattern p tc =
     (let pc = pattern ! p in
      if pc = OPEN_SET then class_at pattern p tc
      else ((pc = QUESTION \<and> tc \<noteq> SLASH) \<or> pc = tc, p + 1))"

text \<open>Where the loop is: in the pattern, in the input, and the last star (where it is, and where in
  the input it began to match).\<close>

type_synonym glob_state = "nat \<times> nat \<times> (nat \<times> nat) option"

text \<open>A mismatch: the last star takes one more byte, unless that would be a slash.\<close>

definition glob_mismatch :: "byte list \<Rightarrow> (nat \<times> nat) option \<Rightarrow> bool + glob_state" where
  "glob_mismatch input star =
     (case star of
        Some (sp, st) \<Rightarrow>
          (case get input st of
             Some c \<Rightarrow> if c \<noteq> SLASH then Inr (sp + 1, st + 1, Some (sp, st + 1)) else Inl False
           | None \<Rightarrow> Inl False)
      | None \<Rightarrow> Inl False)"

text \<open>One round of the loop: the answer (\<open>Inl\<close>), or where it goes on.\<close>

definition glob_round :: "byte list \<Rightarrow> byte list \<Rightarrow> glob_state \<Rightarrow> bool + glob_state" where
  "glob_round pattern input s =
     (case s of (p, t, star) \<Rightarrow>
       (case (get pattern p, get input t) of
          (Some pc, tc) \<Rightarrow>
            if pc = STAR then Inr (p + 1, t, Some (p, t))
            else (case tc of
                Some tc \<Rightarrow>
                  (let (one, next) = one_at pattern p tc in
                   if one then Inr (next, t + 1, star) else glob_mismatch input star)
              | None \<Rightarrow> glob_mismatch input star)
        | (None, None) \<Rightarrow> Inl True
        | (None, Some _) \<Rightarrow> glob_mismatch input star))"

fun glob_loop :: "nat \<Rightarrow> byte list \<Rightarrow> byte list \<Rightarrow> glob_state \<Rightarrow> bool option" where
  "glob_loop 0 pattern input s = None"
| "glob_loop (Suc fuel) pattern input s =
     (case glob_round pattern input s of
        Inl answer \<Rightarrow> Some answer
      | Inr s' \<Rightarrow> glob_loop fuel pattern input s')"

definition glob_fuel :: "byte list \<Rightarrow> byte list \<Rightarrow> nat" where
  "glob_fuel pattern input = (length input + 1) * (length pattern + 1)"

definition matches :: "byte list \<Rightarrow> byte list \<Rightarrow> bool option" where
  "matches pattern input = glob_loop (glob_fuel pattern input) pattern input (0, 0, None)"

datatype pattern = Pattern (pattern_bytes: "byte list")

definition pattern_new :: "byte list \<Rightarrow> unit + pattern" where
  "pattern_new bytes =
     (if bytes = [] \<or> MAX_PATTERN < length bytes \<or> 0 \<in> set bytes then Inl ()
      else Inr (Pattern (case strip_suffix [SLASH] bytes of Some b \<Rightarrow> b | None \<Rightarrow> bytes)))"

definition pattern_excludes :: "pattern \<Rightarrow> byte list \<Rightarrow> byte list \<Rightarrow> bool option" where
  "pattern_excludes pt name path =
     (let own = pattern_bytes pt;
          pattern = (case strip_prefix [SLASH] own of Some b \<Rightarrow> b | None \<Rightarrow> own)
      in if SLASH \<in> set own then matches pattern path else matches pattern name)"

datatype excludes = Excludes (patterns: "pattern list")

definition excludes_new :: "pattern list \<Rightarrow> unit + excludes" where
  "excludes_new ps = (if MAX_EXCLUDES < length ps then Inl () else Inr (Excludes ps))"

text \<open>\<open>iter().any\<close>; a pattern that ran out of fuel would give \<open>None\<close>.\<close>

fun any_excludes :: "pattern list \<Rightarrow> byte list \<Rightarrow> byte list \<Rightarrow> bool option" where
  "any_excludes [] name path = Some False"
| "any_excludes (p # ps) name path =
     (case pattern_excludes p name path of
        None \<Rightarrow> None
      | Some True \<Rightarrow> Some True
      | Some False \<Rightarrow> any_excludes ps name path)"

definition excludes :: "excludes \<Rightarrow> byte list \<Rightarrow> byte list \<Rightarrow> bool option" where
  "excludes es name path = any_excludes (patterns es) name path"

section \<open>The specification\<close>

datatype gtok = Star | Char byte | Any | Set bool "byte list"

definition tok_matches :: "gtok \<Rightarrow> byte \<Rightarrow> bool" where
  "tok_matches tok c =
     (case tok of
        Star \<Rightarrow> False
      | Char b \<Rightarrow> b = c
      | Any \<Rightarrow> c \<noteq> SLASH
      | Set negated chars \<Rightarrow> set_hit chars c \<noteq> negated \<and> c \<noteq> SLASH)"

text \<open>The set that begins a pattern after its \<open>[\<close>, if it is closed, and what comes after it.\<close>

definition read_set :: "byte list \<Rightarrow> (gtok \<times> byte list) option" where
  "read_set body =
     (let negated = (case body of b # _ \<Rightarrow> b = 0x21 \<or> b = 0x5e | [] \<Rightarrow> False);
          body = (if negated then tl body else body)
      in case position (\<lambda>b. b = CLOSE_SET) (drop 1 body) of
           None \<Rightarrow> None
         | Some n \<Rightarrow> Some (Set negated (take (Suc n) body), drop (Suc (Suc n)) body))"

lemma read_set_length: "read_set body = Some (tok, rest) \<Longrightarrow> length rest < Suc (length body)"
  by (auto simp: read_set_def Let_def split: option.splits list.splits)

function tokens :: "byte list \<Rightarrow> gtok list" where
  "tokens [] = []"
| "tokens (b # bs) =
     (if b = STAR then Star # tokens bs
      else if b = OPEN_SET then
        (case read_set bs of
           None \<Rightarrow> Char OPEN_SET # tokens bs
         | Some (tok, rest) \<Rightarrow> tok # tokens rest)
      else if b = QUESTION then Any # tokens bs
      else Char b # tokens bs)"
  by pat_completeness auto
termination
  by (relation "measure length") (auto dest: read_set_length)

text \<open>A star stands for any run without a slash; every other token for one byte.\<close>

fun tokens_match :: "gtok list \<Rightarrow> byte list \<Rightarrow> bool" where
  "tokens_match [] input = (input = [])"
| "tokens_match (Star # toks) input =
     (tokens_match toks input \<or>
      (case input of [] \<Rightarrow> False | c # rest \<Rightarrow> c \<noteq> SLASH \<and> tokens_match (Star # toks) rest))"
| "tokens_match (tok # toks) [] = False"
| "tokens_match (tok # toks) (c # rest) = (tok_matches tok c \<and> tokens_match toks rest)"

text \<open>\<open>?\<close> as a byte of the input is matched by a \<open>?\<close> too, which \<open>Any\<close> says already.\<close>

lemma star_match_iff:
  "tokens_match (Star # toks) input \<longleftrightarrow>
     (\<exists>run rest. input = run @ rest \<and> SLASH \<notin> set run \<and> tokens_match toks rest)"
proof (induction input)
  case (Cons c input)
  show ?case
  proof
    assume "tokens_match (Star # toks) (c # input)"
    then consider "tokens_match toks (c # input)" | "c \<noteq> SLASH" "tokens_match (Star # toks) input"
      by auto
    then show "\<exists>run rest. c # input = run @ rest \<and> SLASH \<notin> set run \<and> tokens_match toks rest"
    proof cases
      case 2
      then obtain run rest where "input = run @ rest" "SLASH \<notin> set run" "tokens_match toks rest"
        using Cons.IH by blast
      then show ?thesis using 2(1) by (intro exI [of _ "c # run"] exI [of _ rest]) auto
    qed (metis append_Nil empty_iff empty_set)
  next
    assume "\<exists>run rest. c # input = run @ rest \<and> SLASH \<notin> set run \<and> tokens_match toks rest"
    then obtain run rest where "c # input = run @ rest" "SLASH \<notin> set run" "tokens_match toks rest"
      by blast
    then show "tokens_match (Star # toks) (c # input)"
      using Cons.IH by (cases run) auto
  qed
qed simp

lemma match_one: "tok \<noteq> Star \<Longrightarrow> tokens_match (tok # toks) input \<longleftrightarrow>
    (\<exists>c rest. input = c # rest \<and> tok_matches tok c \<and> tokens_match toks rest)"
  by (cases tok; cases input) (auto simp: tok_matches_def)

lemma slash_literal: "tok_matches tok c \<Longrightarrow> c = SLASH \<longleftrightarrow> tok = Char SLASH"
  by (auto simp: tok_matches_def split: gtok.splits)

section \<open>One element of the pattern\<close>

lemma get_Some [simp]: "get xs i = Some x \<longleftrightarrow> i < length xs \<and> xs ! i = x"
  by (auto simp: get_def)

lemma get_None [simp]: "get xs i = None \<longleftrightarrow> length xs \<le> i"
  by (auto simp: get_def)

lemma read_set_class:
  assumes "p < length pattern" and "pattern ! p = OPEN_SET"
  shows "case read_set (drop (p + 1) pattern) of
      None \<Rightarrow> class_at pattern p c = (c = OPEN_SET, p + 1)
    | Some (tok, rest) \<Rightarrow> \<exists>next. class_at pattern p c = (tok_matches tok c, next) \<and>
        rest = drop next pattern \<and> p < next \<and> next \<le> length pattern \<and> tok \<noteq> Star"
proof -
  let ?b0 = "drop (p + 1) pattern"
  define neg where "neg = (case ?b0 of b # _ \<Rightarrow> b = 0x21 \<or> b = 0x5e | [] \<Rightarrow> False)"
  define body where "body = (if neg then tl ?b0 else ?b0)"
  have body: "body = drop (p + 1 + (if neg then 1 else 0)) pattern"
    by (auto simp: body_def drop_Suc tl_drop)
  have cls: "class_at pattern p c = (case map_option Suc (position (\<lambda>b. b = CLOSE_SET) (drop 1 body)) of
       None \<Rightarrow> (c = OPEN_SET, p + 1)
     | Some close \<Rightarrow> (set_hit (take close body) c \<noteq> neg \<and> c \<noteq> SLASH,
         p + 1 + (if neg then 1 else 0) + close + 1))"
    unfolding class_at_def neg_def [symmetric] body_def [symmetric] Let_def by simp
  have set: "read_set ?b0 = (case position (\<lambda>b. b = CLOSE_SET) (drop 1 body) of
       None \<Rightarrow> None
     | Some n \<Rightarrow> Some (Set neg (take (Suc n) body), drop (Suc (Suc n)) body))"
    unfolding read_set_def neg_def [symmetric] body_def [symmetric] Let_def by simp
  show ?thesis
  proof (cases "position (\<lambda>b. b = CLOSE_SET) (drop 1 body)")
    case None
    then show ?thesis unfolding cls set by simp
  next
    case (Some n)
    then have n: "n < length body - 1" using position_SomeD by fastforce
    then show ?thesis
      unfolding cls set Some by (auto simp: tok_matches_def body algebra_simps split: if_splits)
  qed
qed

text \<open>An element that is no star reads as one token, whatever byte it is matched against.\<close>

lemma one_at_token:
  assumes "p < length pattern" and "pattern ! p \<noteq> STAR"
  obtains tok where "tok \<noteq> Star"
    "\<And>c. fst (one_at pattern p c) = tok_matches tok c"
    "\<And>c. tokens (drop p pattern) = tok # tokens (drop (snd (one_at pattern p c)) pattern)"
    "\<And>c. p < snd (one_at pattern p c)" "\<And>c. snd (one_at pattern p c) \<le> length pattern"
proof -
  have drop: "drop p pattern = pattern ! p # drop (p + 1) pattern"
    using assms(1) by (simp add: Cons_nth_drop_Suc)
  show thesis
  proof (cases "pattern ! p = OPEN_SET")
    case False
    show thesis
      by (rule that [of "if pattern ! p = QUESTION then Any else Char (pattern ! p)"])
         (use False assms in \<open>auto simp: one_at_def Let_def drop tok_matches_def\<close>)
  next
    case True
    note cls = read_set_class [OF assms(1) True]
    show thesis
    proof (cases "read_set (drop (p + 1) pattern)")
      case None
      then show thesis
        using that [of "Char OPEN_SET"] cls True assms
        by (auto simp: one_at_def drop tok_matches_def)
    next
      case (Some found)
      obtain tok rest where found: "found = (tok, rest)" by fastforce
      have "\<And>c. \<exists>next. class_at pattern p c = (tok_matches tok c, next) \<and>
          rest = drop next pattern \<and> p < next \<and> next \<le> length pattern \<and> tok \<noteq> Star"
        using cls unfolding Some found by simp
      moreover have "tokens (drop p pattern) = tok # tokens rest"
        using Some True by (simp add: drop found)
      ultimately show thesis
        using that [of tok] True by (simp add: one_at_def) (metis fst_conv snd_conv)
    qed
  qed
qed

lemma tokens_star:
  "p < length pattern \<Longrightarrow> pattern ! p = STAR \<Longrightarrow>
     tokens (drop p pattern) = Star # tokens (drop (p + 1) pattern)"
  by (simp add: Cons_nth_drop_Suc [symmetric])

section \<open>Only the last star matters\<close>

text \<open>
  The tokens between two stars each match one byte, so a slash sits at the same place wherever
  they match: sliding them over a run without a slash keeps the run slash-free.
\<close>

lemma no_slash_slides:
  assumes per: "\<And>i. i < n \<Longrightarrow> slash i = slash (k + i)" and base: "\<And>j. j < k \<Longrightarrow> \<not> slash j"
    and "0 < k" and "j < k + n"
  shows "\<not> slash (j::nat)"
  using assms(4)
proof (induction j rule: less_induct)
  case (less j)
  show ?case
  proof (cases "j < k")
    case False
    then have "j - k < n" "k + (j - k) = j" "j - k < j" using less.prems \<open>0 < k\<close> by auto
    then show ?thesis using per [of "j - k"] less.IH [of "j - k"] less.prems by auto
  qed (rule base)
qed

lemma match_append:
  "Star \<notin> set xs \<Longrightarrow> tokens_match (xs @ toks) input \<longleftrightarrow>
     (\<exists>u r. input = u @ r \<and> list_all2 tok_matches xs u \<and> tokens_match toks r)"
proof (induction xs arbitrary: input)
  case (Cons x xs)
  then have x: "x \<noteq> Star" "Star \<notin> set xs" by auto
  show ?case
    unfolding append_Cons match_one [OF x(1)] Cons.IH [OF x(2)]
    by (auto simp: list_all2_Cons1) (metis append_Cons)+
qed auto

lemma slash_at:
  assumes "list_all2 tok_matches xs u" and "i < length xs"
  shows "u ! i = SLASH \<longleftrightarrow> xs ! i = Char SLASH"
  using list_all2_nthD [OF assms] slash_literal by blast

text \<open>If the tokens \<open>xs\<close> match here, and match with the rest of the pattern after a run without
  a slash, then the star after them can take what that run skipped.\<close>

lemma later_star_takes_over:
  assumes xs: "Star \<notin> set xs" and here: "input = u @ r" "list_all2 tok_matches xs u"
    and any: "tokens_match (Star # xs @ Star # toks) input"
  shows "tokens_match (Star # toks) r"
proof -
  obtain w s' where w: "input = w @ s'" "SLASH \<notin> set w" "tokens_match (xs @ Star # toks) s'"
    using any unfolding star_match_iff [of "xs @ Star # toks"] by blast
  obtain u' r' where u': "s' = u' @ r'" "list_all2 tok_matches xs u'" "tokens_match (Star # toks) r'"
    using w(3) unfolding match_append [OF xs] by blast
  let ?n = "length xs" and ?k = "length w"
  have len: "length u = ?n" "length u' = ?n"
    using here(2) u'(2) by (auto dest: list_all2_lengthD)
  have split: "input = w @ u' @ r'" by (simp add: w u')
  have "\<not> input ! j = SLASH" if "j < ?k + ?n" "0 < ?k" for j
  proof (rule no_slash_slides [of ?n "\<lambda>i. input ! i = SLASH" ?k])
    show "(input ! i = SLASH) = (input ! (?k + i) = SLASH)" if "i < ?n" for i
      using that slash_at [OF here(2) that] slash_at [OF u'(2) that] len
      by (simp add: here(1) nth_append) (metis here(1) split nth_append_length_plus nth_append that len)
    show "\<not> input ! j = SLASH" if "j < ?k" for j
      using that w(1,2) by (metis nth_append nth_mem)
  qed (use that in auto)
  then have free: "SLASH \<notin> set (take ?k r)"
  proof -
    assume *: "\<And>j. j < ?k + ?n \<Longrightarrow> 0 < ?k \<Longrightarrow> \<not> input ! j = SLASH"
    have "r ! i \<noteq> SLASH" if "i < ?k" "i < length r" for i
      using * [of "?n + i"] that len by (cases "w = []") (simp_all add: here(1) nth_append)
    then show ?thesis by (auto simp: in_set_conv_nth)
  qed
  have "drop ?k r = r'"
  proof -
    have "drop (?k + ?n) input = r'" by (simp add: split len)
    moreover have "drop (?n + ?k) input = drop ?k r" by (simp add: here(1) len)
    ultimately show ?thesis by (simp add: add.commute)
  qed
  then have "r = take ?k r @ r'" by (metis append_take_drop_id)
  moreover obtain run rest where "r' = run @ rest" "SLASH \<notin> set run" "tokens_match toks rest"
    using u'(3) unfolding star_match_iff by blast
  ultimately show ?thesis unfolding star_match_iff using free
    by (intro exI [of _ "take ?k r @ run"] exI [of _ rest]) auto
qed

section \<open>The loop\<close>

definition answer :: "byte list \<Rightarrow> byte list \<Rightarrow> bool" where
  "answer pattern input = tokens_match (tokens pattern) input"

definition here :: "byte list \<Rightarrow> byte list \<Rightarrow> nat \<Rightarrow> nat \<Rightarrow> bool" where
  "here pattern input p t = tokens_match (tokens (drop p pattern)) (drop t input)"

text \<open>What each round keeps: with no star yet, the answer is what matches from here; with one, it
  is what matches from the star, and what was matched since are tokens of one byte each.\<close>

definition glob_inv :: "byte list \<Rightarrow> byte list \<Rightarrow> glob_state \<Rightarrow> bool" where
  "glob_inv pattern input s \<longleftrightarrow>
     (case s of (p, t, star) \<Rightarrow> p \<le> length pattern \<and> t \<le> length input \<and>
       (case star of
          None \<Rightarrow> answer pattern input = here pattern input p t
        | Some (sp, st) \<Rightarrow>
            sp < p \<and> pattern ! sp = STAR \<and> st \<le> t \<and> answer pattern input = here pattern input sp st \<and>
            (\<exists>xs u. tokens (drop (sp + 1) pattern) = xs @ tokens (drop p pattern) \<and> Star \<notin> set xs \<and>
               drop st input = u @ drop t input \<and> list_all2 tok_matches xs u)))"

definition glob_measure :: "byte list \<Rightarrow> byte list \<Rightarrow> glob_state \<Rightarrow> nat" where
  "glob_measure pattern input s =
     (case s of (p, t, star) \<Rightarrow>
       (length input - (case star of None \<Rightarrow> 0 | Some (sp, st) \<Rightarrow> st)) * (length pattern + 1)
         + (length pattern - p))"

definition round_ok :: "byte list \<Rightarrow> byte list \<Rightarrow> glob_state \<Rightarrow> bool + glob_state \<Rightarrow> bool" where
  "round_ok pattern input s result \<longleftrightarrow>
     (case result of
        Inl a \<Rightarrow> a = answer pattern input
      | Inr s' \<Rightarrow> glob_inv pattern input s' \<and> glob_measure pattern input s' < glob_measure pattern input s)"

lemma here_before:
  assumes "tokens (drop (sp + 1) pattern) = xs @ tokens (drop p pattern)"
    "drop st input = u @ drop t input" "list_all2 tok_matches xs u" "Star \<notin> set xs"
  shows "here pattern input (sp + 1) st = here pattern input p t"
proof -
  have "length u' = length xs" if "list_all2 tok_matches xs u'" for u'
    using that by (auto dest: list_all2_lengthD)
  then have "u' = u \<and> r = drop t input" if "u @ drop t input = u' @ r" "list_all2 tok_matches xs u'" for u' r
    using that assms(3) by (metis append_eq_append_conv)
  then show ?thesis
    using assms(3) unfolding here_def assms(1,2) match_append [OF assms(4)] by metis
qed

lemma here_star:
  assumes "sp < length pattern" "pattern ! sp = STAR" "st \<le> length input"
  shows "here pattern input sp st \<longleftrightarrow>
    here pattern input (sp + 1) st \<or>
    (st < length input \<and> input ! st \<noteq> SLASH \<and> here pattern input sp (st + 1))"
proof (cases "st < length input")
  case True
  then have "drop st input = input ! st # drop (st + 1) input" by (simp add: Cons_nth_drop_Suc)
  then show ?thesis using True unfolding here_def tokens_star [OF assms(1,2)] by simp
qed (simp add: here_def tokens_star [OF assms(1,2)])

lemma measure_drops:
  "(a + 1 :: nat) \<le> n \<Longrightarrow> (n - (a + 1)) * (m + 1) + (m - q) < (n - a) * (m + 1) + (m - p)"
proof -
  assume "a + 1 \<le> n"
  then obtain k where "n = a + 1 + k" using le_Suc_ex by blast
  then show ?thesis by simp
qed

lemma mismatch_ok:
  assumes inv: "glob_inv pattern input (p, t, star)" and fails: "\<not> here pattern input p t"
  shows "round_ok pattern input (p, t, star) (glob_mismatch input star)"
proof (cases star)
  case None
  then show ?thesis using inv fails by (simp add: glob_mismatch_def glob_inv_def round_ok_def)
next
  case (Some ss)
  obtain sp st where ss: "ss = (sp, st)" by fastforce
  have i: "sp < p" "p \<le> length pattern" "pattern ! sp = STAR" "st \<le> t" "t \<le> length input"
    "answer pattern input = here pattern input sp st"
    using inv by (auto simp: glob_inv_def Some ss)
  have "here pattern input (sp + 1) st = here pattern input p t"
    using inv here_before by (auto simp: glob_inv_def Some ss)
  then have ans: "answer pattern input \<longleftrightarrow>
      st < length input \<and> input ! st \<noteq> SLASH \<and> here pattern input sp (st + 1)"
    using here_star [of sp pattern st input] i fails by auto
  show ?thesis
  proof (cases "st < length input \<and> input ! st \<noteq> SLASH")
    case False
    then show ?thesis using ans by (auto simp: glob_mismatch_def Some ss round_ok_def split: option.splits)
  next
    case True
    then have "glob_mismatch input star = Inr (sp + 1, st + 1, Some (sp, st + 1))"
      by (simp add: glob_mismatch_def Some ss get_def)
    moreover have "glob_inv pattern input (sp + 1, st + 1, Some (sp, st + 1))"
      using i ans True by (auto simp: glob_inv_def intro!: exI [of _ "[]"])
    moreover have "glob_measure pattern input (sp + 1, st + 1, Some (sp, st + 1))
        < glob_measure pattern input (p, t, star)"
      using measure_drops [of st "length input" "length pattern" "sp + 1" p] True
      by (simp add: glob_measure_def Some ss)
    ultimately show ?thesis by (simp add: round_ok_def)
  qed
qed

lemma round_ok:
  assumes inv: "glob_inv pattern input s"
  shows "round_ok pattern input s (glob_round pattern input s)"
proof -
  obtain p t star where s: "s = (p, t, star)" by (cases s)
  have i: "p \<le> length pattern" "t \<le> length input" using inv by (auto simp: glob_inv_def s)
  note mismatch = mismatch_ok [OF inv [unfolded s]]
  consider (both) "p = length pattern" "t = length input"
    | (left) "p = length pattern" "t < length input"
    | (star) "p < length pattern" "pattern ! p = STAR"
    | (ended) "p < length pattern" "pattern ! p \<noteq> STAR" "t = length input"
    | (byte) "p < length pattern" "pattern ! p \<noteq> STAR" "t < length input"
    using i by linarith
  then show ?thesis
  proof cases
    case both
    have "here pattern input p t" by (simp add: here_def both)
    moreover have "here pattern input sp st \<Longrightarrow> answer pattern input" if "star = Some (sp, st)" for sp st
      using inv that by (simp add: glob_inv_def s)
    moreover have "here pattern input sp st" if "star = Some (sp, st)" for sp st
    proof -
      have "here pattern input (sp + 1) st = here pattern input p t"
        using inv here_before that by (auto simp: glob_inv_def s)
      then show ?thesis
        using \<open>here pattern input p t\<close> here_star [of sp pattern st input] inv that
        by (auto simp: glob_inv_def s)
    qed
    ultimately have "answer pattern input"
      using inv by (cases star) (auto simp: glob_inv_def s)
    then show ?thesis by (simp add: glob_round_def s both get_def round_ok_def)
  next
    case left
    have "\<not> here pattern input p t" using left by (simp add: here_def)
    then show ?thesis using mismatch left by (simp add: glob_round_def s get_def)
  next
    case ended
    obtain tok where "tok \<noteq> Star" "tokens (drop p pattern) = tok # tokens (drop (snd (one_at pattern p 0)) pattern)"
      using one_at_token [OF ended(1,2)] by metis
    then have "\<not> here pattern input p t" using ended(3) by (cases tok) (auto simp: here_def)
    then show ?thesis using mismatch ended by (simp add: glob_round_def s get_def)
  next
    case star
    have "answer pattern input = here pattern input p t"
    proof (cases "star :: (nat \<times> nat) option")
      case None
      then show ?thesis using inv by (simp add: glob_inv_def s)
    next
      case (Some ss)
      obtain sp st where ss: "ss = (sp, st)" by fastforce
      have j: "sp < length pattern" "pattern ! sp = STAR" "st \<le> t" "sp < p"
        "answer pattern input = here pattern input sp st"
        using inv i by (auto simp: glob_inv_def s Some ss)
      obtain xs u where xs: "tokens (drop (sp + 1) pattern) = xs @ tokens (drop p pattern)"
        "Star \<notin> set xs" "drop st input = u @ drop t input" "list_all2 tok_matches xs u"
        using inv by (auto simp: glob_inv_def s Some ss)
      have "here pattern input p t" if "here pattern input sp st"
        using later_star_takes_over [OF xs(2,3,4)] that
        unfolding here_def tokens_star [OF star] tokens_star [OF j(1,2)] xs(1) .
      moreover have "here pattern input sp st" if "here pattern input p t"
        using here_before [OF xs(1,3,4,2)] here_star [OF j(1,2)] that j(3) i(2) by auto
      ultimately show ?thesis using j(5) by blast
    qed
    then have "glob_inv pattern input (p + 1, t, Some (p, t))"
      using i star by (auto simp: glob_inv_def intro!: exI [of _ "[]"])
    moreover have "glob_measure pattern input (p + 1, t, Some (p, t)) < glob_measure pattern input (p, t, star)"
    proof -
      have "length input - t \<le> length input - (case star of None \<Rightarrow> 0 | Some (sp, st) \<Rightarrow> st)"
        using inv by (auto simp: glob_inv_def s split: option.splits)
      then have "(length input - t) * (length pattern + 1)
          \<le> (length input - (case star of None \<Rightarrow> 0 | Some (sp, st) \<Rightarrow> st)) * (length pattern + 1)"
        by (rule mult_le_mono1)
      then show ?thesis using star(1) unfolding glob_measure_def by (simp only: split option.case)
    qed
    ultimately show ?thesis using star by (simp add: glob_round_def s get_def round_ok_def)
  next
    case byte
    obtain one "next" where o: "one_at pattern p (input ! t) = (one, next)" by fastforce
    obtain tok where tok: "tok \<noteq> Star" "one = tok_matches tok (input ! t)"
      "tokens (drop p pattern) = tok # tokens (drop next pattern)" "p < next" "next \<le> length pattern"
      using one_at_token [OF byte(1,2)] o by (metis fst_conv snd_conv)
    have drop: "drop t input = input ! t # drop (t + 1) input"
      using byte(3) by (simp add: Cons_nth_drop_Suc)
    have one: "here pattern input p t \<longleftrightarrow> one \<and> here pattern input next (t + 1)"
      using tok(1) unfolding here_def tok(3) drop tok(2) by (auto simp: match_one)
    show ?thesis
    proof (cases one)
      case False
      then have "\<not> here pattern input p t" using one by simp
      then show ?thesis using mismatch byte o False by (simp add: glob_round_def s get_def)
    next
      case True
      have more: "\<exists>xs' u'. q = xs' @ tokens (drop next pattern) \<and> Star \<notin> set xs' \<and>
          d = u' @ drop (t + 1) input \<and> list_all2 tok_matches xs' u'"
        if "q = xs @ tokens (drop p pattern)" "Star \<notin> set xs" "d = u @ drop t input" "list_all2 tok_matches xs u"
        for q xs d u
        using that tok True unfolding drop tok(3)
        by (intro exI [of _ "xs @ [tok]"] exI [of _ "u @ [input ! t]"]) (auto simp: list_all2_appendI)
      have "glob_inv pattern input (next, t + 1, star)"
        using inv tok(4,5) byte(3) one True more
        by (fastforce simp: glob_inv_def s split: option.splits)
      moreover have "glob_measure pattern input (next, t + 1, star) < glob_measure pattern input (p, t, star)"
        using tok(4,5) by (simp add: glob_measure_def)
      ultimately show ?thesis using byte o True by (simp add: glob_round_def s get_def round_ok_def)
    qed
  qed
qed

lemma glob_loop_answer:
  "glob_inv pattern input s \<Longrightarrow> glob_measure pattern input s < fuel \<Longrightarrow>
     glob_loop fuel pattern input s = Some (answer pattern input)"
proof (induction fuel arbitrary: s)
  case (Suc fuel)
  have "round_ok pattern input s (glob_round pattern input s)" by (rule round_ok) (rule Suc.prems)
  then show ?case using Suc.IH Suc.prems(2)
    by (auto simp: round_ok_def split: sum.splits)
qed simp

lemma matches_is_the_promise: "matches pattern input = Some (answer pattern input)"
proof -
  have "glob_inv pattern input (0, 0, None)" by (simp add: glob_inv_def here_def answer_def)
  moreover have "glob_measure pattern input (0, 0, None) < glob_fuel pattern input"
    by (simp add: glob_measure_def glob_fuel_def)
  ultimately show ?thesis
    unfolding matches_def by (simp add: glob_loop_answer)
qed

text \<open>C5: the matcher ends, within the product of the lengths its comment promises, and with the
  answer the specification gives: remembering only the last star loses nothing.\<close>

theorem matches_is_the_specification:
  "matches pattern input = Some (tokens_match (tokens pattern) input)"
  using matches_is_the_promise by (simp add: answer_def)

section \<open>Patterns\<close>

text \<open>What a pattern promises: with a slash in it, it is matched against the path from the top, less
  a leading slash; without one, against the entry's own name.\<close>

definition pattern_promise :: "pattern \<Rightarrow> byte list \<Rightarrow> byte list \<Rightarrow> bool" where
  "pattern_promise pt name path =
     (if SLASH \<in> set (pattern_bytes pt)
      then answer (dropWhile (\<lambda>b. b = SLASH) (take 1 (pattern_bytes pt)) @ drop 1 (pattern_bytes pt)) path
      else answer (pattern_bytes pt) name)"

lemma strip_leading:
  "(case strip_prefix [c] own of Some b \<Rightarrow> b | None \<Rightarrow> own)
     = dropWhile (\<lambda>b. b = c) (take 1 own) @ drop 1 own"
  by (cases own) (auto simp: strip_prefix_def starts_with_def)

lemma strip_leading_none: "c \<notin> set own \<Longrightarrow> (case strip_prefix [c] own of Some b \<Rightarrow> b | None \<Rightarrow> own) = own"
  by (cases own) (auto simp: strip_prefix_def starts_with_def)

lemma pattern_excludes_promise: "pattern_excludes pt name path = Some (pattern_promise pt name path)"
  using strip_leading_none [of SLASH "pattern_bytes pt"]
  unfolding pattern_excludes_def pattern_promise_def Let_def strip_leading
  by (simp add: matches_is_the_promise)

text \<open>an entry is excluded exactly if one of the patterns promises so; the answer always comes.\<close>

theorem excludes_any_pattern:
  "excludes es name path = Some (\<exists>pt\<in>set (patterns es). pattern_promise pt name path)"
proof -
  have "any_excludes ps name path = Some (\<exists>pt\<in>set ps. pattern_promise pt name path)" for ps
    by (induction ps) (auto simp: pattern_excludes_promise split: bool.splits)
  then show ?thesis by (simp add: excludes_def)
qed

lemma tokens_plain:
  "set bs \<inter> {STAR, OPEN_SET, QUESTION} = {} \<Longrightarrow> tokens bs = map Char bs"
  by (induction bs) auto

lemma match_plain: "tokens_match (map Char bs) input \<longleftrightarrow> input = bs"
  by (induction bs arbitrary: input) (auto simp: match_one tok_matches_def)

text \<open>a pattern of no special byte excludes exactly the entries of that name, wherever they
  are; a slash after it in what the user typed changes nothing.\<close>

theorem plain_pattern:
  assumes "set bs \<inter> {STAR, OPEN_SET, QUESTION, SLASH, 0} = {}" and "bs \<noteq> []" and "length bs < MAX_PATTERN"
  shows "\<exists>pt. pattern_new bs = Inr pt \<and> pattern_new (bs @ [SLASH]) = Inr pt \<and>
    (\<forall>name path. pattern_excludes pt name path = Some (name = bs))"
proof -
  have new: "pattern_new bs = Inr (Pattern bs)" "pattern_new (bs @ [SLASH]) = Inr (Pattern bs)"
  proof -
    have "strip_suffix [SLASH] bs = None"
      using assms(1) by (cases "strip_suffix [SLASH] bs") (auto simp: strip_suffix_Some)
    then show "pattern_new bs = Inr (Pattern bs)" using assms by (auto simp: pattern_new_def)
    show "pattern_new (bs @ [SLASH]) = Inr (Pattern bs)"
      using assms by (auto simp: pattern_new_def)
  qed
  have "pattern_excludes (Pattern bs) name path = Some (name = bs)" for name path
    using assms(1) tokens_plain [of bs] match_plain [of bs name]
    by (auto simp: pattern_excludes_promise pattern_promise_def answer_def)
  then show ?thesis using new by auto
qed

theorem plain_pattern_witness:
  "\<exists>pt. pattern_new (ascii ''target/'') = Inr pt \<and>
     pattern_excludes pt (ascii ''target'') (ascii ''a/target'') = Some True"
  using plain_pattern [of "ascii ''target''"] by (auto simp: MAX_PATTERN_def)

end
