(* ===== verification/Koh_Utf8.thy ===== *)
theory Koh_Utf8
  imports Koh_Prelude
begin

unbundle bit_operations_syntax

text \<open>
  The text functions of the Rust standard library that the program calls. A \<open>char\<close> is a
  Unicode scalar value, here a natural number; a \<open>str\<close> is its UTF-8 bytes.
  \<open>from_utf8_lossy\<close> replaces each maximal ill-formed piece by U+FFFD, the way the standard
  library documents it.
\<close>

section \<open>Scalar values\<close>

definition is_scalar :: "nat \<Rightarrow> bool" where
  "is_scalar c \<longleftrightarrow> c < 0xD800 \<or> (0xDFFF < c \<and> c < 0x110000)"

text \<open>\<open>char::is_control\<close>: the general category Cc.\<close>

definition is_control :: "nat \<Rightarrow> bool" where
  "is_control c \<longleftrightarrow> c < 0x20 \<or> (0x7F \<le> c \<and> c \<le> 0x9F)"

definition replacement :: nat where "replacement = 0xFFFD"

text \<open>Most characters of a window title (\<open>request.rs\<close>).\<close>

definition MAX_TITLE :: nat where "MAX_TITLE = 256"

section \<open>Encoding\<close>

definition utf8_char :: "nat \<Rightarrow> nat list" where
  "utf8_char c =
     (if c < 0x80 then [c]
      else if c < 0x800 then [0xC0 + c div 64, 0x80 + c mod 64]
      else if c < 0x10000 then [0xE0 + c div 4096, 0x80 + (c div 64) mod 64, 0x80 + c mod 64]
      else [0xF0 + c div 262144, 0x80 + (c div 4096) mod 64, 0x80 + (c div 64) mod 64,
            0x80 + c mod 64])"

definition utf8 :: "nat list \<Rightarrow> byte list" where
  "utf8 cs = map of_nat (concat (map utf8_char cs))"

section \<open>Lossy decoding\<close>

definition byte_at :: "nat list \<Rightarrow> nat \<Rightarrow> nat" where
  "byte_at bs i = (if i < length bs then bs ! i else 0)"

definition in_range :: "nat \<Rightarrow> nat \<Rightarrow> nat \<Rightarrow> bool" where
  "in_range lo hi b \<longleftrightarrow> lo \<le> b \<and> b \<le> hi"

abbreviation is_cont :: "nat \<Rightarrow> bool" where
  "is_cont \<equiv> in_range 0x80 0xBF"

text \<open>The bytes that may follow the first of a three- or four-byte character.\<close>

definition second_ok :: "nat \<Rightarrow> nat \<Rightarrow> bool" where
  "second_ok b0 b1 =
     (if b0 = 0xE0 then in_range 0xA0 0xBF b1
      else if b0 = 0xED then in_range 0x80 0x9F b1
      else if b0 = 0xF0 then in_range 0x90 0xBF b1
      else if b0 = 0xF4 then in_range 0x80 0x8F b1
      else is_cont b1)"

text \<open>The scalar at the front (or U+FFFD) and how many bytes after the first it took.\<close>

definition first_char :: "nat \<Rightarrow> nat list \<Rightarrow> nat \<times> nat" where
  "first_char b0 rest =
     (let b1 = byte_at rest 0; b2 = byte_at rest 1; b3 = byte_at rest 2 in
      if b0 < 0x80 then (b0, 0)
      else if in_range 0xC2 0xDF b0 then
        (if is_cont b1 then ((b0 - 0xC0) * 64 + (b1 - 0x80), 1) else (replacement, 0))
      else if in_range 0xE0 0xEF b0 then
        (if \<not> second_ok b0 b1 then (replacement, 0)
         else if \<not> is_cont b2 then (replacement, 1)
         else ((b0 - 0xE0) * 4096 + (b1 - 0x80) * 64 + (b2 - 0x80), 2))
      else if in_range 0xF0 0xF4 b0 then
        (if \<not> second_ok b0 b1 then (replacement, 0)
         else if \<not> is_cont b2 then (replacement, 1)
         else if \<not> is_cont b3 then (replacement, 2)
         else ((b0 - 0xF0) * 262144 + (b1 - 0x80) * 4096 + (b2 - 0x80) * 64 + (b3 - 0x80), 3))
      else (replacement, 0))"

fun lossy_nats :: "nat list \<Rightarrow> nat list" where
  "lossy_nats [] = []"
| "lossy_nats (b # rest) = fst (first_char b rest) # lossy_nats (drop (snd (first_char b rest)) rest)"

text \<open>\<open>String::from_utf8_lossy(bytes).chars()\<close>.\<close>

definition utf8_lossy :: "byte list \<Rightarrow> nat list" where
  "utf8_lossy bs = lossy_nats (map unat bs)"

section \<open>Encoding, then decoding\<close>

lemma first_char_utf8:
  assumes "is_scalar c"
  shows "\<exists>b r. utf8_char c = b # r \<and> (\<forall>rest. first_char b (r @ rest) = (c, length r))"
proof -
  consider (one) "c < 0x80" | (two) "0x80 \<le> c" "c < 0x800"
    | (three) "0x800 \<le> c" "c < 0x10000" | (four) "0x10000 \<le> c" "c < 0x110000"
    using assms by (fastforce simp: is_scalar_def)
  then show ?thesis
  proof cases
    case one
    then show ?thesis by (auto simp: utf8_char_def first_char_def Let_def)
  next
    case two
    then have "2 \<le> c div 64" "c div 64 < 32" by auto
    then show ?thesis using two
      by (auto simp: utf8_char_def first_char_def Let_def byte_at_def in_range_def)
  next
    case three
    define x y z where "x = c div 4096" and "y = (c div 64) mod 64" and "z = c mod 64"
    have c: "c = x * 4096 + y * 64 + z"
    proof -
      have "c = (c div 64) * 64 + z" by (simp add: z_def)
      moreover have "c div 64 = x * 64 + y"
        unfolding x_def y_def using div_mult2_eq [of c 64 64] by simp
      ultimately show ?thesis by simp
    qed
    have b: "x < 16" "y < 64" "z < 64" using three by (auto simp: x_def y_def z_def)
    have lo: "x = 0 \<Longrightarrow> 32 \<le> y" using three(1) c b by auto
    have sur: "x = 13 \<Longrightarrow> y < 32" using assms three c b by (auto simp: is_scalar_def)
    have u: "utf8_char c = [0xE0 + x, 0x80 + y, 0x80 + z]"
      using three by (simp add: utf8_char_def x_def y_def z_def)
    show ?thesis unfolding u using b lo sur c
      by (auto simp: first_char_def Let_def byte_at_def in_range_def second_ok_def)
  next
    case four
    define w x y z where "w = c div 262144" and "x = (c div 4096) mod 64"
      and "y = (c div 64) mod 64" and "z = c mod 64"
    have c: "c = w * 262144 + x * 4096 + y * 64 + z"
    proof -
      have "c = (c div 64) * 64 + z" by (simp add: z_def)
      moreover have "c div 64 = (c div 4096) * 64 + y"
        unfolding y_def using div_mult2_eq [of c 64 64] by simp
      moreover have "c div 4096 = w * 64 + x"
        unfolding w_def x_def using div_mult2_eq [of c 4096 64] by simp
      ultimately show ?thesis by simp
    qed
    have b: "w < 5" "x < 64" "y < 64" "z < 64" using four by (auto simp: w_def x_def y_def z_def)
    have lo: "w = 0 \<Longrightarrow> 16 \<le> x" using four(1) c b by auto
    have hi: "w = 4 \<Longrightarrow> x < 16" using four(2) c b by auto
    have u: "utf8_char c = [0xF0 + w, 0x80 + x, 0x80 + y, 0x80 + z]"
      using four by (simp add: utf8_char_def w_def x_def y_def z_def)
    show ?thesis unfolding u using b lo hi c
      by (auto simp: first_char_def Let_def byte_at_def in_range_def second_ok_def)
  qed
qed

lemma lossy_nats_utf8_char:
  "is_scalar c \<Longrightarrow> lossy_nats (utf8_char c @ rest) = c # lossy_nats rest"
  using first_char_utf8 [of c] by fastforce

lemma lossy_nats_utf8: "list_all is_scalar cs \<Longrightarrow> lossy_nats (concat (map utf8_char cs)) = cs"
  by (induction cs) (auto simp: lossy_nats_utf8_char)

lemma utf8_char_bytes: "is_scalar c \<Longrightarrow> b \<in> set (utf8_char c) \<Longrightarrow> b < 256"
proof -
  assume "is_scalar c" and b: "b \<in> set (utf8_char c)"
  then have c: "c < 0x110000" by (auto simp: is_scalar_def)
  have "c div 262144 < 5" using c by auto
  moreover have "c < 65536 \<Longrightarrow> c div 4096 < 16" by auto
  moreover have "c < 2048 \<Longrightarrow> c div 64 < 32" by auto
  moreover have "(c div 4096) mod 64 < 64" "(c div 64) mod 64 < 64" "c mod 64 < 64" by auto
  ultimately show ?thesis using b unfolding utf8_char_def
    by (auto split: if_splits)
qed

lemma unat_utf8:
  "list_all is_scalar cs \<Longrightarrow> map unat (utf8 cs) = concat (map utf8_char cs)"
proof -
  assume cs: "list_all is_scalar cs"
  have "unat (of_nat b :: byte) = b" if "b \<in> set (concat (map utf8_char cs))" for b
  proof -
    from that cs have "b < 256" by (auto simp: list_all_iff dest: utf8_char_bytes)
    then show ?thesis by (simp add: unat_of_nat)
  qed
  then show ?thesis unfolding utf8_def map_map by (intro map_idI) simp
qed

lemma utf8_lossy_utf8 [simp]: "list_all is_scalar cs \<Longrightarrow> utf8_lossy (utf8 cs) = cs"
  by (simp add: utf8_lossy_def unat_utf8 lossy_nats_utf8)

lemma first_char_scalar: "b0 < 256 \<Longrightarrow> is_scalar (fst (first_char b0 rest))"
proof -
  have third: "second_ok b0 b1 \<Longrightarrow> in_range 0xE0 0xEF b0 \<Longrightarrow> is_cont b2 \<Longrightarrow>
      is_scalar ((b0 - 0xE0) * 4096 + (b1 - 0x80) * 64 + (b2 - 0x80))" for b1 b2
  proof -
    assume s: "second_ok b0 b1" and r: "in_range 0xE0 0xEF b0" and k: "is_cont b2"
    show ?thesis
    proof (cases "b0 < 0xED")
      case True
      then have "(b0 - 0xE0) \<le> 12" by simp
      moreover have "b1 - 0x80 \<le> 63" "b2 - 0x80 \<le> 63"
        using s k r True by (auto simp: second_ok_def in_range_def split: if_splits)
      ultimately show ?thesis by (auto simp: is_scalar_def)
    next
      case False
      show ?thesis using False s r k
        by (auto simp: second_ok_def in_range_def is_scalar_def split: if_splits)
    qed
  qed
  have fourth: "second_ok b0 b1 \<Longrightarrow> in_range 0xF0 0xF4 b0 \<Longrightarrow> is_cont b2 \<Longrightarrow> is_cont b3 \<Longrightarrow>
      is_scalar ((b0 - 0xF0) * 262144 + (b1 - 0x80) * 4096 + (b2 - 0x80) * 64 + (b3 - 0x80))"
    for b1 b2 b3
    by (auto simp: second_ok_def in_range_def is_scalar_def split: if_splits)
  show "b0 < 256 \<Longrightarrow> ?thesis"
    by (auto simp: first_char_def Let_def third fourth replacement_def)
       (auto simp: is_scalar_def in_range_def)
qed

lemma lossy_nats_scalars: "list_all (\<lambda>b. b < 256) bs \<Longrightarrow> list_all is_scalar (lossy_nats bs)"
proof (induction bs rule: lossy_nats.induct)
  case (2 b rest)
  have "list_all (\<lambda>b. b < 256) (drop n rest)" for n
    using "2.prems" by (auto simp: list_all_iff dest: in_set_dropD)
  with 2 show ?case by (simp add: first_char_scalar)
qed simp

lemma utf8_lossy_scalars [simp]: "list_all is_scalar (utf8_lossy bs)"
proof -
  have "unat (b :: byte) < 256" for b using unsigned_less [of b] by simp
  then show ?thesis
    unfolding utf8_lossy_def by (intro lossy_nats_scalars) (simp add: list_all_iff)
qed

section \<open>Character boundaries\<close>

text \<open>A byte that continues a character; \<open>str::is_char_boundary\<close> is false exactly at these.\<close>

definition cont_byte :: "byte \<Rightarrow> bool" where
  "cont_byte b \<longleftrightarrow> b AND 0xc0 = 0x80"

lemma cont_byte_of_nat: "n < 256 \<Longrightarrow> cont_byte (of_nat n) \<longleftrightarrow> 0x80 \<le> n \<and> n < 0xC0"
proof -
  have "\<forall>n<256. cont_byte (of_nat n) = (0x80 \<le> n \<and> n < (0xC0 :: nat))"
    unfolding cont_byte_def by code_simp
  then show "n < 256 \<Longrightarrow> ?thesis" by blast
qed

definition is_char_boundary :: "byte list \<Rightarrow> nat \<Rightarrow> bool" where
  "is_char_boundary s i \<longleftrightarrow> i = length s \<or> (i < length s \<and> \<not> cont_byte (s ! i))"

text \<open>\<open>while !s.is_char_boundary(end) { end -= 1 }\<close>; a string's start is one.\<close>

fun boundary_below :: "byte list \<Rightarrow> nat \<Rightarrow> nat" where
  "boundary_below s 0 = 0"
| "boundary_below s (Suc n) = (if is_char_boundary s (Suc n) then Suc n else boundary_below s n)"

text \<open>\<open>truncate\<close> at the last boundary within \<open>m\<close> bytes.\<close>

definition cut_str :: "nat \<Rightarrow> byte list \<Rightarrow> byte list" where
  "cut_str m s = (if m < length s then take (boundary_below s m) s else s)"

lemma boundary_below_le: "boundary_below s n \<le> n"
  by (induction n) auto

lemma length_cut_str: "length (cut_str m s) \<le> m"
  using boundary_below_le [of s m] by (simp add: cut_str_def)

lemma utf8_char_conts:
  assumes "is_scalar c"
  shows "\<exists>b ds. map of_nat (utf8_char c) = b # ds \<and> list_all cont_byte ds \<and> \<not> cont_byte b \<and> length ds \<le> 3"
proof -
  have c: "c < 0x110000" using assms by (auto simp: is_scalar_def)
  have k: "cont_byte (of_nat (128 + x))" if "x < 64" for x
    using that cont_byte_of_nat [of "128 + x"] by simp
  have n: "\<not> cont_byte (of_nat b)" if "b < 128 \<or> 192 \<le> b \<and> b < 256" for b
    using that cont_byte_of_nat [of b] by auto
  have "c div 262144 < 5" "c < 65536 \<Longrightarrow> c div 4096 < 16" "c < 2048 \<Longrightarrow> c div 64 < 32" using c by auto
  then show ?thesis
    by (simp only: utf8_char_def) (auto simp: k n simp del: of_nat_add)
qed

lemma utf8_Cons: "utf8 (c # cs) = map of_nat (utf8_char c) @ utf8 cs"
  by (simp add: utf8_def)

lemma utf8_Nil [simp]: "utf8 [] = []"
  by (simp add: utf8_def)

text \<open>A boundary of an encoded text is where a whole number of its characters ends.\<close>

lemma char_boundary_utf8:
  "list_all is_scalar cs \<Longrightarrow> is_char_boundary (utf8 cs) i \<Longrightarrow> \<exists>n\<le>length cs. take i (utf8 cs) = utf8 (take n cs)"
proof (induction cs arbitrary: i)
  case (Cons c cs)
  obtain b ds where c: "map of_nat (utf8_char c) = b # ds" "list_all cont_byte ds" "\<not> cont_byte b"
    using utf8_char_conts [of c] Cons.prems(1) by auto
  have enc: "utf8 (c # cs) = (b # ds) @ utf8 cs" by (simp add: utf8_Cons c(1))
  show ?case
  proof (cases "i \<le> length ds")
    case True
    then have "i = 0"
      using Cons.prems(2) c(2) enc by (cases i) (auto simp: is_char_boundary_def nth_append list_all_length)
    then show ?thesis by (intro exI [of _ 0]) simp
  next
    case False
    then obtain k where i: "i = Suc (length ds) + k" by (metis add.commute less_iff_Suc_add not_le_imp_less add_Suc)
    then have "is_char_boundary (utf8 cs) k"
      using Cons.prems(2) enc by (auto simp: is_char_boundary_def nth_append)
    then obtain n where "n \<le> length cs" "take k (utf8 cs) = utf8 (take n cs)"
      using Cons.IH Cons.prems(1) by auto
    then show ?thesis
      unfolding i by (intro exI [of _ "Suc n"]) (simp add: enc utf8_Cons [of c "take n cs"] c(1) take_Cons')
  qed
qed (simp add: is_char_boundary_def)

lemma take_utf8:
  assumes "list_all is_scalar cs" and "is_char_boundary (utf8 cs) i"
  shows "\<exists>n\<le>length cs. take i (utf8 cs) = utf8 (take n cs) \<and> drop i (utf8 cs) = utf8 (drop n cs)"
proof -
  obtain n where n: "n \<le> length cs" "take i (utf8 cs) = utf8 (take n cs)"
    using char_boundary_utf8 [OF assms] by blast
  have "i \<le> length (utf8 cs)" using assms(2) by (auto simp: is_char_boundary_def)
  then have i: "length (utf8 (take n cs)) = i" using n(2) by (metis length_take min.absorb2)
  have "utf8 cs = utf8 (take n cs) @ utf8 (drop n cs)"
    by (metis append_take_drop_id concat_append map_append utf8_def)
  then show ?thesis using n i by (metis append_eq_conv_conj)
qed

lemma boundary_below_is: "is_char_boundary s 0 \<Longrightarrow> is_char_boundary s (boundary_below s n)"
  by (induction n) auto

lemma start_is_boundary: "list_all is_scalar cs \<Longrightarrow> is_char_boundary (utf8 cs) 0"
  using utf8_char_conts by (cases cs) (fastforce simp: is_char_boundary_def utf8_Cons nth_append)+

text \<open>A cut text is the encoding of its first characters.\<close>

lemma cut_str_utf8:
  "list_all is_scalar cs \<Longrightarrow> \<exists>n\<le>length cs. cut_str m (utf8 cs) = utf8 (take n cs)"
  using char_boundary_utf8 [of cs "boundary_below (utf8 cs) m"] boundary_below_is start_is_boundary
  by (auto simp: cut_str_def intro: exI [of _ "length cs"])

end
