(* ===== verification/Koh_Request.thy ===== *)
theory Koh_Request
  imports Koh_Bounded Koh_Utf8 "HOL-Library.List_Lexorder"
begin

text \<open>
  \<open>src/src/request.rs\<close> and the small types of \<open>src/src/terminal/mod.rs\<close>: the opening request
  and what its types refuse as they are made and as they are decoded, and the framing of every
  message. A type's constructor is the only way to a value of it, so what it refuses is never
  acted on. Text is its UTF-8 bytes. The postcard encoding is not under src/: where a message's
  bytes matter, the encoder and decoder are parameters.
\<close>

section \<open>Bounds\<close>

definition MAX_REQUEST :: nat where "MAX_REQUEST = 1048576"
definition MAX_REPLY :: nat where "MAX_REPLY = 1048576"
definition MAX_PATH :: nat where "MAX_PATH = 4096"
definition MAX_COMMAND :: nat where "MAX_COMMAND = 262144"
definition MAX_ARGS :: nat where "MAX_ARGS = 4096"
definition MAX_SOURCES :: nat where "MAX_SOURCES = 1024"
definition MAX_LISTED :: nat where "MAX_LISTED = 1024"
definition MAX_JOB_NAME :: nat where "MAX_JOB_NAME = 64"
definition MAX_WAIT_TEXT :: nat where "MAX_WAIT_TEXT = 4096"
definition MAX_DETAIL :: nat where "MAX_DETAIL = 4096"
definition MAX_LOG_CHUNK :: nat where "MAX_LOG_CHUNK = 65536"

section \<open>The terminal's small types\<close>

record size =
  rows :: nat
  cols :: nat

record tty_modes =
  tty_echo :: bool
  tty_line :: bool

definition password :: "tty_modes \<Rightarrow> bool" where
  "password m \<longleftrightarrow> tty_line m \<and> \<not> tty_echo m"

definition MIN_DIM :: nat where "MIN_DIM = 2"
definition MAX_DIM :: nat where "MAX_DIM = 1000"

definition clamp :: "nat \<Rightarrow> nat \<Rightarrow> nat \<Rightarrow> nat" where
  "clamp lo hi n = (if n < lo then lo else if hi < n then hi else n)"

definition clamp_dims :: "size \<Rightarrow> size" where
  "clamp_dims s = \<lparr>rows = clamp MIN_DIM MAX_DIM (rows s), cols = clamp MIN_DIM MAX_DIM (cols s)\<rparr>"

datatype activity = Reading | Polling | Waiting | Busy | Idle | Unknown

definition activity_name :: "activity \<Rightarrow> string" where
  "activity_name a =
     (case a of Reading \<Rightarrow> ''reading'' | Polling \<Rightarrow> ''polling'' | Waiting \<Rightarrow> ''waiting''
      | Busy \<Rightarrow> ''busy'' | Idle \<Rightarrow> ''idle'' | Unknown \<Rightarrow> ''unknown'')"

section \<open>The types of a request\<close>

text \<open>An argument list: \<open>words.iter().fold(0, saturating_add)\<close> cannot saturate before it passes
  \<open>MAX_COMMAND\<close>, so the sum is exact wherever it is compared.\<close>

datatype argv = Argv (argv_words: "byte list list")

definition argv_new :: "byte list list \<Rightarrow> string + argv" where
  "argv_new words =
     (case words of
        [] \<Rightarrow> Inl ''an empty command''
      | first # _ \<Rightarrow>
          if first = [] then Inl ''an empty program name''
          else if MAX_ARGS < length words then Inl ''a command of more than 4096 words''
          else if MAX_COMMAND < foldl (\<lambda>n w. sat_add64 n (length w)) 0 words
            then Inl ''a command over 256 KiB''
          else if \<exists>w\<in>set words. 0 \<in> set w then Inl ''a command holding a NUL byte''
          else Inr (Argv words))"

datatype command_line = CommandLine (line_bytes: "byte list")

definition command_line_new :: "byte list \<Rightarrow> string + command_line" where
  "command_line_new bytes =
     (if bytes = [] then Inl ''an empty command''
      else if MAX_COMMAND < length bytes then Inl ''a command over 256 KiB''
      else if 0 \<in> set bytes then Inl ''a command holding a NUL byte''
      else Inr (CommandLine bytes))"

datatype command = Argv_Command argv | Shell_Command command_line

text \<open>\<open>Command::display\<close>, as characters.\<close>

definition command_display :: "command \<Rightarrow> nat list" where
  "command_display c =
     (case c of
        Argv_Command a \<Rightarrow> join_with 0x20 (map utf8_lossy (argv_words a))
      | Shell_Command l \<Rightarrow> utf8_lossy (line_bytes l))"

definition job_name_byte :: "byte \<Rightarrow> bool" where
  "job_name_byte b \<longleftrightarrow>
     (0x30 \<le> b \<and> b \<le> 0x39) \<or> (0x41 \<le> b \<and> b \<le> 0x5a) \<or> (0x61 \<le> b \<and> b \<le> 0x7a) \<or>
     b \<in> {0x2e, 0x5f, 0x2d}"

type_synonym job_name = "byte list"

definition job_name_new :: "byte list \<Rightarrow> string + job_name" where
  "job_name_new name =
     (if name = [] \<or> MAX_JOB_NAME < length name \<or> starts_with [0x2d] name \<or>
         \<not> list_all job_name_byte name
      then Inl ''a job name is 1 to 64 letters, digits, `.`, `_` or `-`, not first `-`''
      else Inr name)"

datatype signal = SigTerm | SigKill | SigInt | SigHup

definition to_upper :: "byte \<Rightarrow> byte" where
  "to_upper b = (if 0x61 \<le> b \<and> b \<le> 0x7a then b - 0x20 else b)"

definition signal_named :: "byte list \<Rightarrow> signal option" where
  "signal_named name =
     (let name = (case strip_prefix (ascii ''SIG'') name of Some n \<Rightarrow> n | None \<Rightarrow> name);
          name = map to_upper name in
      if name = ascii ''TERM'' \<or> name = ascii ''15'' then Some SigTerm
      else if name = ascii ''KILL'' \<or> name = ascii ''9'' then Some SigKill
      else if name = ascii ''INT'' \<or> name = ascii ''2'' then Some SigInt
      else if name = ascii ''HUP'' \<or> name = ascii ''1'' then Some SigHup
      else None)"

datatype remote_path = RemotePath (path_bytes: "byte list")

definition remote_path_new :: "byte list \<Rightarrow> string + remote_path" where
  "remote_path_new bytes =
     (if MAX_PATH < length bytes then Inl ''a path over 4096 bytes''
      else if 0 \<in> set bytes then Inl ''a path holding a NUL byte''
      else Inr (RemotePath bytes))"

datatype sources = Sources (source_paths: "remote_path list")

definition sources_new :: "remote_path list \<Rightarrow> string + sources" where
  "sources_new ps =
     (if ps = [] then Inl ''no sources''
      else if MAX_SOURCES < length ps then Inl ''more than 1024 sources''
      else Inr (Sources ps))"

datatype wait_text = WaitText (wait_bytes: "byte list")

definition wait_text_new :: "byte list \<Rightarrow> string + wait_text" where
  "wait_text_new s =
     (if s = [] \<or> MAX_WAIT_TEXT < length s then Inl ''text to wait for is 1 to 4096 bytes''
      else Inr (WaitText s))"

datatype on = On_Job job_name | On_Session nat

datatype until = Until_End | Until_Text wait_text | Until_File remote_path | Until_Reading

record wait =
  wait_on :: "on option"
  wait_until :: until

definition wait_new :: "on option \<Rightarrow> until \<Rightarrow> string + wait" where
  "wait_new on until =
     (case (on, until) of
        (_, Until_File _) \<Rightarrow> Inr \<lparr>wait_on = on, wait_until = until\<rparr>
      | (Some _, Until_End) \<Rightarrow> Inr \<lparr>wait_on = on, wait_until = until\<rparr>
      | (Some _, Until_Text _) \<Rightarrow> Inr \<lparr>wait_on = on, wait_until = until\<rparr>
      | (Some (On_Session _), Until_Reading) \<Rightarrow> Inr \<lparr>wait_on = on, wait_until = until\<rparr>
      | (Some (On_Job _), Until_Reading) \<Rightarrow> Inl ''only a session waits for reading''
      | (None, _) \<Rightarrow> Inl ''a wait for a job or a session's end or text names it'')"

record resume =
  resume_run :: nat
  resume_session :: nat

datatype pick = Latest | New | Id nat | Resume_Pick resume

record run =
  run_command :: command
  run_cwd :: "remote_path option"

text \<open>\<open>'c\<close>: the copy request (\<open>sync::Copy\<close>).\<close>

datatype 'c request =
    Shell pick size "argv option" "remote_path option"
  | Sessions
  | Output nat bool
  | Exec run bool
  | Start "job_name option" run
  | Jobs "job_name option"
  | Logs job_name bool "nat option"
  | Kill_Job job_name signal
  | Wait_For wait
  | Copy 'c

definition what :: "'c request \<Rightarrow> string" where
  "what r =
     (case r of
        Shell _ _ _ _ \<Rightarrow> ''a shell'' | Sessions \<Rightarrow> ''the session list''
      | Output _ _ \<Rightarrow> ''a session's text'' | Exec _ _ \<Rightarrow> ''a command'' | Start _ _ \<Rightarrow> ''a job''
      | Jobs _ \<Rightarrow> ''the job list'' | Logs _ _ _ \<Rightarrow> ''a job's output''
      | Kill_Job _ _ \<Rightarrow> ''a signal to a job'' | Wait_For _ \<Rightarrow> ''a wait'' | Copy _ \<Rightarrow> ''a copy'')"

section \<open>Answers\<close>

datatype problem_kind =
    NoSuchJob | NoSuchSession | NameTaken | TooManyJobs | CouldNotStart | OutOfScope | NoHome
  | NotFound | Failed | NoSuchDir | NoSuchProgram

record problem =
  p_kind :: problem_kind
  p_detail :: "byte list"

definition problem_new :: "problem_kind \<Rightarrow> byte list \<Rightarrow> problem" where
  "problem_new k detail = \<lparr>p_kind = k, p_detail = cut_str MAX_DETAIL detail\<rparr>"

definition not_started_status :: "problem_kind \<Rightarrow> nat option" where
  "not_started_status k =
     (if k = NoSuchProgram then Some 127
      else if k = NoSuchDir \<or> k = CouldNotStart then Some 126
      else None)"

definition kind_name :: "problem_kind \<Rightarrow> string" where
  "kind_name k =
     (case k of
        NoSuchJob \<Rightarrow> ''no_such_job'' | NoSuchSession \<Rightarrow> ''no_such_session''
      | NameTaken \<Rightarrow> ''name_taken'' | TooManyJobs \<Rightarrow> ''too_many_jobs''
      | CouldNotStart \<Rightarrow> ''could_not_start'' | OutOfScope \<Rightarrow> ''out_of_scope''
      | NoHome \<Rightarrow> ''no_home'' | NotFound \<Rightarrow> ''not_found'' | Failed \<Rightarrow> ''failed''
      | NoSuchDir \<Rightarrow> ''no_such_dir'' | NoSuchProgram \<Rightarrow> ''no_such_program'')"

datatype exec_stream = Stdout | Stderr | Status

definition exec_tag :: "exec_stream \<Rightarrow> byte" where
  "exec_tag s = (case s of Stdout \<Rightarrow> 0 | Stderr \<Rightarrow> 1 | Status \<Rightarrow> 2)"

definition exec_from_tag :: "byte \<Rightarrow> exec_stream option" where
  "exec_from_tag t =
     (if t = 0 then Some Stdout else if t = 1 then Some Stderr else if t = 2 then Some Status else None)"

text \<open>\<open>request::title\<close>: a title as it is decoded, from at most four bytes a character.\<close>

definition title_decode :: "nat option \<Rightarrow> ('e + byte) list \<Rightarrow> 'e seq_error + nat list" where
  "title_decode hint elements =
     bindE (at_most (MAX_TITLE * 4) hint elements)
       (\<lambda>bytes. Inr (take MAX_TITLE (filter (\<lambda>c. \<not> is_control c) (utf8_lossy bytes))))"

end
