(* ===== verification/Koh_Log.thy ===== *)
theory Koh_Log
  imports Koh_Request
begin

text \<open>
  A job's log (\<open>Log\<close> and \<open>Job::find\<close> in \<open>src/src/server/jobs.rs\<close>, and what \<open>logs\<close> sends
  of it): the newest bytes of an output, counted from the job's first byte. The abstraction is
  the whole output so far (\<open>log_of output log\<close>): reads, tails and searches are read off it.
\<close>

section \<open>The log\<close>

record log =
  l_kept :: "byte list"
  l_total :: nat
  l_budget :: nat

definition log_new :: "nat \<Rightarrow> log" where
  "log_new budget = \<lparr>l_kept = [], l_total = 0, l_budget = budget\<rparr>"

definition log_append :: "log \<Rightarrow> byte list \<Rightarrow> log" where
  "log_append l bytes =
     (let kept = l_kept l @ bytes; total = sat_add64 (l_total l) (length bytes) in
      if min (l_budget l * 2) u64_max < length kept
      then l\<lparr>l_kept := drop (length kept - l_budget l) kept, l_total := total\<rparr>
      else l\<lparr>l_kept := kept, l_total := total\<rparr>)"

definition log_dropped :: "log \<Rightarrow> nat" where
  "log_dropped l = l_total l - length (l_kept l)"

definition log_read :: "log \<Rightarrow> nat \<Rightarrow> nat \<Rightarrow> nat \<times> byte list" where
  "log_read l at limit =
     (let dropped = log_dropped l;
          skipped = dropped - at;
          from = max at dropped - dropped;
          rest = drop from (l_kept l)
      in (skipped, take (min limit (length rest)) rest))"

abbreviation NEWLINE :: byte where "NEWLINE \<equiv> 0x0a"

text \<open>\<open>enumerate().rev().filter(newline).nth(k)\<close>, over the indexed bytes, last first.\<close>

fun nth_newline :: "nat \<Rightarrow> (nat \<times> byte) list \<Rightarrow> nat option" where
  "nth_newline k [] = None"
| "nth_newline k ((i, b) # r) =
     (if b = NEWLINE then (if k = 0 then Some i else nth_newline (k - 1) r) else nth_newline k r)"

definition log_tail_from :: "byte list \<Rightarrow> nat \<Rightarrow> nat" where
  "log_tail_from kept lines =
     (let body = (case strip_suffix [NEWLINE] kept of Some b \<Rightarrow> b | None \<Rightarrow> kept) in
      case checked_sub lines 1 of
        None \<Rightarrow> length kept
      | Some newer \<Rightarrow>
          (case nth_newline newer (rev (enumerate 0 body)) of None \<Rightarrow> 0 | Some at \<Rightarrow> Suc at))"

definition log_tail :: "log \<Rightarrow> nat \<Rightarrow> nat \<times> nat" where
  "log_tail l lines =
     (let from = log_tail_from (l_kept l) lines;
          before = length (drop 1 (split_on NEWLINE (take from (l_kept l))))
      in (sat_add64 (log_dropped l) from, before))"

text \<open>\<open>kept.windows(n).any(|w| w == text)\<close>.\<close>

fun occurs :: "byte list \<Rightarrow> byte list \<Rightarrow> bool" where
  "occurs needle [] = (needle = [])"
| "occurs needle (b # bs) = (starts_with needle (b # bs) \<or> occurs needle bs)"

text \<open>\<open>Job::find\<close>: whether the text is in the output from \<open>from\<close> on, and where to search next.\<close>

definition log_find :: "log \<Rightarrow> byte list \<Rightarrow> nat \<Rightarrow> bool \<times> nat" where
  "log_find l needle from =
     (let (skipped, kept) = log_read l from u64_max;
          at = sat_add64 from skipped;
          overlap = length needle - 1;
          next = max at (sat_add64 at (length kept) - overlap)
      in (needle \<noteq> [] \<and> occurs needle kept, next))"

section \<open>What is sent of it\<close>

datatype log_msg =
    Dropped nat
  | Cut nat
  | Data "byte list"
  | End "nat option" nat
  | Log_Problem problem

text \<open>
  The inner loop of \<open>logs\<close>, a chunk at a time. The lock is taken anew for each, so the log may
  have grown: \<open>ls\<close> are the logs it sees in turn. It is done when a chunk is empty.
\<close>

fun send_chunks :: "log list \<Rightarrow> nat \<Rightarrow> log_msg list \<times> nat \<times> bool" where
  "send_chunks [] at = ([], at, False)"
| "send_chunks (l # ls) at =
     (let (skipped, chunk) = log_read l at MAX_LOG_CHUNK;
          told = (if 0 < skipped then [Dropped skipped] else []);
          at = (if 0 < skipped then sat_add64 at skipped else at)
      in if chunk = [] then (told, at, True)
         else (let (msgs, at', done) = send_chunks ls (sat_add64 at (length chunk))
               in (told @ Data chunk # msgs, at', done)))"

text \<open>The end that is sent: once the job ended and all it wrote is sent, or nothing is followed.\<close>

definition send_end :: "nat option \<Rightarrow> nat \<Rightarrow> nat \<Rightarrow> bool \<Rightarrow> nat \<Rightarrow> log_msg option" where
  "send_end exit written at follow secs =
     (if (exit \<noteq> None \<and> written \<le> at) \<or> \<not> follow
      then Some (End (if written \<le> at then exit else None) secs) else None)"

section \<open>The log holds the end of the output\<close>

definition log_of :: "byte list \<Rightarrow> log \<Rightarrow> bool" where
  "log_of output l \<longleftrightarrow>
     length output \<le> u64_max \<and> l_total l = length output \<and>
     length (l_kept l) \<le> length output \<and>
     l_kept l = drop (length output - length (l_kept l)) output \<and>
     length (l_kept l) \<le> 2 * l_budget l \<and> min (l_budget l) (length output) \<le> length (l_kept l)"

lemma log_of_new [koh_inv]: "log_of [] (log_new budget)"
  by (simp add: log_of_def log_new_def)

lemma log_of_append [koh_inv]:
  assumes "log_of output l" and "length (output @ bytes) \<le> u64_max"
  shows "log_of (output @ bytes) (log_append l bytes)"
proof -
  let ?kept = "l_kept l @ bytes"
  have kept: "?kept = drop (length output - length (l_kept l)) (output @ bytes)"
    and len: "length (l_kept l) \<le> length output"
    using assms(1) by (auto simp: log_of_def)
  have total: "sat_add64 (l_total l) (length bytes) = length (output @ bytes)"
    using assms by (simp add: log_of_def)
  show ?thesis
  proof (cases "min (l_budget l * 2) u64_max < length ?kept")
    case True
    then have over: "l_budget l * 2 < length ?kept"
      using len assms(2) by (auto simp: min_def split: if_splits)
    then have "l_budget l < length ?kept" by simp
    moreover have "drop (length ?kept - l_budget l) ?kept = drop (length (output @ bytes) - l_budget l) (output @ bytes)"
      using calculation len by (subst kept) (simp add: add.commute)
    moreover have "length (drop (length ?kept - l_budget l) ?kept) = l_budget l"
      using calculation(1) by simp
    ultimately show ?thesis
      using True over total assms(2) len unfolding log_of_def log_append_def Let_def by simp
  next
    case False
    then have "length ?kept \<le> 2 * l_budget l" by (auto simp: min_def split: if_splits)
    moreover have app: "log_append l bytes = l\<lparr>l_kept := ?kept, l_total := length (output @ bytes)\<rparr>"
      using False total by (simp add: log_append_def)
    moreover have "length output - length (l_kept l) = length (output @ bytes) - length ?kept" using len by simp
    then have "?kept = drop (length (output @ bytes) - length ?kept) (output @ bytes)" using kept by simp
    moreover have "min (l_budget l) (length (output @ bytes)) \<le> length ?kept"
      using assms(1) by (auto simp: log_of_def min_def split: if_splits)
    moreover have "length ?kept \<le> length (output @ bytes)" using len by simp
    ultimately show ?thesis using assms(2) unfolding log_of_def app by (simp del: drop_append)
  qed
qed

lemma log_dropped_of: "log_of output l \<Longrightarrow> log_dropped l = length output - length (l_kept l)"
  by (simp add: log_of_def log_dropped_def)

lemma log_read_of:
  assumes "log_of output l"
  shows "log_read l at limit = (log_dropped l - at, take limit (drop (max at (log_dropped l)) output))"
proof -
  have "l_kept l = drop (log_dropped l) output"
    using assms by (simp add: log_dropped_of [OF assms] log_of_def)
  then have "drop (max at (log_dropped l) - log_dropped l) (l_kept l) = drop (max at (log_dropped l)) output"
    by simp
  moreover have "take (min limit (length r)) r = take limit r" for r :: "byte list"
    by (simp add: min_def)
  ultimately show ?thesis unfolding log_read_def Let_def by (simp only:)
qed

section \<open>Reading it\<close>


lemma log_of_example: "log_of [1, 2, 3, 4, 5] (log_append (log_append (log_new 2) [1, 2, 3]) [4, 5])"
  using log_of_append [OF log_of_append [OF log_of_new, of "[1, 2, 3]" 2], of "[4, 5]"]
  by (simp add: u64_max_def)


section \<open>Sending it\<close>

text \<open>Messages that account for the output from \<open>at\<close> on, up to \<open>at'\<close>: data as the job wrote it, in
  order, and a count wherever bytes are missing.\<close>

fun accounts :: "byte list \<Rightarrow> nat \<Rightarrow> log_msg list \<Rightarrow> nat \<Rightarrow> bool" where
  "accounts output at [] at' = (at = at')"
| "accounts output at (Dropped n # ms) at' = (0 < n \<and> accounts output (at + n) ms at')"
| "accounts output at (Data bs # ms) at' =
     (bs \<noteq> [] \<and> length bs \<le> MAX_LOG_CHUNK \<and> at + length bs \<le> length output \<and>
      take (length bs) (drop at output) = bs \<and> accounts output (at + length bs) ms at')"
| "accounts output at (_ # ms) at' = False"

text \<open>The logs a sender sees: each holds the end of an output that only grows.\<close>

fun growing :: "byte list \<Rightarrow> log list \<Rightarrow> byte list list \<Rightarrow> bool" where
  "growing final [] [] = True"
| "growing final (l # ls) (out # outs) =
     (log_of out l \<and> (\<forall>o'\<in>set outs. \<exists>more. o' = out @ more) \<and> (\<exists>more. final = out @ more) \<and>
      growing final ls outs)"
| "growing final _ _ = False"

lemma growing_prefix: "growing final ls outs \<Longrightarrow> o' \<in> set outs \<Longrightarrow> \<exists>more. final = o' @ more"
  by (induction final ls outs rule: growing.induct) auto

lemma take_of_take: "take (length (take m xs)) (xs @ ys) = take m xs"
  by (simp add: min_def)

text \<open>C10: a follower of a job's log gets the whole output. Whatever the job writes between two
  chunks, what is sent accounts for every byte from where it began: in order, as written, or
  counted as dropped; and when the sender stops for want of more, it has accounted for all the
  job had written.\<close>

theorem logs_account_for_everything:
  assumes "growing final ls outs" and "at \<le> length (hd (outs @ [final]))" and "length final \<le> u64_max"
    and "send_chunks ls at = (msgs, at', fin)"
  shows "accounts final at msgs at' \<and> at' \<le> length final \<and>
    (fin \<longrightarrow> (\<exists>out\<in>set outs. at' = length out))"
  using assms
proof (induction ls at arbitrary: outs msgs at' fin rule: send_chunks.induct)
  case (1 at)
  then show ?case by (cases outs) auto
next
  case (2 l ls at)
  obtain out rest where outs: "outs = out # rest" using "2.prems"(1) by (cases outs) auto
  have lo: "log_of out l" and grow: "growing final ls rest"
    and later: "\<And>o'. o' \<in> set rest \<Longrightarrow> \<exists>more. o' = out @ more" and pre: "\<exists>more. final = out @ more"
    using "2.prems"(1) by (auto simp: outs)
  have at: "at \<le> length out" using "2.prems"(2) by (simp add: outs)
  let ?skip = "log_dropped l - at"
  define at1 where "at1 = at + ?skip"
  let ?chunk = "take MAX_LOG_CHUNK (drop at1 out)"
  have read: "log_read l at MAX_LOG_CHUNK = (?skip, ?chunk)"
  proof -
    have "max at (log_dropped l) = at1" by (simp add: at1_def)
    then show ?thesis using log_read_of [OF lo, of at MAX_LOG_CHUNK] by simp
  qed
  have "log_dropped l \<le> length out" by (simp add: log_dropped_of [OF lo])
  then have le1: "at1 \<le> length out" using at by (simp add: at1_def)
  have "length out \<le> length final" using pre by auto
  then have sat: "(if 0 < ?skip then sat_add64 at ?skip else at) = at1"
    using le1 "2.prems"(3) by (auto simp: at1_def)
  let ?told = "if 0 < ?skip then [Dropped ?skip] else []"
  show ?case
  proof (cases "?chunk = []")
    case True
    have "msgs = ?told" "at' = at1" "fin"
      using "2.prems"(4) True unfolding send_chunks.simps read Let_def split sat by (simp_all only: simp_thms if_True prod.inject)
    moreover have "at1 = length out" using True le1 by (auto simp: MAX_LOG_CHUNK_def)
    ultimately show ?thesis using \<open>length out \<le> length final\<close> outs by (auto simp: at1_def)
  next
    case False
    let ?at2 = "at1 + length ?chunk"
    have le2: "?at2 \<le> length out" using le1 by simp
    obtain ms at3 d where more: "send_chunks ls ?at2 = (ms, at3, d)" by (metis prod_cases3)
    have step: "sat_add64 at1 (length ?chunk) = ?at2"
      using le2 \<open>length out \<le> length final\<close> "2.prems"(3) by (intro sat_add_exact) simp
    have res: "msgs = ?told @ Data ?chunk # ms" "at' = at3" "fin = d"
      using "2.prems"(4) False unfolding send_chunks.simps read Let_def split sat step more
      by (simp_all only: simp_thms if_False prod.inject split)
    have next_ok: "?at2 \<le> length (hd (rest @ [final]))"
    proof (cases rest)
      case Nil
      then show ?thesis using le2 \<open>length out \<le> length final\<close> by simp
    next
      case (Cons o' os)
      then obtain more where "o' = out @ more" using later [of o'] by auto
      then show ?thesis using le2 Cons by simp
    qed
    have "accounts final ?at2 ms at3 \<and> at3 \<le> length final \<and> (d \<longrightarrow> (\<exists>out\<in>set rest. at3 = length out))"
      by (rule "2.IH" [OF refl read [symmetric] refl refl False grow, unfolded sat step,
            OF next_ok "2.prems"(3) more])
    moreover have "take (length ?chunk) (drop at1 final) = ?chunk"
    proof -
      obtain more where "final = out @ more" using pre by blast
      then have "drop at1 final = drop at1 out @ more" using le1 by simp
      then show ?thesis by (simp only: take_of_take)
    qed
    ultimately show ?thesis
      using False le2 \<open>length out \<le> length final\<close> unfolding res outs by (auto simp: at1_def)
  qed
qed

theorem logs_account_for_everything_witness:
  "accounts [1, 2, 3, 4, 5] 0 [Dropped 3, Data [4, 5]] 5"
proof -
  let ?l = "log_append (log_append (log_new 2) [1, 2, 3]) [4, 5]"
  have sent: "send_chunks [?l, ?l] 0 = ([Dropped 3, Data [4, 5]], 5, True)"
    by (simp add: log_append_def log_new_def log_read_def log_dropped_def MAX_LOG_CHUNK_def
        u64_max_def sat_add_def)
  have "growing [1, 2, 3, 4, 5] [?l, ?l] [[1, 2, 3, 4, 5], [1, 2, 3, 4, 5]]"
    using log_of_example by simp
  then show ?thesis
    using logs_account_for_everything [OF _ _ _ sent] by (simp add: u64_max_def del: accounts.simps growing.simps)
qed

section \<open>Its last lines\<close>

definition newlines :: "byte list \<Rightarrow> nat" where
  "newlines bs = length (filter (\<lambda>b. b = NEWLINE) bs)"

lemma newlines_simps [simp]:
  "newlines [] = 0" "newlines (b # bs) = (if b = NEWLINE then Suc (newlines bs) else newlines bs)"
  "newlines (xs @ ys) = newlines xs + newlines ys"
  by (simp_all add: newlines_def)

lemma length_split_on: "length (split_on c bs) = Suc (length (filter (\<lambda>b. b = c) bs))"
  by (induction bs) (auto split: list.splits)

lemma enumerate_snoc: "enumerate n (xs @ [x]) = enumerate n xs @ [(n + length xs, x)]"
  by (induction xs arbitrary: n) auto

text \<open>The newline found is followed by \<open>k\<close> more.\<close>

lemma nth_newline_spec:
  "(case nth_newline k (rev (enumerate 0 body)) of
      None \<Rightarrow> newlines body \<le> k
    | Some i \<Rightarrow> i < length body \<and> body ! i = NEWLINE \<and> newlines (drop (Suc i) body) = k)"
proof (induction body arbitrary: k rule: rev_induct)
  case (snoc b body)
  have rev: "rev (enumerate 0 (body @ [b])) = (length body, b) # rev (enumerate 0 body)"
    by (simp add: enumerate_snoc)
  show ?case
  proof (cases "b = NEWLINE \<and> k = 0")
    case True
    then show ?thesis unfolding rev by simp
  next
    case False
    let ?k = "if b = NEWLINE then k - 1 else k"
    have step: "nth_newline k (rev (enumerate 0 (body @ [b]))) = nth_newline ?k (rev (enumerate 0 body))"
      unfolding rev using False by auto
    show ?thesis
    proof (cases "nth_newline ?k (rev (enumerate 0 body))")
      case None
      then show ?thesis using snoc.IH [of ?k] False unfolding step by auto
    next
      case (Some i)
      then show ?thesis using snoc.IH [of ?k] False unfolding step by (auto simp: nth_append)
    qed
  qed
qed simp

text \<open>How many lines a text has; a last line with no newline yet is one.\<close>

definition line_count :: "byte list \<Rightarrow> nat" where
  "line_count bs = newlines bs + (if bs = [] \<or> last bs = NEWLINE then 0 else 1)"

lemma line_count_ended: "line_count (bs @ [NEWLINE]) = Suc (newlines bs)"
  by (simp add: line_count_def)

lemma line_count_le:
  "kept = body \<or> kept = body @ [NEWLINE] \<Longrightarrow> line_count kept \<le> Suc (newlines body)"
  by (auto simp: line_count_def)

lemma line_count_open: "bs \<noteq> [] \<Longrightarrow> last bs \<noteq> NEWLINE \<Longrightarrow> line_count bs = Suc (newlines bs)"
  by (simp add: line_count_def)

lemma tail_lines:
  assumes "kept = body @ [NEWLINE] \<or> (kept = body \<and> (body = [] \<or> last body \<noteq> NEWLINE))"
    and "start = (case nth_newline newer (rev (enumerate 0 body)) of None \<Rightarrow> 0 | Some i \<Rightarrow> Suc i)"
  shows "start \<le> length kept \<and> line_count (drop start kept) = min (Suc newer) (line_count kept) \<and>
    (0 < start \<longrightarrow> kept ! (start - 1) = NEWLINE)"
proof (cases "nth_newline newer (rev (enumerate 0 body))")
  case None
  then have "newlines body \<le> newer"
    using nth_newline_spec [where k = newer and body = body] by simp
  moreover have "line_count kept \<le> Suc (newlines body)"
    using assms(1) by (intro line_count_le) auto
  ultimately show ?thesis using None assms(2) by simp
next
  case (Some i)
  then have i: "i < length body" "body ! i = NEWLINE" "newlines (drop (Suc i) body) = newer"
    using nth_newline_spec [where k = newer and body = body] by simp_all
  have "newlines body = newlines (take i body @ NEWLINE # drop (Suc i) body)"
    using i by (metis id_take_nth_drop)
  then have nl: "newer \<le> newlines body" using i(3) by simp
  have start: "start = Suc i" using Some assms(2) by simp
  from assms(1) show ?thesis
  proof
    assume whole: "kept = body @ [NEWLINE]"
    then have "drop start kept = drop (Suc i) body @ [NEWLINE]" using i(1) by (simp add: start)
    then have "line_count (drop start kept) = Suc newer" by (simp only: line_count_ended i(3))
    moreover have "line_count kept = Suc (newlines body)" unfolding whole by (rule line_count_ended)
    ultimately show ?thesis using nl whole i start by (simp add: nth_append)
  next
    assume same: "kept = body \<and> (body = [] \<or> last body \<noteq> NEWLINE)"
    then have ne: "body \<noteq> []" "last body \<noteq> NEWLINE" using i(1) by auto
    have "body ! (length body - 1) \<noteq> NEWLINE" using ne by (simp add: last_conv_nth)
    then have "Suc i \<noteq> length body" using i(2) by (metis diff_Suc_1)
    then have "drop (Suc i) body \<noteq> []" "last (drop (Suc i) body) \<noteq> NEWLINE" using i(1) ne by auto
    then show ?thesis
      using line_count_open [of "drop (Suc i) body"] line_count_open [OF ne] i nl same start by simp
  qed
qed

lemma log_drop_kept: "log_of output l \<Longrightarrow> drop (log_dropped l + from) output = drop from (l_kept l)"
proof -
  assume l: "log_of output l"
  then have "l_kept l = drop (log_dropped l) output" unfolding log_dropped_of [OF l] by (simp add: log_of_def)
  then have "drop from (l_kept l) = drop from (drop (log_dropped l) output)" by simp
  then show ?thesis by (simp add: add.commute)
qed

lemma log_tail_from_le: "log_tail_from kept lines \<le> length kept"
proof -
  have "length (case strip_suffix [NEWLINE] kept of Some b \<Rightarrow> b | None \<Rightarrow> kept) \<le> length kept"
    by (auto simp: strip_suffix_Some split: option.splits)
  moreover have "nth_newline k (rev (enumerate 0 body)) = Some i \<Longrightarrow> i < length body"
    for k i :: nat and body :: "byte list"
    using nth_newline_spec [where k = k and body = body] by simp
  ultimately show ?thesis
    unfolding log_tail_from_def Let_def by (fastforce split: option.splits)
qed

lemma tail_shape:
  assumes "log_of output l"
  shows "log_tail l lines = (log_dropped l + log_tail_from (l_kept l) lines,
    newlines (take (log_tail_from (l_kept l) lines) (l_kept l)))"
proof -
  have "log_dropped l + log_tail_from (l_kept l) lines \<le> u64_max"
  proof -
    have "length (l_kept l) \<le> length output" "length output \<le> u64_max" using assms by (simp_all add: log_of_def)
    then show ?thesis
      using log_tail_from_le [of "l_kept l" lines] log_dropped_of [OF assms] by linarith
  qed
  then show ?thesis by (simp add: log_tail_def Let_def length_split_on newlines_def)
qed

text \<open>\<open>koh logs --tail\<close> begins at a line. What is sent from where a tail begins has exactly the
  lines asked for, or all that are kept if there are not so many; it begins just after a
  newline or at the first byte kept; and the lines told to go before it are those kept there.\<close>

theorem tail_begins_at_a_line:
  assumes "log_of output l"
  shows "\<exists>start \<le> length (l_kept l).
    log_tail l lines = (log_dropped l + start, newlines (take start (l_kept l))) \<and>
    drop (log_dropped l + start) output = drop start (l_kept l) \<and>
    line_count (drop start (l_kept l)) = min lines (line_count (l_kept l)) \<and>
    (0 < start \<and> start < length (l_kept l) \<longrightarrow> l_kept l ! (start - 1) = NEWLINE)"
proof -
  let ?kept = "l_kept l" and ?body = "case strip_suffix [NEWLINE] (l_kept l) of Some b \<Rightarrow> b | None \<Rightarrow> l_kept l"
  define start where "start = log_tail_from ?kept lines"
  have body: "?kept = ?body @ [NEWLINE] \<or> (?kept = ?body \<and> (?body = [] \<or> last ?body \<noteq> NEWLINE))"
    by (cases "?kept" rule: rev_cases) (auto simp: strip_suffix_def)
  show ?thesis
  proof (cases lines)
    case 0
    have "line_count [] = 0" by (simp add: line_count_def)
    then show ?thesis
      using tail_shape [OF assms, of lines] 0 assms
      by (intro exI [of _ "length ?kept"]) (simp add: log_tail_from_def checked_sub_def log_drop_kept)
  next
    case (Suc newer)
    have start_eq: "start = (case nth_newline newer (rev (enumerate 0 ?body)) of None \<Rightarrow> 0 | Some at \<Rightarrow> Suc at)"
      by (simp add: start_def log_tail_from_def Let_def Suc checked_sub_def)
    have "start \<le> length ?kept \<and> line_count (drop start ?kept) = min (Suc newer) (line_count ?kept) \<and>
      (0 < start \<longrightarrow> ?kept ! (start - 1) = NEWLINE)"
      by (rule tail_lines [OF body start_eq])
    then show ?thesis
      using tail_shape [OF assms, of lines] log_drop_kept [OF assms, of start]
      by (intro exI [of _ start]) (auto simp: start_def Suc)
  qed
qed

theorem tail_begins_at_a_line_witness:
  "\<exists>start. log_tail (log_append (log_new 100) [65, 10, 66]) 1 = (start, 1) \<and>
     line_count (drop start [65, 10, 66]) = 1"
proof -
  let ?l = "log_append (log_new 100) [65, 10, 66]"
  have kept: "l_kept ?l = [65, 10, 66]" "log_dropped ?l = 0"
    by (simp_all add: log_append_def log_new_def log_dropped_def u64_max_def sat_add_def)
  have "log_of [65, 10, 66] ?l"
    using log_of_append [OF log_of_new, of "[65, 10, 66]" 100] by (simp add: u64_max_def)
  from tail_begins_at_a_line [OF this, of 1] obtain start where start: "start \<le> 3"
    "log_tail ?l 1 = (start, newlines (take start [65, 10, 66]))"
    "line_count (drop start [65, 10, 66]) = 1"
    unfolding kept by (auto simp: line_count_def)
  consider "start = 0" | "start = 1" | "start = 2" | "start = 3" using start(1) by linarith
  then have "start = 2" using start(3) by cases (simp_all add: line_count_def)
  then show ?thesis using start by (intro exI [of _ 2]) simp
qed

section \<open>Searching it as it grows\<close>

definition at_place :: "byte list \<Rightarrow> byte list \<Rightarrow> nat \<Rightarrow> bool" where
  "at_place needle output i \<longleftrightarrow> i + length needle \<le> length output \<and> take (length needle) (drop i output) = needle"

lemma take_whole: "take (length n) xs = n \<Longrightarrow> length n \<le> length xs"
  by (drule arg_cong [where f = length]) simp

lemma occurs_iff: "occurs needle bs \<longleftrightarrow> (\<exists>i. at_place needle bs i)"
proof (induction bs)
  case (Cons b bs)
  have "(\<exists>i. at_place needle (b # bs) i) \<longleftrightarrow> at_place needle (b # bs) 0 \<or> (\<exists>i. at_place needle (b # bs) (Suc i))"
    by (metis not0_implies_Suc)
  moreover have "at_place needle (b # bs) (Suc i) = at_place needle bs i" for i
    by (simp add: at_place_def)
  moreover have "at_place needle (b # bs) 0 = starts_with needle (b # bs)"
    using take_whole [of needle "b # bs"] unfolding at_place_def starts_with_def by auto
  ultimately show ?case using Cons.IH by simp
qed (auto simp: at_place_def)

lemma at_place_drop: "n \<le> length output \<Longrightarrow> at_place needle (drop n output) i \<longleftrightarrow> at_place needle output (n + i)"
  by (auto simp: at_place_def add.commute)

text \<open>a search sees every occurrence. A search finds the text exactly if it begins at or after
  both the place asked and the first byte kept; and where it says to look next, nothing
  is lost: a text not found, that the job completes later, begins at the new place or after.\<close>

theorem find_misses_nothing:
  assumes "log_of output l" and "from \<le> length output" and "needle \<noteq> []"
    and "log_find l needle from = (found, next)"
  shows "(found \<longleftrightarrow> (\<exists>i \<ge> max from (log_dropped l). at_place needle output i)) \<and>
    next \<le> length output \<and>
    (\<not> found \<longrightarrow> (\<forall>more i. max from (log_dropped l) \<le> i \<and> at_place needle (output @ more) i \<longrightarrow> next \<le> i))"
proof -
  let ?at = "max from (log_dropped l)"
  have le: "length output \<le> u64_max" "log_dropped l \<le> length output"
    using assms(1) log_dropped_of [OF assms(1)] by (auto simp: log_of_def)
  then have at: "?at \<le> length output" using assms(2) by simp
  have read: "log_read l from u64_max = (log_dropped l - from, drop ?at output)"
    using log_read_of [OF assms(1), of "from" u64_max] le by simp
  have sat: "sat_add64 from (log_dropped l - from) = ?at"
    using le at by (subst sat_add_exact) auto
  have sat2: "sat_add64 ?at (length (drop ?at output)) = length output"
    using le at by (subst sat_add_exact) auto
  have found: "found = occurs needle (drop ?at output)"
    and nxt: "next = max ?at (length output - (length needle - 1))"
    using assms(3,4) unfolding log_find_def read Let_def split sat sat2 by simp_all
  have occ: "found \<longleftrightarrow> (\<exists>i \<ge> ?at. at_place needle output i)"
    unfolding found occurs_iff at_place_drop [OF at] by (metis le_Suc_ex le_add1)
  have "next \<le> i" if nf: "\<not> found" and i: "?at \<le> i" "at_place needle (output @ more) i" for more i
  proof (rule ccontr)
    assume "\<not> next \<le> i"
    then have "i < length output - (length needle - 1)" using i(1) nxt by auto
    then have "i + length needle \<le> length output" using assms(3) by (cases needle) auto
    then have "at_place needle output i" using i(2) by (simp add: at_place_def)
    then show False using nf occ i(1) by blast
  qed
  then show ?thesis using occ nxt at by auto
qed

theorem find_misses_nothing_witness:
  "\<exists>found at. log_find (log_append (log_new 100) [65, 66]) [66, 67] 0 = (found, at) \<and>
     \<not> found \<and> at \<le> 1"
proof -
  obtain found "next" where f: "log_find (log_append (log_new 100) [65, 66]) [66, 67] 0 = (found, next)"
    by fastforce
  have l: "log_of [65, 66] (log_append (log_new 100) [65, 66])"
    using log_of_append [OF log_of_new, of "[65, 66]" 100] by (simp add: u64_max_def)
  have d: "log_dropped (log_append (log_new 100) [65, 66]) = 0"
    by (simp add: log_append_def log_new_def log_dropped_def u64_max_def sat_add_def)
  from find_misses_nothing [OF l _ _ f]
  have "found \<longleftrightarrow> (\<exists>i. at_place [66, 67] [65, 66] i)"
    and later: "\<not> found \<Longrightarrow> at_place [66, 67] ([65, 66] @ [67]) 1 \<Longrightarrow> next \<le> 1"
    unfolding d by auto
  moreover have "\<not> at_place [66, 67] [65, 66] i" for i
    by (cases i) (auto simp: at_place_def)
  ultimately have "\<not> found \<and> next \<le> 1" by (auto simp: at_place_def)
  with f show ?thesis by blast
qed

end
