(* ===== verification/Koh_BTree.thy ===== *)
theory Koh_BTree
  imports Koh_Prelude "HOL-Library.AList" "HOL-Library.Product_Lexorder" "HOL-Library.List_Lexorder"
begin

text \<open>
  Rust's \<open>BTreeMap\<close>: its entries in the order of its keys, which is the order the program's
  iterations see. The interface its clients use is the locale \<open>ordered_table\<close> (what a lookup
  finds after an insert, a remove or a retain, and how many entries there are); the lemmas
  proved in it serve the job table and the session table.
\<close>

type_synonym ('k, 'v) btree = "('k \<times> 'v) list"

fun bt_insert :: "'k::linorder \<Rightarrow> 'v \<Rightarrow> ('k, 'v) btree \<Rightarrow> ('k, 'v) btree" where
  "bt_insert k v [] = [(k, v)]"
| "bt_insert k v ((k', v') # t) =
     (if k < k' then (k, v) # (k', v') # t
      else if k = k' then (k, v) # t
      else (k', v') # bt_insert k v t)"

definition bt_get :: "('k, 'v) btree \<Rightarrow> 'k \<Rightarrow> 'v option" where
  "bt_get t k = map_of t k"

definition bt_retain :: "('k \<times> 'v \<Rightarrow> bool) \<Rightarrow> ('k, 'v) btree \<Rightarrow> ('k, 'v) btree" where
  "bt_retain keep t = filter keep t"

definition bt_remove :: "'k \<Rightarrow> ('k, 'v) btree \<Rightarrow> ('k, 'v) btree" where
  "bt_remove k t = filter (\<lambda>e. fst e \<noteq> k) t"

definition bt_ok :: "('k::linorder, 'v) btree \<Rightarrow> bool" where
  "bt_ok t \<longleftrightarrow> sorted_wrt (<) (map fst t)"

lemma bt_ok_Nil [simp]: "bt_ok []"
  by (simp add: bt_ok_def)

lemma bt_ok_distinct: "bt_ok t \<Longrightarrow> distinct (map fst t)"
  by (simp add: bt_ok_def strict_sorted_iff)

lemma set_bt_insert:
  "bt_ok t \<Longrightarrow> set (bt_insert k v t) = insert (k, v) {e \<in> set t. fst e \<noteq> k}"
  by (induction k v t rule: bt_insert.induct) (auto simp: bt_ok_def)

lemma bt_ok_insert [koh_inv]: "bt_ok t \<Longrightarrow> bt_ok (bt_insert k v t)"
proof (induction k v t rule: bt_insert.induct)
  case (2 k v k' v' t)
  then have "bt_ok t" by (simp add: bt_ok_def)
  then show ?case using 2 by (auto simp: bt_ok_def set_bt_insert)
qed (simp add: bt_ok_def)

lemma bt_ok_retain [koh_inv]: "bt_ok t \<Longrightarrow> bt_ok (bt_retain keep t)"
  by (induction t) (auto simp: bt_ok_def bt_retain_def)

lemma bt_ok_remove [koh_inv]: "bt_ok t \<Longrightarrow> bt_ok (bt_remove k t)"
  using bt_ok_retain [of t "\<lambda>e. fst e \<noteq> k"] by (simp add: bt_remove_def bt_retain_def)

lemma bt_get_insert: "bt_get (bt_insert k v t) k' = (if k' = k then Some v else bt_get t k')"
  by (induction k v t rule: bt_insert.induct) (auto simp: bt_get_def)

lemma bt_get_iff: "bt_ok t \<Longrightarrow> bt_get t k = Some v \<longleftrightarrow> (k, v) \<in> set t"
  using bt_ok_distinct [of t] by (auto simp: bt_get_def)

lemma bt_get_retain:
  "bt_ok t \<Longrightarrow> bt_get (bt_retain keep t) k = (case bt_get t k of Some v \<Rightarrow> if keep (k, v) then Some v else None | None \<Rightarrow> None)"
proof (induction t)
  case (Cons e t)
  then have "bt_ok t" "bt_get t (fst e) = None"
    by (auto simp: bt_ok_def bt_get_def map_of_eq_None_iff)
  then show ?case using Cons.IH by (cases e) (auto simp: bt_retain_def bt_get_def split: option.splits)
qed (simp add: bt_retain_def bt_get_def)

lemma bt_get_remove: "bt_get (bt_remove k t) k' = (if k' = k then None else bt_get t k')"
  by (induction t) (auto simp: bt_remove_def bt_get_def)

lemma bt_get_Nil: "bt_get [] k = None"
  by (simp add: bt_get_def)

lemma length_bt_insert_le: "length (bt_insert k v t) \<le> Suc (length t)"
  by (induction k v t rule: bt_insert.induct) auto

lemma length_bt_insert_old: "bt_ok t \<Longrightarrow> bt_get t k = Some x \<Longrightarrow> length (bt_insert k v t) = length t"
proof (induction k v t rule: bt_insert.induct)
  case (2 k v k' v' t)
  then have "bt_ok t" by (simp add: bt_ok_def)
  moreover have "\<not> k < k'"
    using 2(2,3) by (force simp: bt_get_def bt_ok_def dest: map_of_SomeD split: if_splits)
  ultimately show ?case using 2 by (auto simp: bt_get_def)
qed (simp add: bt_get_def)

locale ordered_table =
  fixes lookup :: "'t \<Rightarrow> 'k \<Rightarrow> 'v option"
    and insert_at :: "'k \<Rightarrow> 'v \<Rightarrow> 't \<Rightarrow> 't"
    and keep_only :: "('k \<times> 'v \<Rightarrow> bool) \<Rightarrow> 't \<Rightarrow> 't"
    and entries :: "'t \<Rightarrow> ('k \<times> 'v) list"
    and ok :: "'t \<Rightarrow> bool"
  assumes lookup_insert: "ok t \<Longrightarrow> lookup (insert_at k v t) k' = (if k' = k then Some v else lookup t k')"
    and lookup_keep: "ok t \<Longrightarrow> lookup (keep_only p t) k =
          (case lookup t k of Some v \<Rightarrow> if p (k, v) then Some v else None | None \<Rightarrow> None)"
    and lookup_entries: "ok t \<Longrightarrow> lookup t k = Some v \<longleftrightarrow> (k, v) \<in> set (entries t)"
    and entries_distinct: "ok t \<Longrightarrow> distinct (map fst (entries t))"
    and insert_ok: "ok t \<Longrightarrow> ok (insert_at k v t)"
    and keep_ok: "ok t \<Longrightarrow> ok (keep_only p t)"
    and insert_grows: "length (entries (insert_at k v t)) \<le> Suc (length (entries t))"
begin

lemma lookup_None: "ok t \<Longrightarrow> lookup t k = None \<longleftrightarrow> k \<notin> fst ` set (entries t)"
proof -
  assume ok: "ok t"
  have "lookup t k = None \<longleftrightarrow> (\<forall>v. (k, v) \<notin> set (entries t))"
    using lookup_entries [OF ok, of k] by (cases "lookup t k") auto
  then show ?thesis by force
qed

text \<open>Of more keys than there are entries, one is free: the first free number is always found.\<close>

lemma some_key_free:
  assumes "ok t" and "distinct ks" and "length (entries t) < length ks"
  shows "\<exists>k\<in>set ks. lookup t k = None"
proof (rule ccontr)
  assume "\<not> ?thesis"
  then have "set ks \<subseteq> fst ` set (entries t)" using lookup_None [OF assms(1)] by blast
  then have "card (set ks) \<le> card (fst ` set (entries t))" by (intro card_mono) auto
  also have "\<dots> \<le> length (entries t)" by (metis card_length length_map list.set_map)
  finally show False using assms(2,3) by (simp add: distinct_card)
qed

text \<open>What is kept of a table is in it, and what the predicate says to keep stays.\<close>

lemma keep_subset: "ok t \<Longrightarrow> lookup (keep_only p t) k = Some v \<Longrightarrow> lookup t k = Some v \<and> p (k, v)"
  by (auto simp: lookup_keep split: option.splits if_splits)

lemma keep_stays: "ok t \<Longrightarrow> lookup t k = Some v \<Longrightarrow> p (k, v) \<Longrightarrow> lookup (keep_only p t) k = Some v"
  by (simp add: lookup_keep)

lemma keep_length: "ok t \<Longrightarrow> length (entries (keep_only p t)) \<le> length (entries t)"
proof -
  assume ok: "ok t"
  have "set (entries (keep_only p t)) \<subseteq> set (entries t)"
  proof
    fix e assume "e \<in> set (entries (keep_only p t))"
    then have "lookup (keep_only p t) (fst e) = Some (snd e)"
      using lookup_entries [OF keep_ok [OF ok]] by simp
    then show "e \<in> set (entries t)" using keep_subset [OF ok] lookup_entries [OF ok] by (metis prod.collapse)
  qed
  moreover have "distinct (entries u)" if "ok u" for u
    using entries_distinct [OF that] distinct_map by blast
  ultimately show ?thesis using ok keep_ok by (metis List.finite_set card_mono distinct_card)
qed

end

interpretation bt: ordered_table bt_get bt_insert bt_retain "\<lambda>t. t" bt_ok
  by unfold_locales
    (auto simp: bt_get_insert bt_get_retain bt_get_iff bt_ok_distinct bt_ok_insert bt_ok_retain
      length_bt_insert_le)

lemma bt_remove_retain: "bt_remove k t = bt_retain (\<lambda>e. fst e \<noteq> k) t"
  by (simp add: bt_remove_def bt_retain_def)

lemma length_bt_remove: "bt_ok t \<Longrightarrow> bt_get t k = Some v \<Longrightarrow> Suc (length (bt_remove k t)) = length t"
proof (induction t)
  case (Cons e t)
  then have "bt_ok t" "bt_get t (fst e) = None"
    by (auto simp: bt_ok_def bt_get_def map_of_eq_None_iff)
  moreover have "filter (\<lambda>x. fst x \<noteq> fst e) t = t"
    unfolding filter_id_conv using \<open>bt_get t (fst e) = None\<close>
    by (metis bt_get_def image_eqI map_of_eq_None_iff)
  ultimately show ?case using Cons by (cases e) (auto simp: bt_remove_def bt_get_def split: if_splits)
qed (simp add: bt_get_def)

end
