(* ===== verification/Koh_Jobs.thy ===== *)
theory Koh_Jobs
  imports Koh_Log Koh_BTree
begin

text \<open>
  \<open>src/src/server/jobs.rs\<close>: the table of every peer's jobs. A peer is its endpoint id (\<open>'p\<close>, any
  ordered type); instants and durations are nanoseconds; a job is identified by \<open>j_id\<close>, its
  allocation (two jobs of one name at different times differ in it). \<open>job_spawn\<close> is not under
  src/: its outcome is given. The table's mutex makes each operation one step.
\<close>

section \<open>A job\<close>

definition MAX_JOBS :: nat where "MAX_JOBS = 64"
definition HUNG_UP :: nat where "HUNG_UP = 128 + 1"
definition NOT_STARTED :: nat where "NOT_STARTED = 127"
definition SIGNALS_WAITING :: nat where "SIGNALS_WAITING = 4"

record status =
  s_written :: nat
  s_exit :: "nat option"
  s_ended :: "nat option"

definition status_new :: status where
  "status_new = \<lparr>s_written = 0, s_exit = None, s_ended = None\<rparr>"

record job =
  j_id :: nat
  j_name :: job_name
  j_command :: "nat list"
  j_session :: "int option"
  j_started :: nat
  j_log :: log
  j_status :: status
  j_signals :: "signal list"
  j_stop :: bool

definition job_append :: "job \<Rightarrow> byte list \<Rightarrow> job" where
  "job_append j bytes =
     (let l = log_append (j_log j) bytes
      in j\<lparr>j_log := l, j_status := (j_status j)\<lparr>s_written := l_total l\<rparr>\<rparr>)"

definition job_end :: "nat \<Rightarrow> job \<Rightarrow> nat \<Rightarrow> job" where
  "job_end now j code = j\<lparr>j_status := (j_status j)\<lparr>s_exit := Some code, s_ended := Some now\<rparr>\<rparr>"

definition job_running :: "job \<Rightarrow> bool" where
  "job_running j \<longleftrightarrow> s_exit (j_status j) = None"

definition job_ended_before :: "job \<Rightarrow> nat \<Rightarrow> bool" where
  "job_ended_before j cutoff \<longleftrightarrow> (case s_ended (j_status j) of None \<Rightarrow> False | Some at \<Rightarrow> at < cutoff)"

definition job_secs :: "nat \<Rightarrow> job \<Rightarrow> nat" where
  "job_secs now j =
     ((case s_ended (j_status j) of Some at \<Rightarrow> at | None \<Rightarrow> now) - j_started j) div NANOS"

datatype job_state = Running | Exited nat

record usage =
  u_processes :: nat
  u_cpu_ms :: nat

record job_info =
  i_name :: job_name
  i_command :: "byte list"
  i_age_secs :: nat
  i_ran_secs :: "nat option"
  i_state :: job_state
  i_output_bytes :: nat
  i_dropped_bytes :: nat
  i_usage :: "usage option"

definition job_info :: "nat \<Rightarrow> bool \<Rightarrow> (int \<Rightarrow> usage option) option \<Rightarrow> job \<Rightarrow> job_info" where
  "job_info now whole usage j =
     \<lparr>i_name = j_name j,
      i_command = (if whole then cut_str MAX_COMMAND (utf8 (j_command j))
                   else utf8 (take MAX_TITLE (j_command j))),
      i_age_secs = (now - j_started j) div NANOS,
      i_ran_secs = map_option (\<lambda>at. (at - j_started j) div NANOS) (s_ended (j_status j)),
      i_state = (case s_exit (j_status j) of None \<Rightarrow> Running | Some c \<Rightarrow> Exited c),
      i_output_bytes = s_written (j_status j),
      i_dropped_bytes = log_dropped (j_log j),
      i_usage =
        (if s_exit (j_status j) = None
         then (case (usage, j_session j) of
                 (Some u, Some s) \<Rightarrow>
                   Some (case u s of Some x \<Rightarrow> x | None \<Rightarrow> \<lparr>u_processes = 0, u_cpu_ms = 0\<rparr>)
               | _ \<Rightarrow> None)
         else None)\<rparr>"

section \<open>The table\<close>

record 'p jobs =
  t_table :: "('p \<times> job_name, job) btree"
  t_log_bytes :: nat
  t_ttl :: nat
  t_next :: nat

definition jobs_new :: "nat \<Rightarrow> nat \<Rightarrow> 'p jobs" where
  "jobs_new log_bytes ttl = \<lparr>t_table = [], t_log_bytes = log_bytes, t_ttl = ttl, t_next = 0\<rparr>"

definition jobs_get :: "'p jobs \<Rightarrow> 'p \<Rightarrow> job_name \<Rightarrow> job option" where
  "jobs_get js peer name = bt_get (t_table js) (peer, name)"

text \<open>\<open>n.to_string()\<close>.\<close>

fun decimal :: "nat \<Rightarrow> byte list" where
  "decimal n = (if n < 10 then [of_nat (48 + n)] else decimal (n div 10) @ [of_nat (48 + n mod 10)])"

declare decimal.simps [simp del]

text \<open>The names an unnamed job may take: the first \<open>MAX_JOBS + 1\<close> numbers that are names.\<close>

definition numbered_names :: "job_name list" where
  "numbered_names =
     List.map_filter (\<lambda>n. case job_name_new (decimal n) of Inr x \<Rightarrow> Some x | Inl _ \<Rightarrow> None)
       [1..<MAX_JOBS + 2]"

text \<open>\<open>min_by_key(started)\<close> over the jobs that ended: the first in the table's order on a tie.\<close>

fun oldest_ended :: "('k \<times> job) list \<Rightarrow> ('k \<times> nat) option" where
  "oldest_ended [] = None"
| "oldest_ended ((k, j) # es) =
     (if job_running j then oldest_ended es
      else case oldest_ended es of
        Some (k', started) \<Rightarrow> if started < j_started j then Some (k', started) else Some (k, j_started j)
      | None \<Rightarrow> Some (k, j_started j))"

definition jobs_expire :: "nat \<Rightarrow> 'p jobs \<Rightarrow> 'p jobs" where
  "jobs_expire now js =
     (case checked_sub now (t_ttl js) of
        Some cutoff \<Rightarrow> js\<lparr>t_table := bt_retain (\<lambda>(_, j). \<not> job_ended_before j cutoff) (t_table js)\<rparr>
      | None \<Rightarrow> js)"

definition reserve_name :: "'p jobs \<Rightarrow> 'p \<Rightarrow> job_name option \<Rightarrow> problem + job_name" where
  "reserve_name js peer name =
     (case name of
        Some n \<Rightarrow> Inr n
      | None \<Rightarrow> (case List.find (\<lambda>n. jobs_get js peer n = None) numbered_names of
                   Some n \<Rightarrow> Inr n
                 | None \<Rightarrow> Inl (problem_new TooManyJobs [])))"

definition reserve_room :: "'p jobs \<Rightarrow> problem + 'p jobs" where
  "reserve_room js =
     (if MAX_JOBS \<le> length (t_table js)
      then (case oldest_ended (t_table js) of
              Some (key, _) \<Rightarrow> Inr (js\<lparr>t_table := bt_remove key (t_table js)\<rparr>)
            | None \<Rightarrow> Inl (problem_new TooManyJobs []))
      else Inr js)"

definition job_new :: "'p jobs \<Rightarrow> nat \<Rightarrow> job_name \<Rightarrow> run \<Rightarrow> job" where
  "job_new js now name run =
     \<lparr>j_id = t_next js, j_name = name, j_command = command_display (run_command run),
      j_session = None, j_started = now, j_log = log_new (t_log_bytes js),
      j_status = status_new, j_signals = [], j_stop = False\<rparr>"

text \<open>\<open>Jobs::reserve\<close>: what it did to the table stays done on an error, as in the code.\<close>

definition reserve ::
  "nat \<Rightarrow> ('p::linorder) jobs \<Rightarrow> 'p \<Rightarrow> job_name option \<Rightarrow> run \<Rightarrow> 'p jobs \<times> (problem + job)" where
  "reserve now js peer name run =
     (let js = jobs_expire now js in
      case reserve_name js peer name of
        Inl e \<Rightarrow> (js, Inl e)
      | Inr name \<Rightarrow>
          let old = jobs_get js peer name in
          if (case old of Some j \<Rightarrow> job_running j | None \<Rightarrow> False)
          then (js, Inl (problem_new NameTaken name))
          else
            let js = (if old = None then js else js\<lparr>t_table := bt_remove (peer, name) (t_table js)\<rparr>) in
            case reserve_room js of
              Inl e \<Rightarrow> (js, Inl e)
            | Inr js \<Rightarrow>
                let job = job_new js now name run
                in (js\<lparr>t_table := bt_insert (peer, name) job (t_table js), t_next := Suc (t_next js)\<rparr>, Inr job))"

text \<open>A change to a job that its holder makes: to the table's entry, if it is still that job.\<close>

definition update_job :: "('p::linorder) jobs \<Rightarrow> 'p \<Rightarrow> job \<Rightarrow> (job \<Rightarrow> job) \<Rightarrow> 'p jobs" where
  "update_job js peer job f =
     (case jobs_get js peer (j_name job) of
        Some kept \<Rightarrow>
          if j_id kept = j_id job
          then js\<lparr>t_table := bt_insert (peer, j_name job) (f kept) (t_table js)\<rparr> else js
      | None \<Rightarrow> js)"

text \<open>The rest of \<open>Jobs::start\<close>, once its spawn came back: a job that did not start is ended, and
  forgotten if its name is still its own.\<close>

definition start_spawned ::
  "nat \<Rightarrow> ('p::linorder) jobs \<Rightarrow> 'p \<Rightarrow> job \<Rightarrow> problem + int option \<Rightarrow> 'p jobs \<times> (problem + job_name)" where
  "start_spawned now js peer job spawned =
     (case spawned of
        Inl problem \<Rightarrow>
          (let js = update_job js peer job (\<lambda>j. job_end now j NOT_STARTED);
               js = (case jobs_get js peer (j_name job) of
                       Some kept \<Rightarrow> if j_id kept = j_id job
                         then js\<lparr>t_table := bt_remove (peer, j_name job) (t_table js)\<rparr> else js
                     | None \<Rightarrow> js)
           in (js, Inl problem))
      | Inr session \<Rightarrow>
          ((case session of
              Some s \<Rightarrow> update_job js peer job
                (\<lambda>j. if j_session j = None then j\<lparr>j_session := Some s\<rparr> else j)
            | None \<Rightarrow> js), Inr (j_name job)))"

text \<open>The runner: each read of the output, then the end, \<open>code\<close> what the process came to.\<close>

definition runner_output :: "('p::linorder) jobs \<Rightarrow> 'p \<Rightarrow> job \<Rightarrow> byte list \<Rightarrow> 'p jobs" where
  "runner_output js peer job bytes = update_job js peer job (\<lambda>j. job_append j bytes)"

definition runner_end :: "nat \<Rightarrow> ('p::linorder) jobs \<Rightarrow> 'p \<Rightarrow> job \<Rightarrow> nat option \<Rightarrow> 'p jobs" where
  "runner_end now js peer job code =
     update_job js peer job (\<lambda>j. job_end now j (case code of Some c \<Rightarrow> c | None \<Rightarrow> HUNG_UP))"

definition jobs_kill :: "('p::linorder) jobs \<Rightarrow> 'p \<Rightarrow> job_name \<Rightarrow> signal \<Rightarrow> 'p jobs \<times> (problem + unit)" where
  "jobs_kill js peer name sig =
     (case jobs_get js peer name of
        None \<Rightarrow> (js, Inl (problem_new NoSuchJob name))
      | Some job \<Rightarrow>
          if \<not> job_running job then (js, Inr ())
          else if SIGNALS_WAITING \<le> length (j_signals job)
          then (js, Inl (problem_new Failed (ascii ''signals are waiting for that job'')))
          else (update_job js peer job (\<lambda>j. j\<lparr>j_signals := j_signals j @ [sig]\<rparr>), Inr ()))"

text \<open>\<open>Jobs::end\<close>: the peer's jobs are forgotten, and each (second part) is told to stop.\<close>

definition jobs_end :: "'p jobs \<Rightarrow> 'p \<Rightarrow> 'p jobs \<times> job list" where
  "jobs_end js peer =
     (js\<lparr>t_table := bt_retain (\<lambda>((owner, _), _). owner \<noteq> peer) (t_table js)\<rparr>,
      map (\<lambda>(_, j). j\<lparr>j_stop := True\<rparr>) (filter (\<lambda>((owner, _), _). owner = peer) (t_table js)))"

definition jobs_list ::
  "nat \<Rightarrow> 'p jobs \<Rightarrow> 'p \<Rightarrow> job_name option \<Rightarrow> (int \<Rightarrow> usage option) option \<Rightarrow> problem + job_info list" where
  "jobs_list now js peer only usage =
     (case only of
        Some name \<Rightarrow>
          (case jobs_get js peer name of
             None \<Rightarrow> Inl (problem_new NoSuchJob name)
           | Some job \<Rightarrow> Inr [job_info now True usage job])
      | None \<Rightarrow>
          Inr (map (job_info now False usage)
            (sort_key j_started (map snd (filter (\<lambda>((owner, _), _). owner = peer) (t_table js))))))"

section \<open>The table's invariant\<close>

text \<open>What holds of a job: its status says the bytes its log counted, and its log holds at most twice
  its budget.\<close>

definition job_ok :: "job \<Rightarrow> bool" where
  "job_ok j \<longleftrightarrow> s_written (j_status j) = l_total (j_log j) \<and>
     length (l_kept (j_log j)) \<le> 2 * l_budget (j_log j) \<and>
     (s_exit (j_status j) = None \<longleftrightarrow> s_ended (j_status j) = None)"

definition jobs_ok :: "('p::linorder) jobs \<Rightarrow> bool" where
  "jobs_ok js \<longleftrightarrow> bt_ok (t_table js) \<and> length (t_table js) \<le> MAX_JOBS \<and>
     (\<forall>peer name j. jobs_get js peer name = Some j \<longrightarrow> j_name j = name \<and> job_ok j)"

lemma jobs_okD:
  "jobs_ok js \<Longrightarrow> bt_ok (t_table js)" "jobs_ok js \<Longrightarrow> length (t_table js) \<le> MAX_JOBS"
  "jobs_ok js \<Longrightarrow> jobs_get js peer name = Some j \<Longrightarrow> j_name j = name \<and> job_ok j"
  by (auto simp: jobs_ok_def)

lemma job_ok_append: "job_ok j \<Longrightarrow> job_ok (job_append j bytes)"
  by (auto simp: job_ok_def job_append_def log_append_def Let_def min_def)

lemma job_ok_upd [simp]:
  "job_ok j \<Longrightarrow> job_ok (job_end now j code)" "job_ok (j\<lparr>j_session := x\<rparr>) = job_ok j"
  "job_ok (j\<lparr>j_signals := y\<rparr>) = job_ok j"
  by (simp_all add: job_ok_def job_end_def)

lemma j_name_upd [simp]: "j_name (job_end now j code) = j_name j" "j_name (job_append j bytes) = j_name j"
  by (simp_all add: job_end_def job_append_def Let_def)

lemma get_retain:
  "bt_ok (t_table js) \<Longrightarrow> jobs_get (js\<lparr>t_table := bt_retain keep (t_table js)\<rparr>) peer name =
     (case jobs_get js peer name of Some j \<Rightarrow> if keep ((peer, name), j) then Some j else None | None \<Rightarrow> None)"
  by (simp add: jobs_get_def bt_get_retain)

lemma jobs_ok_retain [koh_inv]:
  "jobs_ok js \<Longrightarrow> jobs_ok (js\<lparr>t_table := bt_retain keep (t_table js)\<rparr>)"
  using bt.keep_length [of "t_table js" keep]
  by (auto simp: jobs_ok_def bt_ok_retain get_retain split: option.splits if_splits)

lemma jobs_ok_remove [koh_inv]:
  "jobs_ok js \<Longrightarrow> jobs_ok (js\<lparr>t_table := bt_remove k (t_table js)\<rparr>)"
  unfolding bt_remove_retain by (rule jobs_ok_retain)

lemma jobs_ok_expire [koh_inv]: "jobs_ok js \<Longrightarrow> jobs_ok (jobs_expire now js)"
  by (auto simp: jobs_expire_def jobs_ok_retain split: option.splits)

lemma get_insert:
  "jobs_get (js\<lparr>t_table := bt_insert (peer, name) j (t_table js), t_next := n\<rparr>) p' n' =
     (if (p', n') = (peer, name) then Some j else jobs_get js p' n')"
  "jobs_get (js\<lparr>t_table := bt_insert (peer, name) j (t_table js)\<rparr>) p' n' =
     (if (p', n') = (peer, name) then Some j else jobs_get js p' n')"
  by (simp_all add: jobs_get_def bt_get_insert)

lemma length_insert_same: "bt_ok t \<Longrightarrow> bt_get t k = Some v \<Longrightarrow> length (bt_insert k w t) = length t"
proof (induction k w t rule: bt_insert.induct)
  case (2 k w k' v' t)
  have "bt_ok t" using "2.prems"(1) by (simp add: bt_ok_def)
  moreover have "\<not> k < k'"
    using "2.prems" by (auto simp: bt_ok_def bt_get_def split: if_splits dest!: map_of_SomeD)
  ultimately show ?case using 2 by (auto simp: bt_get_def)
qed (simp add: bt_get_def)

lemma jobs_ok_update [koh_inv]:
  assumes "jobs_ok js" and "\<And>j. j_name (f j) = j_name j" and "\<And>j. job_ok j \<Longrightarrow> job_ok (f j)"
  shows "jobs_ok (update_job js peer job f)"
proof (cases "jobs_get js peer (j_name job)")
  case (Some kept)
  then show ?thesis
    using assms length_insert_same [of "t_table js" "(peer, j_name job)" kept "f kept"]
    by (auto simp: update_job_def jobs_ok_def get_insert bt_ok_insert jobs_get_def bt_get_insert)
qed (simp add: update_job_def assms(1))

lemma oldest_ended_Some:
  "oldest_ended es = Some (k, started) \<Longrightarrow> \<exists>j. (k, j) \<in> set es \<and> \<not> job_running j \<and> j_started j = started"
  by (induction es arbitrary: k started rule: oldest_ended.induct) (fastforce split: if_splits option.splits)+

lemma oldest_ended_None: "oldest_ended es = None \<longleftrightarrow> (\<forall>(k, j) \<in> set es. job_running j)"
  by (induction es rule: oldest_ended.induct) (auto split: if_splits option.splits)

text \<open>What making room does: nothing, or it forgets one job that ended.\<close>

lemma reserve_room_Inr:
  assumes "jobs_ok js" and "reserve_room js = Inr js'"
  shows "jobs_ok js' \<and> length (t_table js') < MAX_JOBS \<and> t_next js' = t_next js \<and> t_log_bytes js' = t_log_bytes js \<and>
    (\<forall>p n j. jobs_get js p n = Some j \<and> job_running j \<longrightarrow> jobs_get js' p n = Some j) \<and>
    (\<forall>p n. jobs_get js' p n = None \<or> jobs_get js' p n = jobs_get js p n)"
proof (cases "MAX_JOBS \<le> length (t_table js)")
  case False
  then show ?thesis using assms by (auto simp: reserve_room_def)
next
  case True
  then obtain key started where old: "oldest_ended (t_table js) = Some (key, started)"
    and js': "js' = js\<lparr>t_table := bt_remove key (t_table js)\<rparr>"
    using assms(2) by (auto simp: reserve_room_def split: option.splits)
  obtain j where j: "(key, j) \<in> set (t_table js)" "\<not> job_running j"
    using oldest_ended_Some [OF old] by blast
  have get: "bt_get (t_table js) key = Some j"
    using j(1) by (simp add: bt_get_iff [OF jobs_okD(1) [OF assms(1)]])
  have "length (t_table js') < MAX_JOBS"
    using length_bt_remove [OF jobs_okD(1) [OF assms(1)] get] jobs_okD(2) [OF assms(1)] by (simp add: js')
  then show ?thesis
    using jobs_ok_remove [OF assms(1), of key] j(2) get
    by (auto simp: js' jobs_get_def bt_get_remove)
qed

lemma job_ok_new: "jobs_ok js \<Longrightarrow> job_ok (job_new js now name run)"
  by (simp add: job_ok_def job_new_def status_new_def log_new_def jobs_ok_def)

lemma jobs_ok_reserve [koh_inv]:
  assumes "jobs_ok js"
  shows "jobs_ok (fst (reserve now js peer name run))"
proof -
  let ?js = "jobs_expire now js"
  have ok: "jobs_ok ?js" using assms by (rule jobs_ok_expire)
  show ?thesis
  proof (cases "reserve_name ?js peer name")
    case (Inl e)
    then show ?thesis using ok by (simp add: reserve_def)
  next
    case (Inr n)
    let ?old = "jobs_get ?js peer n"
    let ?js1 = "if ?old = None then ?js else ?js\<lparr>t_table := bt_remove (peer, n) (t_table ?js)\<rparr>"
    have ok1: "jobs_ok ?js1" using ok jobs_ok_remove by auto
    show ?thesis
    proof (cases "(case ?old of Some j \<Rightarrow> job_running j | None \<Rightarrow> False)")
      case True
      then show ?thesis using ok Inr by (simp add: reserve_def Let_def)
    next
      case False
      show ?thesis
      proof (cases "reserve_room ?js1")
        case (Inl e)
        then show ?thesis using Inr False ok1 unfolding reserve_def Let_def by simp
      next
        case room: (Inr js2)
        let ?job = "job_new js2 now n run"
        let ?js3 = "js2\<lparr>t_table := bt_insert (peer, n) ?job (t_table js2), t_next := Suc (t_next js2)\<rparr>"
        have ok2: "jobs_ok js2" and len: "length (t_table js2) < MAX_JOBS"
          using reserve_room_Inr [OF ok1 room] by auto
        have "length (bt_insert (peer, n) ?job (t_table js2)) \<le> MAX_JOBS"
          using len length_bt_insert_le [of "(peer, n)" ?job "t_table js2"] by simp
        then have "jobs_ok ?js3"
          using ok2 job_ok_new [OF ok2, of now n run]
          by (auto simp: jobs_ok_def get_insert bt_ok_insert job_new_def)
        moreover have "reserve now js peer name run = (?js3, Inr ?job)"
          using Inr False room unfolding reserve_def Let_def by simp
        ultimately show ?thesis by simp
      qed
    qed
  qed
qed

section \<open>What can happen to the table\<close>

datatype 'p job_op =
    Reserve nat 'p "job_name option" run
  | Spawned nat 'p job "problem + int option"
  | Wrote 'p job "byte list"
  | Ended nat 'p job "nat option"
  | Killed 'p job_name signal
  | Peer_End 'p

definition job_step :: "('p::linorder) jobs \<Rightarrow> 'p job_op \<Rightarrow> 'p jobs" where
  "job_step js op =
     (case op of
        Reserve now peer name run \<Rightarrow> fst (reserve now js peer name run)
      | Spawned now peer job outcome \<Rightarrow> fst (start_spawned now js peer job outcome)
      | Wrote peer job bytes \<Rightarrow> runner_output js peer job bytes
      | Ended now peer job code \<Rightarrow> runner_end now js peer job code
      | Killed peer name sig \<Rightarrow> fst (jobs_kill js peer name sig)
      | Peer_End peer \<Rightarrow> fst (jobs_end js peer))"

lemma jobs_ok_step [koh_inv]: "jobs_ok js \<Longrightarrow> jobs_ok (job_step js op)"
  by (cases op)
     (auto simp: job_step_def start_spawned_def runner_output_def runner_end_def jobs_kill_def
        jobs_end_def Let_def job_ok_append
        intro!: jobs_ok_reserve jobs_ok_update jobs_ok_remove jobs_ok_retain job_ok_append
        split: sum.splits option.splits)

section \<open>Names by number\<close>

lemma numbered_names_facts: "length numbered_names = Suc MAX_JOBS \<and> distinct numbered_names"
  unfolding numbered_names_def MAX_JOBS_def by code_simp

lemma number_free:
  assumes "jobs_ok js"
  shows "\<exists>n. List.find (\<lambda>n. jobs_get js peer n = None) numbered_names = Some n \<and> jobs_get js peer n = None"
proof -
  have "distinct (map (Pair peer) numbered_names)"
    using numbered_names_facts by (simp add: distinct_map inj_on_def)
  then obtain k where "k \<in> set (map (Pair peer) numbered_names)" "bt_get (t_table js) k = None"
    using bt.some_key_free [OF jobs_okD(1) [OF assms]] jobs_okD(2) [OF assms] numbered_names_facts
    by (metis le_imp_less_Suc length_map)
  then have "\<exists>n\<in>set numbered_names. jobs_get js peer n = None" by (auto simp: jobs_get_def)
  then show ?thesis
    by (cases "List.find (\<lambda>n. jobs_get js peer n = None) numbered_names")
       (auto simp: find_None_iff find_Some_iff)
qed

section \<open>What a reservation does\<close>

definition keeps_running :: "('p::linorder) jobs \<Rightarrow> 'p jobs \<Rightarrow> bool" where
  "keeps_running js js' \<longleftrightarrow>
     (\<forall>p n j. jobs_get js p n = Some j \<and> job_running j \<longrightarrow> jobs_get js' p n = Some j)"

definition only_forgets :: "('p::linorder) jobs \<Rightarrow> 'p jobs \<Rightarrow> bool" where
  "only_forgets js js' \<longleftrightarrow> (\<forall>p n. jobs_get js' p n = None \<or> jobs_get js' p n = jobs_get js p n)"

lemma keeps_running_trans: "keeps_running a b \<Longrightarrow> keeps_running b c \<Longrightarrow> keeps_running a c"
  by (simp add: keeps_running_def)

lemma only_forgets_trans: "only_forgets a b \<Longrightarrow> only_forgets b c \<Longrightarrow> only_forgets a c"
  unfolding only_forgets_def by metis

lemma expire_frame:
  assumes "jobs_ok js"
  shows "keeps_running js (jobs_expire now js) \<and> only_forgets js (jobs_expire now js)"
proof (cases "checked_sub now (t_ttl js)")
  case None
  then show ?thesis by (simp add: jobs_expire_def keeps_running_def only_forgets_def)
next
  case (Some cutoff)
  have "\<not> job_ended_before j cutoff" if "jobs_get js p n = Some j" "job_running j" for p n j
    using jobs_okD(3) [OF assms that(1)] that(2)
    by (simp add: job_ok_def job_running_def job_ended_before_def)
  then show ?thesis
    using Some get_retain [OF jobs_okD(1) [OF assms]]
    by (auto simp: jobs_expire_def keeps_running_def only_forgets_def split: option.splits)
qed

lemma room_frame:
  "jobs_ok js \<Longrightarrow> reserve_room js = Inr js' \<Longrightarrow> keeps_running js js' \<and> only_forgets js js'"
  using reserve_room_Inr [of js js'] by (auto simp: keeps_running_def only_forgets_def)

lemma reserve_room_Inl:
  assumes "jobs_ok js" and "reserve_room js = Inl e"
  shows "p_kind e = TooManyJobs \<and> length (t_table js) = MAX_JOBS \<and>
    (\<forall>p n j. jobs_get js p n = Some j \<longrightarrow> job_running j)"
proof -
  have "oldest_ended (t_table js) = None" and e: "e = problem_new TooManyJobs []" and "MAX_JOBS \<le> length (t_table js)"
    using assms(2) by (auto simp: reserve_room_def split: if_splits option.splits)
  then have "length (t_table js) = MAX_JOBS" "\<forall>(k, j)\<in>set (t_table js). job_running j"
    using jobs_okD(2) [OF assms(1)] by (simp_all add: oldest_ended_None)
  then show ?thesis
    using bt_get_iff [OF jobs_okD(1) [OF assms(1)]] by (auto simp: e problem_new_def jobs_get_def)
qed

text \<open>The branches of \<open>reserve\<close>: the table after the expiry, then the name, then its old job, then room.\<close>

lemma reserve_cases [consumes 1, case_names taken full there]:
  assumes "jobs_ok js"
  obtains
    (taken) n j where "jobs_get (jobs_expire now js) peer n = Some j" "job_running j" "name = Some n"
      "reserve now js peer name run = (jobs_expire now js, Inl (problem_new NameTaken n))"
  | (full) js1 e where "jobs_ok js1" "keeps_running js js1" "only_forgets js js1"
      "reserve_room js1 = Inl e" "reserve now js peer name run = (js1, Inl e)"
  | (there) n js2 where "jobs_ok js2" "keeps_running js js2" "only_forgets js js2"
      "\<not> (\<exists>j. jobs_get js2 peer n = Some j \<and> job_running j)" "\<forall>m. name = Some m \<longrightarrow> n = m"
      "name = None \<longrightarrow> jobs_get (jobs_expire now js) peer n = None"
      "reserve now js peer name run =
         (js2\<lparr>t_table := bt_insert (peer, n) (job_new js2 now n run) (t_table js2), t_next := Suc (t_next js2)\<rparr>,
          Inr (job_new js2 now n run))"
proof -
  let ?js = "jobs_expire now js"
  have ok: "jobs_ok ?js" using assms by (rule jobs_ok_expire)
  have "\<exists>n. reserve_name ?js peer name = Inr n \<and> (\<forall>m. name = Some m \<longrightarrow> n = m) \<and>
      (name = None \<longrightarrow> jobs_get ?js peer n = None)"
    using number_free [OF ok, of peer] by (cases name) (auto simp: reserve_name_def)
  then obtain n where n: "reserve_name ?js peer name = Inr n" "\<forall>m. name = Some m \<longrightarrow> n = m"
    "name = None \<longrightarrow> jobs_get ?js peer n = None" by blast
  let ?old = "jobs_get ?js peer n"
  show thesis
  proof (cases "case ?old of Some j \<Rightarrow> job_running j | None \<Rightarrow> False")
    case True
    then obtain j where j: "?old = Some j" "job_running j" by (auto split: option.splits)
    then have "name = Some n" using n(2,3) by (cases name) auto
    moreover have "reserve now js peer name run = (?js, Inl (problem_new NameTaken n))"
      using n(1) j by (simp add: reserve_def Let_def)
    ultimately show thesis using taken j by blast
  next
    case False
    let ?js1 = "if ?old = None then ?js else ?js\<lparr>t_table := bt_remove (peer, n) (t_table ?js)\<rparr>"
    have ok1: "jobs_ok ?js1" using ok jobs_ok_remove by auto
    have "keeps_running ?js ?js1 \<and> only_forgets ?js ?js1"
      using False by (auto simp: keeps_running_def only_forgets_def jobs_get_def bt_get_remove split: option.splits)
    then have frame: "keeps_running js ?js1" "only_forgets js ?js1"
      using expire_frame [OF assms, of now] keeps_running_trans only_forgets_trans by blast+
    have gone: "jobs_get ?js1 peer n = None"
      by (auto simp: jobs_get_def bt_get_remove)
    show thesis
    proof (cases "reserve_room ?js1")
      case (Inl e)
      then have "reserve now js peer name run = (?js1, Inl e)"
        using n(1) False unfolding reserve_def Let_def by simp
      then show thesis using full ok1 frame Inl by blast
    next
      case (Inr js2)
      have "reserve now js peer name run =
         (js2\<lparr>t_table := bt_insert (peer, n) (job_new js2 now n run) (t_table js2), t_next := Suc (t_next js2)\<rparr>,
          Inr (job_new js2 now n run))"
        using n(1) False Inr unfolding reserve_def Let_def by simp
      moreover have "jobs_ok js2" "keeps_running js js2" "only_forgets js js2"
        using reserve_room_Inr [OF ok1 Inr] room_frame [OF ok1 Inr] frame
          keeps_running_trans only_forgets_trans by blast+
      moreover have "jobs_get js2 peer n = None"
        using room_frame [OF ok1 Inr] gone unfolding only_forgets_def by metis
      ultimately show thesis using there n(2,3) by (metis option.distinct(1))
    qed
  qed
qed

lemma reserve_spec:
  assumes "jobs_ok js" and "reserve now js peer name run = (js', r)"
  shows "keeps_running js js' \<and>
    (case r of
       Inr job \<Rightarrow> jobs_get js' peer (j_name job) = Some job \<and> job_running job \<and> l_kept (j_log job) = [] \<and>
         (\<forall>n. name = Some n \<longrightarrow> j_name job = n) \<and>
         (\<forall>p n. (p, n) \<noteq> (peer, j_name job) \<longrightarrow> jobs_get js' p n = None \<or> jobs_get js' p n = jobs_get js p n)
     | Inl e \<Rightarrow> only_forgets js js' \<and>
         (p_kind e = NameTaken \<and> (\<exists>n j. name = Some n \<and> jobs_get js' peer n = Some j \<and> job_running j) \<or>
          p_kind e = TooManyJobs \<and> length (t_table js') = MAX_JOBS \<and>
            (\<forall>p n j. jobs_get js' p n = Some j \<longrightarrow> job_running j)))"
  using assms(1)
proof (cases rule: reserve_cases [where js = js and now = now and peer = peer and name = name and run = run])
  case (taken n j)
  then show ?thesis
    using assms expire_frame [OF assms(1), of now] by (auto simp: problem_new_def)
next
  case (full js1 e)
  then show ?thesis using assms(2) reserve_room_Inl [OF full(1,4)] by auto
next
  case (there n js2)
  let ?job = "job_new js2 now n run"
  have js': "js' = js2\<lparr>t_table := bt_insert (peer, n) ?job (t_table js2), t_next := Suc (t_next js2)\<rparr>"
    and r: "r = Inr ?job" using there(7) assms(2) by auto
  have job: "j_name ?job = n" "job_running ?job" "l_kept (j_log ?job) = []"
    by (simp_all add: job_new_def job_running_def status_new_def log_new_def)
  have get: "jobs_get js' p m = (if (p, m) = (peer, n) then Some ?job else jobs_get js2 p m)" for p m
    unfolding js' by (rule get_insert)
  have "keeps_running js js'"
    unfolding keeps_running_def
  proof (intro allI impI)
    fix p m j assume a: "jobs_get js p m = Some j \<and> job_running j"
    then have j: "jobs_get js2 p m = Some j" using there(2) unfolding keeps_running_def by blast
    then have "(p, m) \<noteq> (peer, n)" using there(4) a by blast
    then show "jobs_get js' p m = Some j" unfolding get using j by (simp only: if_False)
  qed
  moreover have rest: "\<forall>p m. (p, m) \<noteq> (peer, n) \<longrightarrow> jobs_get js' p m = None \<or> jobs_get js' p m = jobs_get js p m"
    using there(3) unfolding only_forgets_def get by (metis (no_types))
  moreover have "\<forall>m. name = Some m \<longrightarrow> j_name ?job = m" using there(5) unfolding job(1) .
  moreover have "jobs_get js' peer (j_name ?job) = Some ?job" unfolding job(1) get by simp
  ultimately show ?thesis
    unfolding r sum.case job(1) using job(2,3) by blast
qed

lemma reserve_frame:
  assumes "jobs_ok js" and "reserve now js peer name run = (js', r)"
  shows "keeps_running js js' \<and> (\<forall>p n. p \<noteq> peer \<longrightarrow> jobs_get js' p n = None \<or> jobs_get js' p n = jobs_get js p n)"
  using reserve_spec [OF assms] by (auto simp: only_forgets_def split: sum.splits)


definition a_run :: run where
  "a_run = \<lparr>run_command = Shell_Command (CommandLine (ascii ''make'')), run_cwd = None\<rparr>"

lemma jobs_ok_new [koh_inv]: "jobs_ok (jobs_new log_bytes ttl)"
  by (simp add: jobs_ok_def jobs_new_def jobs_get_def bt_get_def)


text \<open>C12: whatever peers ask and jobs do, the table holds at most \<open>MAX_JOBS\<close> jobs, each under its
  own name; a job's status counts exactly the bytes its log counted, and a log never holds
  more than twice the bytes the server gives it.\<close>

theorem job_table_bounded:
  assumes "js = foldl job_step (jobs_new log_bytes ttl) ops"
  shows "length (t_table js) \<le> MAX_JOBS \<and>
    (\<forall>peer name j. jobs_get js peer name = Some j \<longrightarrow>
       j_name j = name \<and> s_written (j_status j) = l_total (j_log j) \<and>
       length (l_kept (j_log j)) \<le> 2 * l_budget (j_log j))"
proof -
  have "jobs_ok (foldl job_step js0 ops)" if "jobs_ok js0" for js0
    using that by (induction ops arbitrary: js0) (auto intro: jobs_ok_step)
  then have "jobs_ok js" using jobs_ok_new assms by blast
  then show ?thesis by (auto simp: jobs_ok_def job_ok_def)
qed

theorem job_table_bounded_witness:
  "length (t_table (job_step (jobs_new 10 3 :: nat jobs) (Reserve 5 1 None a_run))) \<le> MAX_JOBS"
  using job_table_bounded [of _ 10 3 "[Reserve 5 (1 :: nat) None a_run]"] by simp

section \<open>One peer's jobs and another's\<close>

text \<open>Whose operation it is.\<close>

definition op_peer :: "'p job_op \<Rightarrow> 'p" where
  "op_peer op =
     (case op of Reserve _ peer _ _ \<Rightarrow> peer | Spawned _ peer _ _ \<Rightarrow> peer | Wrote peer _ _ \<Rightarrow> peer
      | Ended _ peer _ _ \<Rightarrow> peer | Killed peer _ _ \<Rightarrow> peer | Peer_End peer \<Rightarrow> peer)"

lemma get_update_other:
  "p \<noteq> peer \<Longrightarrow> jobs_get (update_job js peer job f) p n = jobs_get js p n"
  by (auto simp: update_job_def get_insert split: option.splits)

lemma get_remove_other:
  "p \<noteq> peer \<Longrightarrow> jobs_get (js\<lparr>t_table := bt_remove (peer, m) (t_table js)\<rparr>) p n = jobs_get js p n"
  by (simp add: jobs_get_def bt_get_remove)

lemma get_end:
  "bt_ok (t_table js) \<Longrightarrow> jobs_get (fst (jobs_end js peer)) p n = (if p = peer then None else jobs_get js p n)"
  by (simp add: jobs_end_def get_retain split: option.splits)

definition keeps_running_of :: "('p::linorder) jobs \<Rightarrow> 'p jobs \<Rightarrow> 'p \<Rightarrow> bool" where
  "keeps_running_of js js' p \<longleftrightarrow>
     (\<forall>n j. jobs_get js p n = Some j \<and> job_running j \<longrightarrow> jobs_get js' p n = Some j)"

definition only_forgets_of :: "('p::linorder) jobs \<Rightarrow> 'p jobs \<Rightarrow> 'p \<Rightarrow> bool" where
  "only_forgets_of js js' p \<longleftrightarrow> (\<forall>n. jobs_get js' p n = None \<or> jobs_get js' p n = jobs_get js p n)"



text \<open>a listing is the peer's jobs and no other's, oldest first, and short enough for the
  client to read (\<open>MAX_LISTED\<close>), each command cut to \<open>MAX_TITLE\<close> characters.\<close>

theorem listing_is_the_peers:
  assumes "jobs_ok js" and "jobs_list now js peer None usage = Inr infos"
  shows "\<exists>ks. infos = map (job_info now False usage) ks \<and>
    set ks = {j. \<exists>n. jobs_get js peer n = Some j} \<and> sorted (map j_started ks) \<and>
    length infos \<le> MAX_LISTED"
proof -
  let ?mine = "filter (\<lambda>((owner, _), _). owner = peer) (t_table js)"
  let ?ks = "sort_key j_started (map snd ?mine)"
  have "set ?ks = {j. \<exists>n. jobs_get js peer n = Some j}"
    using bt_get_iff [OF jobs_okD(1) [OF assms(1)]] by (force simp: jobs_get_def)
  moreover have "length ?ks \<le> MAX_LISTED"
  proof -
    have "length ?ks \<le> length (t_table js)" by simp
    also have "\<dots> \<le> MAX_LISTED"
      using jobs_okD(2) [OF assms(1)] by (simp add: MAX_LISTED_def MAX_JOBS_def)
    finally show ?thesis .
  qed
  ultimately show ?thesis
    using assms(2) by (intro exI [of _ ?ks]) (auto simp: jobs_list_def)
qed

theorem listing_is_the_peers_witness:
  "jobs_list 9 (jobs_new 10 3 :: nat jobs) 1 None None = Inr [] \<and> length ([] :: job_info list) \<le> MAX_LISTED"
  using listing_is_the_peers [OF jobs_ok_new, of 9 10 3 "1 :: nat" None "[]"]
  by (simp add: jobs_list_def jobs_new_def)

end
