(* ===== verification/Koh_Stream.thy ===== *)
theory Koh_Stream
  imports Koh_Utf8
begin

unbundle bit_operations_syntax

text \<open>
  \<open>src/src/stream.rs\<close>: the output filter both ends run. A \<open>filter\<close> reads a program's output
  however it is split and emits \<open>piece\<close>s: what passes to the user's terminal, and the shell's
  marks. \<open>emit\<close>'s calls are the list of pieces each operation returns beside the new state.

  First the judgement of a whole sequence (\<open>judge\<close>, \<open>csi_asks\<close>, \<open>dcs_asks\<close>, \<open>osc\<close>,
  \<open>mark\<close>), then the state machine (\<open>feed\<close> and what it calls); the properties of both are in
  \<open>Koh_Stream_Proofs\<close>.
\<close>

section \<open>Bounds and bytes\<close>

definition MAX_CSI :: nat where "MAX_CSI = 256"
definition MAX_STRING :: nat where "MAX_STRING = 1048576"
definition MAX_OUT :: nat where "MAX_OUT = 16384"
definition MAX_MARK :: nat where "MAX_MARK = 256"
definition MAX_CLIPBOARD :: nat where "MAX_CLIPBOARD = 16384"

abbreviation ESC :: byte where "ESC \<equiv> 0x1b"
abbreviation BEL :: byte where "BEL \<equiv> 0x07"
abbreviation CAN :: byte where "CAN \<equiv> 0x18"
abbreviation SUB :: byte where "SUB \<equiv> 0x1a"
abbreviation ENQ :: byte where "ENQ \<equiv> 0x05"
abbreviation SEMI :: byte where "SEMI \<equiv> 0x3b"

definition between_bytes :: "byte \<Rightarrow> byte \<Rightarrow> byte \<Rightarrow> bool" where
  "between_bytes lo hi b \<longleftrightarrow> lo \<le> b \<and> b \<le> hi"

section \<open>Types\<close>

datatype piece = Out "byte list" | Mark "byte list"

datatype marks = Drop_Marks | All_Marks | Signed "byte list"

record policy =
  p_marks :: marks
  p_clipboard :: bool
  p_links :: bool

datatype kind = Osc | Dcs | Other_Text

datatype state = Ground | Escape | Escape_Intermediate | Csi | Text kind | Text_Escape

record filter =
  f_policy :: policy
  f_state :: state
  f_seq :: "byte list"
  f_over :: bool
  f_out :: "byte list"

definition filter_new :: "policy \<Rightarrow> filter" where
  "filter_new p = \<lparr>f_policy = p, f_state = Ground, f_seq = [], f_over = False, f_out = []\<rparr>"

definition filter_between :: "filter \<Rightarrow> bool" where
  "filter_between f \<longleftrightarrow> f_state f = Ground"

section \<open>Judging a whole sequence\<close>

datatype judged = Pass | Drop | Replace "byte list" | Relay "byte list"

definition is_digit :: "byte \<Rightarrow> bool" where
  "is_digit b \<longleftrightarrow> between_bytes 0x30 0x39 b"

definition is_alphanumeric :: "byte \<Rightarrow> bool" where
  "is_alphanumeric b \<longleftrightarrow>
     is_digit b \<or> between_bytes 0x41 0x5a b \<or> between_bytes 0x61 0x7a b"

text \<open>\<open>str::parse::<u32>\<close>: digits, a \<open>+\<close> before them allowed, within 32 bits.\<close>

definition digits_value :: "byte list \<Rightarrow> nat" where
  "digits_value ds = foldl (\<lambda>n b. 10 * n + (unat b - 48)) 0 ds"

definition parse_u32 :: "byte list \<Rightarrow> nat option" where
  "parse_u32 s =
     (let ds = (if starts_with (ascii ''+'') s then tl s else s) in
      if ds = [] \<or> \<not> list_all is_digit ds \<or> u32_max < digits_value ds then None
      else Some (digits_value ds))"

text \<open>Whether the body of a CSI (after \<open>ESC [\<close>) asks the terminal something.\<close>

definition first_param :: "byte list \<Rightarrow> nat option" where
  "first_param params = parse_u32 (takeWhile (\<lambda>b. b \<noteq> SEMI \<and> b \<noteq> 0x3a) params)"

definition private_marker :: "byte list \<Rightarrow> byte option" where
  "private_marker rest =
     (case rest of [] \<Rightarrow> None
      | p # _ \<Rightarrow> if p \<in> {0x3c, 0x3d, 0x3e, 0x3f} then Some p else None)"

definition csi_asks :: "byte list \<Rightarrow> bool" where
  "csi_asks body =
     (if body = [] then False
      else
        let last = last body; rest = butlast body;
            private = private_marker rest;
            rest = (if private = None then rest else tl rest);
            params = takeWhile (\<lambda>b. \<not> between_bytes 0x20 0x2f b) rest;
            intermediates = dropWhile (\<lambda>b. \<not> between_bytes 0x20 0x2f b) rest;
            first = first_param params
        in (private \<in> {None, Some 0x3e, Some 0x3d} \<and> intermediates = [] \<and> last = 0x63)
         \<or> (private \<in> {None, Some 0x3f} \<and> intermediates = [] \<and> last = 0x6e)
         \<or> (private \<in> {None, Some 0x3f} \<and> intermediates = ascii ''$'' \<and> last = 0x70)
         \<or> (private = Some 0x3e \<and> intermediates = [] \<and> last = 0x71)
         \<or> (private = Some 0x3f \<and> intermediates = [] \<and> last \<in> {0x75, 0x53})
         \<or> (private = None \<and> intermediates = [] \<and> last = 0x78)
         \<or> (private = None \<and> intermediates = [0x27] \<and> last = 0x7c)
         \<or> (private = None \<and> intermediates = [] \<and> last = 0x74 \<and>
             first \<in> Some ` {11, 13, 14, 15, 16, 18, 19, 20, 21}))"

text \<open>Whether the body of a DCS (after \<open>ESC P\<close>) asks: DECRQSS and XTGETTCAP.\<close>

definition dcs_asks :: "byte list \<Rightarrow> bool" where
  "dcs_asks body =
     (let head = dropWhile (\<lambda>b. is_digit b \<or> b = SEMI) body
      in starts_with (ascii ''$q'') head \<or> starts_with (ascii ''+q'') head)"

definition is_base64 :: "byte list \<Rightarrow> bool" where
  "is_base64 text \<longleftrightarrow>
     text \<noteq> [] \<and> list_all (\<lambda>b. is_alphanumeric b \<or> b \<in> {0x2b, 0x2f, 0x3d}) text"

definition nonce_prefix :: "byte list" where "nonce_prefix = ascii ''nonce=''"

text \<open>The nonce of a mark: the first field that carries one.\<close>

definition mark_nonce :: "byte list \<Rightarrow> byte list option" where
  "mark_nonce data = List.find (\<lambda>_. True) (List.map_filter (strip_prefix nonce_prefix) (split_on SEMI data))"

definition mark_relayed :: "marks \<Rightarrow> byte list option \<Rightarrow> bool" where
  "mark_relayed ms nonce =
     (case ms of
        Signed ours \<Rightarrow> (case nonce of Some theirs \<Rightarrow> ours = theirs | None \<Rightarrow> False)
      | Drop_Marks \<Rightarrow> False
      | All_Marks \<Rightarrow> True)"

text \<open>The mark \<open>data\<close> (after \<open>133;\<close>) relays, its nonce removed.\<close>

definition mark :: "byte list \<Rightarrow> marks \<Rightarrow> byte list option" where
  "mark data ms =
     (if data = [] \<or> MAX_MARK < length data \<or> \<not> list_all (between_bytes 0x20 0x7e) data then None
      else if \<not> mark_relayed ms (mark_nonce data) then None
      else if hd data = 0x53 then None
      else Some (join_with SEMI
             (List.filter (\<lambda>field. \<not> starts_with nonce_prefix field) (split_on SEMI data))))"

text \<open>The body of an OSC without its terminator: BEL, else ST, else as it is.\<close>

definition osc_body :: "byte list \<Rightarrow> byte list" where
  "osc_body seq =
     (let body = drop 2 seq in
      case strip_suffix [BEL] body of
        Some b \<Rightarrow> b
      | None \<Rightarrow> (case strip_suffix [ESC, 0x5c] body of Some b \<Rightarrow> b | None \<Rightarrow> body))"

definition osc_split :: "byte list \<Rightarrow> byte list \<times> byte list" where
  "osc_split body =
     (case position (\<lambda>b. b = SEMI) body of
        Some at \<Rightarrow> (take at body, drop (Suc at) body)
      | None \<Rightarrow> (body, []))"

definition title_text :: "byte list \<Rightarrow> nat list" where
  "title_text data = take MAX_TITLE (List.filter (\<lambda>c. \<not> is_control c) (utf8_lossy data))"

definition title_osc :: "byte list \<Rightarrow> byte list \<Rightarrow> byte list" where
  "title_osc number data = [ESC, 0x5d] @ number @ [SEMI] @ utf8 (title_text data) @ [BEL]"

definition colour_numbers :: "byte list list" where
  "colour_numbers = map ascii
     [''4'', ''10'', ''11'', ''12'', ''13'', ''14'', ''15'', ''16'', ''17'', ''18'', ''19'']"

definition osc :: "byte list \<Rightarrow> policy \<Rightarrow> judged" where
  "osc seq policy =
     (let (number, data) = osc_split (osc_body seq); fields = split_on SEMI data in
      if number = ascii ''133'' then
        (case mark data (p_marks policy) of None \<Rightarrow> Drop | Some m \<Rightarrow> Relay m)
      else if number = ascii ''52'' then
        (let written = (case fields of _ # w # _ \<Rightarrow> w | _ \<Rightarrow> []) in
         if p_clipboard policy \<and> length written \<le> MAX_CLIPBOARD \<and> is_base64 written
         then Pass else Drop)
      else if number = ascii ''0'' \<or> number = ascii ''1'' \<or> number = ascii ''2'' then
        Replace (title_osc number data)
      else if number = ascii ''8'' \<and> \<not> p_links policy then Drop
      else if number \<in> set colour_numbers \<and> ascii ''?'' \<in> set fields then Drop
      else Pass)"

definition judge :: "byte list \<Rightarrow> policy \<Rightarrow> judged" where
  "judge seq policy =
     (case drop 1 seq of
        [] \<Rightarrow> Pass
      | b # _ \<Rightarrow>
          if b = 0x5d then osc seq policy
          else if (b = 0x5b \<and> csi_asks (drop 2 seq))
                \<or> (b = 0x50 \<and> dcs_asks (drop 2 seq))
                \<or> (b = 0x5a \<and> length seq = 2)
          then Drop else Pass)"

section \<open>The end of a character\<close>

definition utf8_needs :: "byte \<Rightarrow> nat option" where
  "utf8_needs b =
     (if between_bytes 0xc2 0xdf b then Some 2
      else if between_bytes 0xe0 0xef b then Some 3
      else if between_bytes 0xf0 0xf4 b then Some 4
      else None)"

text \<open>The loop over \<open>back = 1..=3\<close>, the bytes given last first.\<close>

fun incomplete_loop :: "byte list \<Rightarrow> nat \<Rightarrow> nat" where
  "incomplete_loop [] back = 0"
| "incomplete_loop (b # bs) back =
     (if b AND 0xc0 = 0x80 then incomplete_loop bs (Suc back)
      else case utf8_needs b of None \<Rightarrow> 0 | Some needs \<Rightarrow> if back < needs then back else 0)"

definition incomplete_utf8 :: "byte list \<Rightarrow> nat" where
  "incomplete_utf8 bytes = incomplete_loop (take 3 (rev bytes)) 1"

section \<open>The filter's steps\<close>

definition flush :: "filter \<Rightarrow> filter \<times> piece list" where
  "flush f =
     (let keep = incomplete_utf8 (f_out f); at = length (f_out f) - keep in
      if at = 0 then (f, [])
      else (f\<lparr>f_out := drop at (f_out f)\<rparr>, [Out (take at (f_out f))]))"

lemma incomplete_loop_lt: "bs = [] \<or> incomplete_loop bs k < k + length bs"
proof (induction bs arbitrary: k)
  case (Cons b bs)
  have "incomplete_loop bs (Suc k) < k + length (b # bs) \<or> bs = []"
    using Cons.IH [of "Suc k"] by auto
  then show ?case by (auto split: option.splits)
qed simp

lemma incomplete_utf8_le3: "incomplete_utf8 bs \<le> 3"
proof -
  have "length (take 3 (rev bs)) \<le> 3" by simp
  then show ?thesis
    using incomplete_loop_lt [of "take 3 (rev bs)" 1] unfolding incomplete_utf8_def
    by (cases "take 3 (rev bs)") auto
qed

lemma flush_out_length: "4 \<le> length (f_out f) \<Longrightarrow> length (f_out (fst (flush f))) \<le> 3"
  using incomplete_utf8_le3 [of "f_out f"] by (auto simp: flush_def Let_def)

text \<open>One round of \<open>pass\<close>'s loop: what there is room for now, given out once it fills.\<close>

definition pass_chunk :: "filter \<Rightarrow> byte list \<Rightarrow> filter \<times> piece list" where
  "pass_chunk f now =
     (let f1 = f\<lparr>f_out := f_out f @ now\<rparr>
      in if MAX_OUT \<le> length (f_out f1) then flush f1 else (f1, []))"

function pass :: "filter \<Rightarrow> byte list \<Rightarrow> filter \<times> piece list" where
  "pass f bytes =
     (if bytes = [] then (f, [])
      else
        let room = MAX_OUT - length (f_out f);
            n = min room (length bytes);
            (f1, e1) = pass_chunk f (take n bytes);
            (f2, e2) = pass f1 (drop n bytes)
        in (f2, e1 @ e2))"
  by pat_completeness auto
termination
proof (relation "measure (\<lambda>(f, bytes).
    2 * length bytes + (if MAX_OUT \<le> length (f_out f) then 1 else 0))", goal_cases)
  case (2 f bytes room n x f1 e1)
  show ?case
  proof (cases "MAX_OUT \<le> length (f_out f)")
    case True
    then have "f1 = fst (flush f)" "4 \<le> length (f_out f)"
      using 2 by (auto simp: pass_chunk_def MAX_OUT_def Let_def dest: arg_cong [where f = fst])
    then have "length (f_out f1) \<le> 3" by (simp add: flush_out_length)
    then show ?thesis using True by (simp add: MAX_OUT_def)
  next
    case False
    then have "0 < n" using 2 by auto
    then have "length (drop n bytes) < length bytes" using 2 by simp
    then show ?thesis by simp
  qed
qed simp

declare pass.simps [simp del]

definition begin_seq :: "filter \<Rightarrow> state \<Rightarrow> filter" where
  "begin_seq f st = f\<lparr>f_state := st, f_seq := [ESC], f_over := False\<rparr>"

definition gather :: "filter \<Rightarrow> byte \<Rightarrow> nat \<Rightarrow> filter" where
  "gather f b limit =
     (let f1 = (if limit \<le> length (f_seq f) then f\<lparr>f_over := True, f_seq := []\<rparr> else f) in
      if f_over f1 then f1 else f1\<lparr>f_seq := f_seq f1 @ [b]\<rparr>)"

definition push_seq :: "filter \<Rightarrow> byte \<Rightarrow> filter" where
  "push_seq f b = f\<lparr>f_seq := f_seq f @ [b]\<rparr>"

definition finish :: "filter \<Rightarrow> filter \<times> piece list" where
  "finish f =
     (let seq = f_seq f; over = f_over f;
          f0 = f\<lparr>f_state := Ground, f_over := False, f_seq := []\<rparr>
      in if over then (f0, [])
         else case judge seq (f_policy f) of
           Pass \<Rightarrow> pass f0 seq
         | Drop \<Rightarrow> (f0, [])
         | Replace bytes \<Rightarrow> pass f0 bytes
         | Relay m \<Rightarrow>
             (let (f1, e1) = flush f0;
                  e2 = (if f_out f1 = [] then [] else [Out (f_out f1)])
              in (f1\<lparr>f_out := []\<rparr>, e1 @ e2 @ [Mark m])))"

definition byte_ground :: "filter \<Rightarrow> byte \<Rightarrow> filter \<times> piece list" where
  "byte_ground f b =
     (if b = ESC then (begin_seq f Escape, [])
      else if b = ENQ then (f, [])
      else pass f [b])"

definition byte_escape :: "filter \<Rightarrow> byte \<Rightarrow> filter \<times> piece list" where
  "byte_escape f b =
     (if b = 0x5b then ((push_seq f b)\<lparr>f_state := Csi\<rparr>, [])
      else if b \<in> {0x5d, 0x50, 0x5f, 0x5e, 0x58} then
        ((push_seq f b)\<lparr>f_state := Text (if b = 0x5d then Osc else if b = 0x50 then Dcs else Other_Text)\<rparr>, [])
      else if between_bytes 0x20 0x2f b then ((push_seq f b)\<lparr>f_state := Escape_Intermediate\<rparr>, [])
      else if between_bytes 0x30 0x7e b then finish (push_seq f b)
      else if b = ESC then (let (f1, e) = pass f [ESC] in (begin_seq f1 Escape, e))
      else if b = CAN \<or> b = SUB then (f\<lparr>f_state := Ground\<rparr>, [])
      else pass f [b])"

definition byte_escape_intermediate :: "filter \<Rightarrow> byte \<Rightarrow> filter \<times> piece list" where
  "byte_escape_intermediate f b =
     (if between_bytes 0x20 0x2f b then (gather f b MAX_CSI, [])
      else if between_bytes 0x30 0x7e b then finish (gather f b MAX_CSI)
      else if b = ESC then (begin_seq f Escape, [])
      else if b = CAN \<or> b = SUB then (f\<lparr>f_state := Ground\<rparr>, [])
      else pass f [b])"

definition byte_csi :: "filter \<Rightarrow> byte \<Rightarrow> filter \<times> piece list" where
  "byte_csi f b =
     (if between_bytes 0x20 0x3f b then (gather f b MAX_CSI, [])
      else if between_bytes 0x40 0x7e b then finish (gather f b MAX_CSI)
      else if b = ESC then (begin_seq f Escape, [])
      else if b = CAN \<or> b = SUB then (f\<lparr>f_state := Ground\<rparr>, [])
      else if b \<le> 0x1f then pass f [b]
      else if b = 0x7f then (f, [])
      else (f\<lparr>f_state := Ground\<rparr>, []))"

definition byte_text :: "kind \<Rightarrow> filter \<Rightarrow> byte \<Rightarrow> filter \<times> piece list" where
  "byte_text k f b =
     (if b = ESC then (f\<lparr>f_state := Text_Escape\<rparr>, [])
      else if b = BEL \<and> k = Osc then finish (gather f b MAX_STRING)
      else if b = CAN \<or> b = SUB then (f\<lparr>f_state := Ground\<rparr>, [])
      else (gather f b MAX_STRING, []))"

text \<open>
  ESC inside a control string: a backslash ends the string; any other byte ends it
  unterminated (dropped) and is the first byte after the ESC of a sequence of its own, so
  the recursive call of the source is always at the state after ESC.
\<close>

definition byte_text_escape :: "filter \<Rightarrow> byte \<Rightarrow> filter \<times> piece list" where
  "byte_text_escape f b =
     (if b = 0x5c then finish (gather (gather f ESC MAX_STRING) b MAX_STRING)
      else
        let (f1, e1) = finish (f\<lparr>f_over := True\<rparr>);
            (f2, e2) = byte_escape (begin_seq f1 Escape) b
        in (f2, e1 @ e2))"

definition byte_step :: "filter \<Rightarrow> byte \<Rightarrow> filter \<times> piece list" where
  "byte_step f b =
     (case f_state f of
        Ground \<Rightarrow> byte_ground f b
      | Escape \<Rightarrow> byte_escape f b
      | Escape_Intermediate \<Rightarrow> byte_escape_intermediate f b
      | Csi \<Rightarrow> byte_csi f b
      | Text k \<Rightarrow> byte_text k f b
      | Text_Escape \<Rightarrow> byte_text_escape f b)"

definition plain :: "byte \<Rightarrow> bool" where
  "plain b \<longleftrightarrow> b \<noteq> ESC \<and> b \<noteq> ENQ"

text \<open>The loop of \<open>feed\<close>: text up to the next sequence passes whole, else a byte at a time.\<close>

function feed_loop :: "filter \<Rightarrow> byte list \<Rightarrow> filter \<times> piece list" where
  "feed_loop f [] = (f, [])"
| "feed_loop f (b # rest) =
     (if f_state f = Ground \<and> plain b then
        (let (f1, e1) = pass f (takeWhile plain (b # rest));
             (f2, e2) = feed_loop f1 (dropWhile plain (b # rest))
         in (f2, e1 @ e2))
      else
        (let (f1, e1) = byte_step f b; (f2, e2) = feed_loop f1 rest in (f2, e1 @ e2)))"
  by pat_completeness auto
termination
  by (relation "measure (length \<circ> snd)") (auto simp: le_imp_less_Suc length_dropWhile_le)

definition feed :: "filter \<Rightarrow> byte list \<Rightarrow> filter \<times> piece list" where
  "feed f bytes =
     (let (f1, e1) = feed_loop f bytes; (f2, e2) = flush f1 in (f2, e1 @ e2))"

end
