(* ===== verification/Koh_Chunks.thy ===== *)
theory Koh_Chunks
  imports Koh_Prelude
begin

text \<open>
  Readers of a byte stream that must not depend on how the stream is cut into reads: the
  output filter and the message decoders. The contract is the locale \<open>chunk_reader\<close>: one read
  refines the byte-at-a-time run of a reference machine, up to what the reader still holds
  back. What follows from it once, for every such reader, is that any two ways of cutting
  the same bytes give the same stream.
\<close>

section \<open>Byte-at-a-time machines\<close>

fun run :: "('r \<Rightarrow> 'b \<Rightarrow> 'r \<times> 't list) \<Rightarrow> 'r \<Rightarrow> 'b list \<Rightarrow> 'r \<times> 't list" where
  "run step r [] = (r, [])"
| "run step r (b # bs) =
     (let (r1, t1) = step r b; (r2, t2) = run step r1 bs in (r2, t1 @ t2))"

lemma run_append:
  "run step r (xs @ ys) =
     (let (r1, t1) = run step r xs; (r2, t2) = run step r1 ys in (r2, t1 @ t2))"
  by (induction xs arbitrary: r) (auto simp: split_beta Let_def)

lemma run_singleton [simp]: "run step r [b] = step r b"
  by (simp add: split_beta Let_def)

section \<open>Readers fed in chunks\<close>

fun read_all :: "('s \<Rightarrow> 'b list \<Rightarrow> 's \<times> 'e list) \<Rightarrow> 's \<Rightarrow> 'b list list \<Rightarrow> 's \<times> 'e list" where
  "read_all read s [] = (s, [])"
| "read_all read s (c # cs) =
     (let (s1, e1) = read s c; (s2, e2) = read_all read s1 cs in (s2, e1 @ e2))"

locale chunk_reader =
  fixes read :: "'s \<Rightarrow> 'b list \<Rightarrow> 's \<times> 'e list"
    and step :: "'r \<Rightarrow> 'b \<Rightarrow> 'r \<times> 't list"
    and abs :: "'s \<Rightarrow> 'r"
    and held :: "'s \<Rightarrow> 't list"
    and flat :: "'e list \<Rightarrow> 't list"
    and ok :: "'s \<Rightarrow> bool"
  assumes flat_Nil: "flat [] = []"
    and flat_append: "flat (xs @ ys) = flat xs @ flat ys"
    and read_refines: "ok s \<Longrightarrow> read s bs = (s', e) \<Longrightarrow> run step (abs s) bs = (r, ts) \<Longrightarrow>
          abs s' = r \<and> flat e @ held s' = held s @ ts"
    and read_ok: "ok s \<Longrightarrow> read s bs = (s', e) \<Longrightarrow> ok s'"
begin

lemma read_all_refines:
  "ok s \<Longrightarrow> read_all read s cs = (s', e) \<Longrightarrow> run step (abs s) (concat cs) = (r, ts) \<Longrightarrow>
     ok s' \<and> abs s' = r \<and> flat e @ held s' = held s @ ts"
proof (induction cs arbitrary: s s' e r ts)
  case Nil
  then show ?case by (simp add: flat_Nil)
next
  case (Cons c cs)
  obtain s1 e1 where r1: "read s c = (s1, e1)" by fastforce
  obtain s2 e2 where r2: "read_all read s1 cs = (s2, e2)" by fastforce
  obtain q1 t1 where q1: "run step (abs s) c = (q1, t1)" by fastforce
  obtain q2 t2 where q2: "run step q1 (concat cs) = (q2, t2)" by fastforce
  have one: "abs s1 = q1 \<and> flat e1 @ held s1 = held s @ t1"
    using read_refines [OF Cons.prems(1) r1 q1] .
  have ok1: "ok s1" using read_ok [OF Cons.prems(1) r1] .
  have two: "ok s2 \<and> abs s2 = q2 \<and> flat e2 @ held s2 = held s1 @ t2"
    using Cons.IH [OF ok1 r2] one q2 by simp
  have e: "s' = s2" "e = e1 @ e2" using Cons.prems(2) r1 r2 by auto
  have t: "r = q2" "ts = t1 @ t2" using Cons.prems(3) q1 q2 by (auto simp: run_append)
  show ?case using one two by (simp add: e t flat_append)
qed

text \<open>Any two ways to cut the same bytes bring the same stream and the same reader.\<close>

lemma cut_anywhere:
  assumes "ok s" and "concat cs = concat ds"
    and "read_all read s cs = (s1, e1)" and "read_all read s ds = (s2, e2)"
  shows "abs s1 = abs s2 \<and> flat e1 @ held s1 = flat e2 @ held s2"
proof -
  obtain r ts where run: "run step (abs s) (concat cs) = (r, ts)" by fastforce
  show ?thesis
    using read_all_refines [OF assms(1,3) run] read_all_refines [OF assms(1,4)] run assms(2)
    by simp
qed

lemma read_all_ok: "ok s \<Longrightarrow> read_all read s cs = (s', e) \<Longrightarrow> ok s'"
  using read_all_refines by (metis surj_pair)

end

end
