(* ===== verification/Koh_Stream_Proofs.thy ===== *)
theory Koh_Stream_Proofs
  imports Koh_Stream Koh_Chunks
begin

text \<open>
  Properties of the output filter. The reference machine \<open>rstep\<close> passes bytes on as they come,
  with no buffer and no pieces: what the filter says of a stream, apart from when it says
  it. The filter refines it (\<open>filter_reader\<close>), so its output does not depend on the reads.
\<close>

section \<open>The reference machine\<close>

datatype token = B byte | M "byte list"

record reader =
  r_state :: state
  r_seq :: "byte list"
  r_over :: bool

definition reader0 :: reader where
  "reader0 = \<lparr>r_state = Ground, r_seq = [], r_over = False\<rparr>"

definition judged_tokens :: "byte list \<Rightarrow> policy \<Rightarrow> token list" where
  "judged_tokens seq p =
     (case judge seq p of
        Pass \<Rightarrow> map B seq | Drop \<Rightarrow> [] | Replace bytes \<Rightarrow> map B bytes | Relay m \<Rightarrow> [M m])"

definition r_finish :: "policy \<Rightarrow> reader \<Rightarrow> reader \<times> token list" where
  "r_finish p r = (reader0, if r_over r then [] else judged_tokens (r_seq r) p)"

definition r_begin :: "state \<Rightarrow> reader" where
  "r_begin st = \<lparr>r_state = st, r_seq = [ESC], r_over = False\<rparr>"

definition r_push :: "reader \<Rightarrow> byte \<Rightarrow> reader" where
  "r_push r b = r\<lparr>r_seq := r_seq r @ [b]\<rparr>"

definition r_gather :: "reader \<Rightarrow> byte \<Rightarrow> nat \<Rightarrow> reader" where
  "r_gather r b limit =
     (let r1 = (if limit \<le> length (r_seq r) then r\<lparr>r_over := True, r_seq := []\<rparr> else r)
      in if r_over r1 then r1 else r_push r1 b)"

definition r_escape :: "policy \<Rightarrow> reader \<Rightarrow> byte \<Rightarrow> reader \<times> token list" where
  "r_escape p r b =
     (if b = 0x5b then ((r_push r b)\<lparr>r_state := Csi\<rparr>, [])
      else if b \<in> {0x5d, 0x50, 0x5f, 0x5e, 0x58} then
        ((r_push r b)\<lparr>r_state := Text (if b = 0x5d then Osc else if b = 0x50 then Dcs else Other_Text)\<rparr>, [])
      else if between_bytes 0x20 0x2f b then ((r_push r b)\<lparr>r_state := Escape_Intermediate\<rparr>, [])
      else if between_bytes 0x30 0x7e b then r_finish p (r_push r b)
      else if b = ESC then (r_begin Escape, [B ESC])
      else if b = CAN \<or> b = SUB then (r\<lparr>r_state := Ground\<rparr>, [])
      else (r, [B b]))"

definition rstep :: "policy \<Rightarrow> reader \<Rightarrow> byte \<Rightarrow> reader \<times> token list" where
  "rstep p r b =
     (case r_state r of
        Ground \<Rightarrow> if b = ESC then (r_begin Escape, []) else if b = ENQ then (r, []) else (r, [B b])
      | Escape \<Rightarrow> r_escape p r b
      | Escape_Intermediate \<Rightarrow>
          if between_bytes 0x20 0x2f b then (r_gather r b MAX_CSI, [])
          else if between_bytes 0x30 0x7e b then r_finish p (r_gather r b MAX_CSI)
          else if b = ESC then (r_begin Escape, [])
          else if b = CAN \<or> b = SUB then (r\<lparr>r_state := Ground\<rparr>, [])
          else (r, [B b])
      | Csi \<Rightarrow>
          if between_bytes 0x20 0x3f b then (r_gather r b MAX_CSI, [])
          else if between_bytes 0x40 0x7e b then r_finish p (r_gather r b MAX_CSI)
          else if b = ESC then (r_begin Escape, [])
          else if b = CAN \<or> b = SUB then (r\<lparr>r_state := Ground\<rparr>, [])
          else if b \<le> 0x1f then (r, [B b])
          else if b = 0x7f then (r, [])
          else (r\<lparr>r_state := Ground\<rparr>, [])
      | Text k \<Rightarrow>
          if b = ESC then (r\<lparr>r_state := Text_Escape\<rparr>, [])
          else if b = BEL \<and> k = Osc then r_finish p (r_gather r b MAX_STRING)
          else if b = CAN \<or> b = SUB then (r\<lparr>r_state := Ground\<rparr>, [])
          else (r_gather r b MAX_STRING, [])
      | Text_Escape \<Rightarrow>
          if b = 0x5c then r_finish p (r_gather (r_gather r ESC MAX_STRING) b MAX_STRING)
          else r_escape p (r_begin Escape) b)"

section \<open>The filter refines it\<close>

fun flat :: "piece list \<Rightarrow> token list" where
  "flat [] = []"
| "flat (Out bs # ps) = map B bs @ flat ps"
| "flat (Mark m # ps) = M m # flat ps"

lemma flat_append [simp]: "flat (ps @ qs) = flat ps @ flat qs"
  by (induction ps rule: flat.induct) auto

definition reader_of :: "filter \<Rightarrow> reader" where
  "reader_of f = \<lparr>r_state = f_state f, r_seq = f_seq f, r_over = f_over f\<rparr>"

lemma reader_of_simps [simp]:
  "r_state (reader_of f) = f_state f" "r_seq (reader_of f) = f_seq f"
  "r_over (reader_of f) = f_over f"
  by (simp_all add: reader_of_def)

definition refines :: "filter \<Rightarrow> filter \<times> piece list \<Rightarrow> reader \<times> token list \<Rightarrow> bool" where
  "refines f res spec \<longleftrightarrow>
     reader_of (fst res) = fst spec \<and> f_policy (fst res) = f_policy f \<and>
     flat (snd res) @ map B (f_out (fst res)) = map B (f_out f) @ snd spec"

lemma refines_then:
  assumes "refines f (f1, e1) (r1, t1)" and "refines f1 (f2, e2) (r2, t2)"
  shows "refines f (f2, e1 @ e2) (r2, t1 @ t2)"
proof -
  have "flat e2 @ map B (f_out f2) = map B (f_out f1) @ t2"
    "flat e1 @ map B (f_out f1) = map B (f_out f) @ t1"
    using assms by (simp_all add: refines_def)
  then have "flat e1 @ flat e2 @ map B (f_out f2) = map B (f_out f) @ t1 @ t2"
    by (metis append.assoc)
  then show ?thesis using assms by (simp add: refines_def)
qed

lemma refines_quiet: "f_out f' = f_out f \<Longrightarrow> f_policy f' = f_policy f \<Longrightarrow>
    refines f (f', []) (reader_of f', [])"
  by (simp add: refines_def)

lemma flush_flat:
  "flush f = (f', e) \<Longrightarrow>
     f' = f\<lparr>f_out := f_out f'\<rparr> \<and> flat e @ map B (f_out f') = map B (f_out f)"
  by (auto simp: flush_def Let_def simp flip: map_append split: if_splits)

text \<open>Only the buffer changes: the frame of \<open>flush\<close> and \<open>pass\<close>.\<close>

definition same_but_out :: "filter \<Rightarrow> filter \<Rightarrow> bool" where
  "same_but_out f g \<longleftrightarrow> reader_of f = reader_of g \<and> f_policy f = f_policy g"

lemma same_but_out_upd [simp]:
  "same_but_out (f\<lparr>f_out := x\<rparr>) g = same_but_out f g"
  "same_but_out f (g\<lparr>f_out := x\<rparr>) = same_but_out f g"
  by (simp_all add: same_but_out_def reader_of_def)

lemma same_but_out_refl [simp]: "same_but_out f f"
  by (simp add: same_but_out_def)

lemma same_but_out_trans: "same_but_out f g \<Longrightarrow> same_but_out g h \<Longrightarrow> same_but_out f h"
  by (simp add: same_but_out_def)

lemma flush_same: "same_but_out (fst (flush f)) f"
  by (simp add: flush_def Let_def)

lemma pass_Nil [simp]: "pass f [] = (f, [])"
  by (simp add: pass.simps)

lemma pass_unfold:
  "bytes \<noteq> [] \<Longrightarrow>
     pass f bytes =
       (let n = min (MAX_OUT - length (f_out f)) (length bytes); g = pass_chunk f (take n bytes);
            h = pass (fst g) (drop n bytes)
        in (fst h, snd g @ snd h))"
  by (subst pass.simps) (simp add: Let_def split_beta)

lemma pass_chunk_spec:
  "same_but_out (fst (pass_chunk f now)) f \<and>
   flat (snd (pass_chunk f now)) @ map B (f_out (fst (pass_chunk f now))) = map B (f_out f @ now)"
proof -
  let ?f1 = "f\<lparr>f_out := f_out f @ now\<rparr>"
  have "flat (snd (flush ?f1)) @ map B (f_out (fst (flush ?f1))) = map B (f_out ?f1)"
    using flush_flat [of ?f1] by (metis prod.collapse)
  then show ?thesis
    using flush_same [of ?f1] by (simp add: pass_chunk_def Let_def)
qed

lemma pass_induct [case_names Nil chunk]:
  assumes "\<And>f. P f []"
    and "\<And>f bytes n. bytes \<noteq> [] \<Longrightarrow> n = min (MAX_OUT - length (f_out f)) (length bytes) \<Longrightarrow>
          P (fst (pass_chunk f (take n bytes))) (drop n bytes) \<Longrightarrow> P f bytes"
  shows "P f bytes"
proof (induction f bytes rule: pass.induct)
  case (1 f bytes)
  then show ?case using assms by (cases "bytes = []") (auto simp: prod_eq_iff)
qed

lemma pass_spec:
  "same_but_out (fst (pass f bytes)) f \<and>
   flat (snd (pass f bytes)) @ map B (f_out (fst (pass f bytes))) = map B (f_out f @ bytes)"
proof (induction f bytes rule: pass_induct)
  case (chunk f bytes n)
  let ?g = "pass_chunk f (take n bytes)"
  have "flat (snd ?g) @ map B (f_out (fst ?g)) = map B (f_out f @ take n bytes)"
    by (rule pass_chunk_spec [THEN conjunct2])
  moreover have "flat (snd (pass (fst ?g) (drop n bytes))) @
      map B (f_out (fst (pass (fst ?g) (drop n bytes)))) = map B (f_out (fst ?g)) @ map B (drop n bytes)"
    using chunk.IH by simp
  ultimately have "flat (snd ?g) @ flat (snd (pass (fst ?g) (drop n bytes))) @
      map B (f_out (fst (pass (fst ?g) (drop n bytes))))
        = map B (f_out f @ take n bytes) @ map B (drop n bytes)"
    by (metis append.assoc)
  moreover have "same_but_out (fst (pass (fst ?g) (drop n bytes))) f"
    using chunk.IH pass_chunk_spec [of f "take n bytes"] same_but_out_trans by blast
  ultimately show ?case
    using chunk.hyps by (simp add: pass_unfold Let_def flip: map_append)
qed simp

lemma refines_pass: "refines f (pass f bytes) (reader_of f, map B bytes)"
  using pass_spec [of f bytes] by (simp add: refines_def same_but_out_def)


lemma reader_of_upd [simp]:
  "reader_of (f\<lparr>f_state := st\<rparr>) = (reader_of f)\<lparr>r_state := st\<rparr>"
  "reader_of (f\<lparr>f_seq := q\<rparr>) = (reader_of f)\<lparr>r_seq := q\<rparr>"
  "reader_of (f\<lparr>f_over := v\<rparr>) = (reader_of f)\<lparr>r_over := v\<rparr>"
  "reader_of (f\<lparr>f_out := x\<rparr>) = reader_of f"
  by (simp_all add: reader_of_def)

lemma reader_of_begin [simp]: "reader_of (begin_seq f st) = r_begin st"
  by (simp add: begin_seq_def reader_of_def r_begin_def)

lemma reader_of_gather [simp]: "reader_of (gather f b n) = r_gather (reader_of f) b n"
  by (simp add: gather_def r_gather_def r_push_def reader_of_def Let_def)

lemma reader_of_push [simp]: "reader_of (push_seq f b) = r_push (reader_of f) b"
  by (simp add: push_seq_def r_push_def reader_of_def)

lemma buffer_frames [simp]:
  "f_out (begin_seq f st) = f_out f" "f_policy (begin_seq f st) = f_policy f"
  "f_out (gather f b n) = f_out f" "f_policy (gather f b n) = f_policy f"
  "f_out (push_seq f b) = f_out f" "f_policy (push_seq f b) = f_policy f"
  by (simp_all add: begin_seq_def gather_def push_seq_def Let_def)

lemma refines_quietI:
  "f_out f' = f_out f \<Longrightarrow> f_policy f' = f_policy f \<Longrightarrow> reader_of f' = r \<Longrightarrow> refines f (f', []) (r, [])"
  by (simp add: refines_def)

lemma refines_passI: "reader_of f = r \<Longrightarrow> map B bytes = ts \<Longrightarrow> refines f (pass f bytes) (r, ts)"
  using refines_pass [of f bytes] by simp

lemma refines_frame:
  "refines g res spec \<Longrightarrow> f_out g = f_out f \<Longrightarrow> f_policy g = f_policy f \<Longrightarrow> refines f res spec"
  by (simp add: refines_def)

lemma refines_finish: "refines f (finish f) (r_finish (f_policy f) (reader_of f))"
proof -
  let ?f0 = "f\<lparr>f_state := Ground, f_over := False, f_seq := []\<rparr>"
  have r0: "reader_of ?f0 = reader0" by (simp add: reader0_def reader_of_def)
  have pass: "refines f (pass ?f0 bytes) (reader0, map B bytes)" for bytes
    by (rule refines_frame [OF refines_passI [OF r0 refl]]) simp_all
  obtain f1 e1 where fl: "flush ?f0 = (f1, e1)" by fastforce
  have f1: "reader_of f1 = reader0 \<and> f_policy f1 = f_policy f"
    using flush_same [of ?f0] r0 by (simp add: fl same_but_out_def)
  have o1: "flat e1 @ map B (f_out f1) = map B (f_out f)"
    using flush_flat [OF fl] by simp
  show ?thesis
  proof (cases "f_over f")
    case True
    then show ?thesis using r0 by (simp add: finish_def r_finish_def refines_def del: reader_of_upd)
  next
    case False
    show ?thesis
    proof (cases "judge (f_seq f) (f_policy f)")
      case Pass
      then show ?thesis using False pass by (simp add: finish_def r_finish_def judged_tokens_def)
    next
      case Drop
      then show ?thesis using False r0 by (simp add: finish_def r_finish_def judged_tokens_def refines_def del: reader_of_upd)
    next
      case (Replace bytes)
      then show ?thesis using False pass by (simp add: finish_def r_finish_def judged_tokens_def)
    next
      case (Relay m)
      show ?thesis using False Relay f1 o1
        by (auto simp: finish_def r_finish_def judged_tokens_def refines_def fl)
    qed
  qed
qed

lemma refines_finishI:
  "f_out g = f_out f \<Longrightarrow> f_policy g = f_policy f \<Longrightarrow> reader_of g = r \<Longrightarrow>
     refines f (finish g) (r_finish (f_policy f) r)"
  using refines_frame [OF refines_finish [of g]] by metis

lemma refines_escape: "refines f (byte_escape f b) (r_escape (f_policy f) (reader_of f) b)"
proof -
  have esc: "refines f (case pass f [ESC] of (f1, e) \<Rightarrow> (begin_seq f1 Escape, e)) (r_begin Escape, [B ESC])"
    using refines_pass [of f "[ESC]"] by (simp add: refines_def split_beta)
  show ?thesis
    unfolding byte_escape_def r_escape_def
    by (auto simp: esc intro!: refines_quietI refines_finishI refines_passI)
qed

lemma refines_step: "refines f (byte_step f b) (rstep (f_policy f) (reader_of f) b)"
proof (cases "f_state f")
  case Text_Escape
  obtain f1 e1 where f1: "finish (f\<lparr>f_over := True\<rparr>) = (f1, e1)" by fastforce
  have "refines f (f1, e1) (reader0, [])"
    using refines_finishI [of "f\<lparr>f_over := True\<rparr>" f] by (simp add: f1 r_finish_def)
  moreover obtain f2 e2 where f2: "byte_escape (begin_seq f1 Escape) b = (f2, e2)" by fastforce
  have "refines f1 (f2, e2) (r_escape (f_policy f1) (r_begin Escape) b)"
    using refines_frame [OF refines_escape [of "begin_seq f1 Escape" b], of f1] by (simp add: f2)
  ultimately have "refines f (f2, e1 @ e2) (r_escape (f_policy f) (r_begin Escape) b)"
    using refines_then [of f f1 e1 reader0 "[]" f2 e2]
    by (simp add: refines_def split_pairs)
  then show ?thesis using Text_Escape
    by (auto simp: byte_step_def rstep_def byte_text_escape_def f1 f2
        intro!: refines_finishI)
qed (auto simp: byte_step_def rstep_def byte_ground_def byte_escape_intermediate_def byte_csi_def
    byte_text_def intro!: refines_escape refines_quietI refines_finishI refines_passI)


lemma refines_refl: "refines f (f, []) (reader_of f, [])"
  by (simp add: refines_def)

lemma refines_run_step:
  assumes "refines f (f1, e1) (rstep (f_policy f) (reader_of f) b)"
    and "refines f1 (f2, e2) (run (rstep (f_policy f1)) (reader_of f1) bs)"
  shows "refines f (f2, e1 @ e2) (run (rstep (f_policy f)) (reader_of f) (b # bs))"
proof -
  obtain r1 t1 where one: "rstep (f_policy f) (reader_of f) b = (r1, t1)" by fastforce
  have f1: "reader_of f1 = r1" "f_policy f1 = f_policy f"
    using assms(1) by (simp_all add: refines_def one)
  obtain r2 t2 where two: "run (rstep (f_policy f)) r1 bs = (r2, t2)" by fastforce
  show ?thesis
    using refines_then [of f f1 e1 r1 t1 f2 e2 r2 t2] assms one two f1 by simp
qed

text \<open>Text passed whole is text passed a byte at a time: a reader on the ground stays there.\<close>

lemma run_plain:
  "r_state r = Ground \<Longrightarrow> list_all plain bs \<Longrightarrow> run (rstep p) r bs = (r, map B bs)"
  by (induction bs) (auto simp: rstep_def plain_def)

lemma refines_feed_loop:
  "refines f (feed_loop f bs) (run (rstep (f_policy f)) (reader_of f) bs)"
proof (induction f bs rule: feed_loop.induct)
  case (1 f)
  show ?case by (simp add: refines_refl)
next
  case (2 f b rest)
  show ?case
  proof (cases "f_state f = Ground \<and> plain b")
    case True
    let ?text = "takeWhile plain (b # rest)" and ?more = "dropWhile plain (b # rest)"
    obtain f1 e1 where f1: "pass f ?text = (f1, e1)" by fastforce
    obtain f2 e2 where f2: "feed_loop f1 ?more = (f2, e2)" by fastforce
    have all: "list_all plain ?text"
      by (simp add: list_all_iff) (metis set_takeWhileD)
    have "run (rstep (f_policy f)) (reader_of f) ?text = (reader_of f, map B ?text)"
      by (rule run_plain) (use True all in simp_all)
    then have one: "refines f (f1, e1) (run (rstep (f_policy f)) (reader_of f) ?text)"
      using refines_pass [of f ?text] by (simp only: f1)
    obtain r1 t1 where r1: "run (rstep (f_policy f)) (reader_of f) ?text = (r1, t1)" by fastforce
    have g: "reader_of f1 = r1" "f_policy f1 = f_policy f" using one unfolding r1 refines_def by simp_all
    obtain r2 t2 where r2: "run (rstep (f_policy f)) r1 ?more = (r2, t2)" by fastforce
    have two: "refines f1 (f2, e2) (r2, t2)"
      using "2.IH"(1) [OF True f1 [symmetric] refl] by (simp only: f2 g r2)
    have joined: "?text @ ?more = b # rest" by (rule takeWhile_dropWhile_id)
    have "run (rstep (f_policy f)) (reader_of f) (?text @ ?more) = (r2, t1 @ t2)"
      by (simp only: run_append r1 r2 Let_def split)
    then have spec: "run (rstep (f_policy f)) (reader_of f) (b # rest) = (r2, t1 @ t2)"
      by (simp only: joined)
    have impl: "feed_loop f (b # rest) = (f2, e1 @ e2)"
      unfolding feed_loop.simps if_P [OF True] f1 f2 Let_def split ..
    show ?thesis unfolding spec impl by (rule refines_then [OF one [unfolded r1] two])
  next
    case False
    obtain f1 e1 where f1: "byte_step f b = (f1, e1)" by fastforce
    obtain f2 e2 where f2: "feed_loop f1 rest = (f2, e2)" by fastforce
    have "refines f1 (f2, e2) (run (rstep (f_policy f1)) (reader_of f1) rest)"
      using "2.IH"(2) [OF False f1 [symmetric] refl] by (simp add: f2)
    then have "refines f (f2, e1 @ e2) (run (rstep (f_policy f)) (reader_of f) (b # rest))"
      using refines_run_step refines_step [of f b] by (simp add: f1)
    then show ?thesis using False f1 f2 by (simp only: feed_loop.simps) simp
  qed
qed

lemma refines_feed: "refines f (feed f bs) (run (rstep (f_policy f)) (reader_of f) bs)"
proof -
  obtain f1 e1 where f1: "feed_loop f bs = (f1, e1)" by fastforce
  obtain f2 e2 where f2: "flush f1 = (f2, e2)" by fastforce
  have "refines f1 (f2, e2) (reader_of f1, [])"
    using flush_same [of f1] flush_flat [OF f2] by (simp add: refines_def same_but_out_def f2)
  then show ?thesis
    using refines_then [of f f1 e1 "fst (run (rstep (f_policy f)) (reader_of f) bs)"
        "snd (run (rstep (f_policy f)) (reader_of f) bs)" f2 e2]
      refines_feed_loop [of f bs]
    by (simp add: feed_def f1 f2 refines_def)
qed

section \<open>The filter as a chunk reader\<close>

interpretation fr: chunk_reader feed
    "\<lambda>(p, r) b. (case rstep p r b of (r', t) \<Rightarrow> ((p, r'), t))"
    "\<lambda>f. (f_policy f, reader_of f)" "\<lambda>f. map B (f_out f)" flat "\<lambda>_. True"
proof -
  let ?step = "\<lambda>(p, r) b. (case rstep p r b of (r', t) \<Rightarrow> ((p, r'), t))"
  have run: "run ?step (p, r) bs = (case run (rstep p) r bs of (r', t) \<Rightarrow> ((p, r'), t))" for p r bs
    by (induction bs arbitrary: r) (auto simp: split_beta Let_def)
  show "chunk_reader feed ?step (\<lambda>f. (f_policy f, reader_of f)) (\<lambda>f. map B (f_out f)) flat (\<lambda>_. True)"
  proof (unfold_locales, goal_cases)
    case (3 s bs s' e r ts)
    obtain r' t where r': "run (rstep (f_policy s)) (reader_of s) bs = (r', t)" by fastforce
    have "r = (f_policy s, r')" "ts = t" using 3(3) by (simp_all only: run r') simp_all
    then show ?case using refines_feed [of s bs] 3(2) r' by (simp add: refines_def)
  qed simp_all
qed

section \<open>Bounds\<close>

text \<open>What a filter holds: one sequence within its bound, and less than a piece of output.\<close>

definition filter_ok :: "filter \<Rightarrow> bool" where
  "filter_ok f \<longleftrightarrow> length (f_seq f) \<le> MAX_STRING \<and> length (f_out f) < MAX_OUT \<and>
     (f_state f = Escape \<longrightarrow> length (f_seq f) \<le> 1)"

definition piece_ok :: "piece \<Rightarrow> bool" where
  "piece_ok p \<longleftrightarrow> (case p of Out bs \<Rightarrow> bs \<noteq> [] \<and> length bs \<le> MAX_OUT | Mark _ \<Rightarrow> True)"

lemma piece_ok_simps [simp]: "piece_ok (Out bs) \<longleftrightarrow> bs \<noteq> [] \<and> length bs \<le> MAX_OUT" "piece_ok (Mark m)"
  by (simp_all add: piece_ok_def)

lemma flush_bounds:
  "length (f_out f) \<le> MAX_OUT \<Longrightarrow> flush f = (f', e) \<Longrightarrow>
     list_all piece_ok e \<and> length (f_out f') \<le> 3"
  using incomplete_utf8_le3 [of "f_out f"] by (auto simp: flush_def Let_def split: if_splits)

lemma pass_bounds:
  "length (f_out f) < MAX_OUT \<Longrightarrow>
     list_all piece_ok (snd (pass f bytes)) \<and> length (f_out (fst (pass f bytes))) < MAX_OUT"
proof (induction f bytes rule: pass_induct)
  case (chunk f bytes n)
  obtain g e where g: "pass_chunk f (take n bytes) = (g, e)" by fastforce
  have "length (f_out f @ take n bytes) \<le> MAX_OUT" using chunk by simp
  then have "list_all piece_ok e \<and> length (f_out g) < MAX_OUT"
    using g flush_bounds [of "f\<lparr>f_out := f_out f @ take n bytes\<rparr>" g e]
    by (auto simp: pass_chunk_def Let_def MAX_OUT_def split: if_splits)
  then show ?case
    using chunk.IH chunk.hyps(1) by (simp add: pass_unfold Let_def g flip: chunk.hyps(2))
qed simp


lemma gather_bound:
  "length (f_seq f) \<le> m \<Longrightarrow> n \<le> m \<Longrightarrow> 0 < n \<Longrightarrow> length (f_seq (gather f b n)) \<le> m"
  by (auto simp: gather_def Let_def)

lemma gather_state [simp]: "f_state (gather f b n) = f_state f"
  by (simp add: gather_def Let_def)

lemma filter_ok_pass:
  "filter_ok f \<Longrightarrow> filter_ok (fst (pass f bytes)) \<and> list_all piece_ok (snd (pass f bytes))"
proof -
  assume f: "filter_ok f"
  have "reader_of (fst (pass f bytes)) = reader_of f"
    using pass_spec [of f bytes] by (simp add: same_but_out_def)
  then have "f_seq (fst (pass f bytes)) = f_seq f" "f_state (fst (pass f bytes)) = f_state f"
    by (simp_all add: reader_of_def)
  then show ?thesis using f pass_bounds [of f bytes] by (simp add: filter_ok_def)
qed

lemma filter_ok_begin: "filter_ok f \<Longrightarrow> filter_ok (begin_seq f st)"
  by (simp add: filter_ok_def begin_seq_def MAX_STRING_def)

lemma filter_ok_finish:
  assumes "length (f_out f) < MAX_OUT"
  shows "filter_ok (fst (finish f)) \<and> list_all piece_ok (snd (finish f))"
proof -
  let ?f0 = "f\<lparr>f_state := Ground, f_over := False, f_seq := []\<rparr>"
  have ok0: "filter_ok ?f0" using assms by (simp add: filter_ok_def)
  obtain f1 e1 where fl: "flush ?f0 = (f1, e1)" by fastforce
  have fl': "list_all piece_ok e1 \<and> length (f_out f1) \<le> 3"
    using flush_bounds [of ?f0] fl assms by simp
  have "reader_of f1 = reader_of ?f0" using flush_same [of ?f0] by (simp only: fl same_but_out_def fst_conv)
  then have "f_seq f1 = []" "f_state f1 = Ground" by (simp_all add: reader_of_def)
  then have "filter_ok (f1\<lparr>f_out := []\<rparr>)" by (simp add: filter_ok_def MAX_OUT_def)
  then show ?thesis
    using ok0 filter_ok_pass [OF ok0] fl fl'
    by (auto simp: finish_def Let_def MAX_OUT_def split: judged.splits)
qed

lemma filter_ok_setI:
  "length (f_seq f) \<le> MAX_STRING \<Longrightarrow> length (f_out f) < MAX_OUT \<Longrightarrow> f_state f \<noteq> Escape \<Longrightarrow> filter_ok f"
  by (simp add: filter_ok_def)

lemma filter_ok_escape:
  assumes "filter_ok f" and "f_state f = Escape"
  shows "filter_ok (fst (byte_escape f b)) \<and> list_all piece_ok (snd (byte_escape f b))"
proof -
  have len: "length (f_seq (push_seq f b)) \<le> MAX_STRING" and out: "length (f_out f) < MAX_OUT"
    using assms by (auto simp: push_seq_def filter_ok_def MAX_STRING_def)
  have "length (f_seq f) \<le> MAX_STRING" using assms by (simp add: filter_ok_def)
  then show ?thesis
    using len out assms filter_ok_finish [of "push_seq f b"] filter_ok_pass [OF assms(1)]
      filter_ok_begin
    by (auto simp: byte_escape_def split_beta intro!: filter_ok_setI)
qed

lemma filter_ok_step:
  assumes "filter_ok f"
  shows "filter_ok (fst (byte_step f b)) \<and> list_all piece_ok (snd (byte_step f b))"
proof -
  have len: "length (f_seq f) \<le> MAX_STRING" and out: "length (f_out f) < MAX_OUT"
    using assms by (auto simp: filter_ok_def)
  have g: "length (f_seq (gather f c n)) \<le> MAX_STRING" if "n = MAX_CSI \<or> n = MAX_STRING" for c n
    using that len by (auto intro!: gather_bound simp: MAX_CSI_def MAX_STRING_def)
  note facts = filter_ok_pass [OF assms] filter_ok_begin [OF assms] filter_ok_finish out len g
  show ?thesis
  proof (cases "f_state f")
    case Escape
    then show ?thesis using filter_ok_escape [OF assms] by (simp add: byte_step_def)
  next
    case Text_Escape
    obtain f1 e1 where f1: "finish (f\<lparr>f_over := True\<rparr>) = (f1, e1)" by fastforce
    have "filter_ok f1 \<and> list_all piece_ok e1"
      using filter_ok_finish [of "f\<lparr>f_over := True\<rparr>"] out by (simp add: f1)
    then have "filter_ok (begin_seq f1 Escape)" "list_all piece_ok e1" by (auto intro: filter_ok_begin)
    then show ?thesis
      using filter_ok_escape [of "begin_seq f1 Escape" b] Text_Escape out
        filter_ok_finish [of "gather (gather f ESC MAX_STRING) b MAX_STRING"]
      by (auto simp: byte_step_def byte_text_escape_def f1 split_beta begin_seq_def)
  qed (use assms facts in \<open>auto simp: byte_step_def byte_ground_def byte_escape_intermediate_def
      byte_csi_def byte_text_def intro!: filter_ok_setI\<close>)
qed

lemma filter_ok_feed_loop:
  "filter_ok f \<Longrightarrow> filter_ok (fst (feed_loop f bs)) \<and> list_all piece_ok (snd (feed_loop f bs))"
proof (induction f bs rule: feed_loop.induct)
  case (2 f b rest)
  show ?case
  proof (cases "f_state f = Ground \<and> plain b")
    case True
    obtain f1 e1 where f1: "pass f (takeWhile plain (b # rest)) = (f1, e1)" by fastforce
    have "filter_ok f1 \<and> list_all piece_ok e1"
      using filter_ok_pass [OF "2.prems", of "takeWhile plain (b # rest)"] by (simp only: f1 fst_conv snd_conv)
    then show ?thesis
      using "2.IH"(1) [OF True f1 [symmetric] refl] True f1 by (simp add: split_beta)
  next
    case False
    obtain f1 e1 where f1: "byte_step f b = (f1, e1)" by fastforce
    have "filter_ok f1 \<and> list_all piece_ok e1"
      using filter_ok_step [OF "2.prems", of b] by (simp only: f1 fst_conv snd_conv)
    then have "filter_ok (fst (feed_loop f1 rest)) \<and> list_all piece_ok (snd (feed_loop f1 rest))"
      "list_all piece_ok e1"
      using "2.IH"(2) [OF False f1 [symmetric] refl] by auto
    then show ?thesis using False f1 by (simp only: feed_loop.simps) (simp add: split_beta)
  qed
qed simp

lemma filter_ok_feed:
  assumes "filter_ok f" and "feed f bs = (f', e)"
  shows "filter_ok f' \<and> list_all piece_ok e \<and> length (f_out f') \<le> 3"
proof -
  obtain f1 e1 where f1: "feed_loop f bs = (f1, e1)" by fastforce
  obtain f2 e2 where f2: "flush f1 = (f2, e2)" by fastforce
  have one: "filter_ok f1 \<and> list_all piece_ok e1"
    using filter_ok_feed_loop [OF assms(1), of bs] by (simp add: f1)
  then have two: "list_all piece_ok e2 \<and> length (f_out f2) \<le> 3"
    using flush_bounds [OF _ f2] by (simp add: filter_ok_def)
  have "reader_of f2 = reader_of f1" using flush_same [of f1] by (simp add: f2 same_but_out_def)
  then have "f_seq f2 = f_seq f1" "f_state f2 = f_state f1" by (simp_all add: reader_of_def)
  then show ?thesis using one two assms(2)
    by (auto simp: feed_def f1 f2 filter_ok_def MAX_OUT_def)
qed

end
