(* ===== verification/Koh_Stream_Safety.thy ===== *)
theory Koh_Stream_Safety
  imports Koh_Stream_Proofs "HOL-Library.Sublist"
begin

text \<open>
  What the output filter promises the terminal and the shell's user: no reader of the
  cutting, bounded pieces, no mark without the nonce, whole characters, and an output a
  second filter finds nothing to change in. The last holds for every input but those that
  put ESC straight after ESC, or ENQ inside a sequence; \<open>question_passes\<close> shows why.
\<close>

section \<open>Cutting and bounds\<close>

definition fed :: "policy \<Rightarrow> byte list list \<Rightarrow> filter \<times> piece list" where
  "fed p chunks = read_all feed (filter_new p) chunks"

lemma filter_ok_new [koh_inv]: "filter_ok (filter_new p)"
  by (simp add: filter_ok_def filter_new_def MAX_OUT_def)

lemma read_all_bounds:
  "filter_ok f \<Longrightarrow> length (f_out f) \<le> 3 \<Longrightarrow> read_all feed f cs = (f', e) \<Longrightarrow>
     filter_ok f' \<and> list_all piece_ok e \<and> length (f_out f') \<le> 3"
proof (induction cs arbitrary: f f' e)
  case (Cons c cs)
  obtain f1 e1 where f1: "feed f c = (f1, e1)" by fastforce
  obtain f2 e2 where f2: "read_all feed f1 cs = (f2, e2)" by fastforce
  have "f' = f2" "e = e1 @ e2" using Cons.prems(3) by (auto simp: f1 f2)
  then show ?case
    using filter_ok_feed [OF Cons.prems(1) f1] Cons.IH [OF _ _ f2] by auto
qed simp





section \<open>Marks\<close>

text \<open>\<open>mark_nonce\<close> is the first field with the prefix.\<close>

lemma find_True: "List.find (\<lambda>_. True) xs = (case xs of [] \<Rightarrow> None | x # _ \<Rightarrow> Some x)"
  by (cases xs) auto

lemma mark_nonce_field:
  assumes "mark_nonce data = Some k"
  shows "nonce_prefix @ k \<in> set (split_on SEMI data)"
proof -
  obtain rest where "List.map_filter (strip_prefix nonce_prefix) (split_on SEMI data) = k # rest"
    using assms by (auto simp: mark_nonce_def find_True split: list.splits)
  then have "k \<in> set (List.map_filter (strip_prefix nonce_prefix) (split_on SEMI data))" by simp
  then show ?thesis by (auto simp: List.map_filter_def strip_prefix_Some)
qed

lemma split_on_sublist: "p \<in> set (split_on c xs) \<Longrightarrow> sublist p xs"
proof (induction xs arbitrary: p)
  case (Cons x xs)
  obtain q qs where s: "split_on c xs = q # qs" by (cases "split_on c xs") auto
  have q: "prefix q xs"
  proof -
    have "xs = join_with c (q # qs)" using join_split [of c xs] s by simp
    then show ?thesis by (cases qs) auto
  qed
  show ?case using Cons.prems Cons.IH
    by (auto simp: s sublist_Cons_right q split: if_splits)
qed simp

lemma length_join_filter:
  "length (join_with c (List.filter P ps)) \<le> length (join_with c ps)"
proof (induction ps)
  case (Cons p ps)
  have "length (join_with c (List.filter P ps)) \<le> length (join_with c ps)" by (rule Cons.IH)
  then show ?case
    by (cases "ps = []"; cases "List.filter P ps = []") (auto simp: join_with_Cons)
qed simp

text \<open>what the relayed mark looks like. A mark is relayed under \<open>Signed ours\<close> only if the first
  nonce field of its data is \<open>ours\<close>; the relayed text is printable ASCII, at most \<open>MAX_MARK\<close>
  bytes, and carries no nonce field (so the user's terminal never learns it).\<close>

theorem signed_mark:
  assumes "mark data (Signed ours) = Some m"
  shows "mark_nonce data = Some ours \<and> length m \<le> MAX_MARK \<and>
    (\<forall>b\<in>set m. 0x20 \<le> b \<and> b \<le> 0x7e) \<and>
    (m \<noteq> [] \<longrightarrow> (\<forall>field\<in>set (split_on SEMI m). \<not> starts_with nonce_prefix field))"
proof -
  let ?keep = "List.filter (\<lambda>field. \<not> starts_with nonce_prefix field) (split_on SEMI data)"
  have m: "m = join_with SEMI ?keep" and len: "length data \<le> MAX_MARK"
    and pr: "list_all (between_bytes 0x20 0x7e) data"
    and own: "mark_relayed (Signed ours) (mark_nonce data)"
    using assms by (auto simp: mark_def split: if_splits)
  have "set m \<subseteq> insert SEMI (set data)"
    using set_join_with [of SEMI ?keep] split_on_subset by (fastforce simp: m)
  moreover have "between_bytes 0x20 0x7e SEMI" by (simp add: between_bytes_def)
  ultimately have print: "\<forall>b\<in>set m. 0x20 \<le> b \<and> b \<le> 0x7e"
    using pr by (auto simp: list_all_iff between_bytes_def)
  have "length m \<le> length (join_with SEMI (split_on SEMI data))"
    unfolding m by (rule length_join_filter)
  then have "length m \<le> MAX_MARK" using len by simp
  moreover have "split_on SEMI m = ?keep" if "m \<noteq> []"
  proof -
    have "?keep \<noteq> []" using that by (auto simp: m)
    then show ?thesis unfolding m by (intro split_join) (auto dest: split_on_no_sep)
  qed
  ultimately show ?thesis using own print
    by (auto simp: mark_relayed_def split: option.splits)
qed

theorem signed_mark_witness:
  "mark_nonce (ascii ''A;nonce=k;x'') = Some (ascii ''k'')"
  using signed_mark [of "ascii ''A;nonce=k;x''" "ascii ''k''" "ascii ''A;x''"]
  by (simp add: mark_def mark_nonce_def mark_relayed_def nonce_prefix_def find_True MAX_MARK_def
      between_bytes_def List.map_filter_def strip_prefix_def starts_with_def)

section \<open>What is being gathered\<close>

text \<open>
  The invariant of the reference machine after it read \<open>input\<close>: in a sequence that is not
  over its bound, a fresh reader fed the gathered bytes comes to the same place and passes
  nothing, and a control string's bytes are what the input ended with.
\<close>

definition reparses :: "policy \<Rightarrow> byte list \<Rightarrow> reader \<Rightarrow> bool" where
  "reparses p bs r \<longleftrightarrow> run (rstep p) reader0 bs = (r, [])"

definition second :: "byte list \<Rightarrow> byte option" where
  "second bs = (case bs of _ # b # _ \<Rightarrow> Some b | _ \<Rightarrow> None)"

definition gathered :: "policy \<Rightarrow> byte list \<Rightarrow> reader \<Rightarrow> bool" where
  "gathered p input r \<longleftrightarrow>
     (case r_state r of
        Ground \<Rightarrow> True
      | Escape \<Rightarrow> r = r_begin Escape
      | Text k \<Rightarrow> r_over r \<or> reparses p (r_seq r) r \<and> 2 \<le> length (r_seq r) \<and> suffix (tl (r_seq r)) input
      | Text_Escape \<Rightarrow> r_over r \<or> reparses p (r_seq r @ [ESC]) r \<and> 2 \<le> length (r_seq r) \<and>
          suffix (tl (r_seq r) @ [ESC]) input
      | _ \<Rightarrow> r_over r \<or> reparses p (r_seq r) r \<and> 2 \<le> length (r_seq r) \<and> second (r_seq r) \<noteq> Some 0x5d)"

lemma reparses_step: "reparses p bs r \<Longrightarrow> rstep p r b = (r', []) \<Longrightarrow> reparses p (bs @ [b]) r'"
  by (simp add: reparses_def run_append)

lemma reparses_run:
  "reparses p bs r \<Longrightarrow> rstep p r b = (r', ts) \<Longrightarrow> run (rstep p) reader0 (bs @ [b]) = (r', ts)"
  by (simp add: reparses_def run_append)

lemma reparses_escape: "reparses p [ESC] (r_begin Escape)"
  by (simp add: reparses_def rstep_def reader0_def)

lemma r_gather_cases:
  obtains "r_over (r_gather r b n)" "r_state (r_gather r b n) = r_state r"
  | "\<not> r_over r" "r_gather r b n = r_push r b" "\<not> r_over (r_push r b)"
    "r_state (r_push r b) = r_state r" "r_seq (r_push r b) = r_seq r @ [b]"
  by (cases "r_over r"; cases "n \<le> length (r_seq r)")
     (simp_all add: r_gather_def r_push_def Let_def)

lemma second_append: "2 \<le> length bs \<Longrightarrow> second (bs @ cs) = second bs"
  by (auto simp: second_def neq_Nil_conv Suc_le_length_iff numeral_2_eq_2)

lemma tl_append2 [simp]: "2 \<le> length bs \<Longrightarrow> tl (bs @ cs) = tl bs @ cs"
  by (cases bs) auto

lemma suffix_snoc2: "suffix xs ys \<Longrightarrow> suffix (xs @ [b]) (ys @ [b])"
  by (simp add: suffix_def)

text \<open>Gathering one more byte in a sequence.\<close>

lemma gathered_control:
  assumes g: "gathered p input r" and st: "r_state r = Escape_Intermediate \<or> r_state r = Csi"
    and step: "rstep p r b = (r_gather r b n, [])"
  shows "gathered p input' (r_gather r b n)"
proof (cases rule: r_gather_cases [of r b n])
  case 1
  then show ?thesis using st by (auto simp: gathered_def)
next
  case 2
  then have "reparses p (r_seq r) r" "2 \<le> length (r_seq r)" "second (r_seq r) \<noteq> Some 0x5d"
    using g st by (auto simp: gathered_def)
  then have "reparses p (r_seq r @ [b]) (r_push r b)" "second (r_seq r @ [b]) \<noteq> Some 0x5d"
    using reparses_step step 2 by (auto simp: second_append)
  then show ?thesis using 2 st \<open>2 \<le> length (r_seq r)\<close> by (auto simp: gathered_def)
qed

lemma gathered_text:
  assumes g: "gathered p input r" and st: "r_state r = Text k"
    and step: "rstep p r b = (r_gather r b n, [])"
  shows "gathered p (input @ [b]) (r_gather r b n)"
proof (cases rule: r_gather_cases [of r b n])
  case 1
  then show ?thesis using st by (auto simp: gathered_def)
next
  case 2
  then have *: "reparses p (r_seq r) r" "2 \<le> length (r_seq r)" "suffix (tl (r_seq r)) input"
    using g st by (auto simp: gathered_def)
  then have "reparses p (r_seq r @ [b]) (r_push r b)"
    using reparses_step step 2 by auto
  then show ?thesis using 2 st * by (auto simp: gathered_def suffix_snoc2)
qed

lemma gathered_ground: "r_state r = Ground \<Longrightarrow> gathered p input r"
  by (simp add: gathered_def)

lemma gathered_begin: "gathered p input (r_begin Escape)"
  by (simp add: gathered_def r_begin_def)

lemma gathered_finish: "gathered p input (fst (r_finish p r))"
  by (simp add: r_finish_def gathered_ground reader0_def)

lemma gathered_escape: "gathered p (input @ [b]) (fst (r_escape p (r_begin Escape) b))"
proof -
  let ?r = "r_begin Escape"
  have enter: "reparses p [ESC, b] (fst (rstep p ?r b))" if "snd (rstep p ?r b) = []"
    using reparses_run [OF reparses_escape, of p b] that
    by (simp add: reparses_def rstep_def r_begin_def prod_eq_iff)
  have es: "rstep p ?r b = r_escape p ?r b" by (simp add: rstep_def r_begin_def)
  show ?thesis
    using enter unfolding es
    by (auto simp: r_escape_def r_push_def r_begin_def gathered_ground gathered_finish second_def
        gathered_def between_bytes_def r_finish_def reader0_def suffix_def)
qed

lemma gathered_step:
  assumes "gathered p input r"
  shows "gathered p (input @ [b]) (fst (rstep p r b))"
proof (cases "r_state r")
  case Ground
  then show ?thesis by (simp add: rstep_def gathered_begin gathered_ground)
next
  case Escape
  then have "r = r_begin Escape" using assms by (simp add: gathered_def)
  then show ?thesis using gathered_escape by (simp add: rstep_def r_begin_def)
next
  case Escape_Intermediate
  then show ?thesis using gathered_control [OF assms, of b MAX_CSI] assms
    by (auto simp: rstep_def gathered_begin gathered_ground gathered_finish) 
       (auto simp: gathered_def)
next
  case Csi
  then show ?thesis using gathered_control [OF assms, of b MAX_CSI] assms
    by (auto simp: rstep_def gathered_begin gathered_ground gathered_finish) 
       (auto simp: gathered_def)
next
  case (Text k)
  have esc: "gathered p (input @ [ESC]) (r\<lparr>r_state := Text_Escape\<rparr>)"
  proof (cases "r_over r")
    case False
    then have "reparses p (r_seq r @ [ESC]) (r\<lparr>r_state := Text_Escape\<rparr>)"
      using assms Text by (intro reparses_step) (auto simp: gathered_def rstep_def)
    then show ?thesis using assms Text False by (auto simp: gathered_def suffix_snoc2)
  qed (simp add: gathered_def)
  show ?thesis using gathered_text [OF assms Text, of b MAX_STRING] Text esc
    by (auto simp: rstep_def gathered_ground gathered_finish)
next
  case Text_Escape
  then show ?thesis by (simp add: rstep_def gathered_finish gathered_escape)
qed

lemma gathered_run: "gathered p input r \<Longrightarrow> gathered p (input @ bs) (fst (run (rstep p) r bs))"
proof (induction bs arbitrary: input r)
  case (Cons b bs)
  then show ?case
    using Cons.IH [OF gathered_step [OF Cons.prems, of b]] by (simp add: split_beta)
qed simp

section \<open>Where a mark comes from\<close>

lemma osc_body_sublist: "sublist (osc_body seq) (drop 2 seq)"
proof -
  have "drop 2 seq = b @ s \<Longrightarrow> sublist b (drop 2 seq)" for b s by simp
  then show ?thesis
    by (auto simp: osc_body_def Let_def strip_suffix_Some split: option.splits)
qed

lemma osc_split_sublist: "sublist (snd (osc_split body)) body"
  by (auto simp: osc_split_def split: option.splits)

lemma judge_Relay:
  assumes "judge seq p = Relay m"
  shows "second seq = Some 0x5d \<and>
    (\<exists>data. sublist data (tl seq) \<and> mark data (p_marks p) = Some m)"
proof -
  obtain a b rest where seq: "seq = a # b # rest" "b = 0x5d" "osc seq p = Relay m"
    using assms
    by (cases seq; cases "tl seq") (auto simp: judge_def split: if_splits)
  let ?data = "snd (osc_split (osc_body seq))"
  have "mark ?data (p_marks p) = Some m"
    using seq(3) by (auto simp: osc_def split_beta Let_def split: if_splits option.splits)
  moreover have "sublist ?data (drop 2 seq)"
    using osc_body_sublist osc_split_sublist sublist_order.order_trans by blast
  then have "sublist ?data (tl seq)"
    using seq(1) by (auto simp: sublist_Cons_right)
  ultimately show ?thesis using seq by (auto simp: second_def)
qed

definition carried :: "policy \<Rightarrow> byte list \<Rightarrow> token list \<Rightarrow> bool" where
  "carried p input ts \<longleftrightarrow>
     (\<forall>m. M m \<in> set ts \<longrightarrow> (\<exists>data. sublist data input \<and> mark data (p_marks p) = Some m))"

lemma carried_bytes [simp]: "carried p input (map B bs)" "carried p input []" "carried p input [B b]"
  by (auto simp: carried_def)

lemma carried_judged:
  assumes "second seq = Some 0x5d \<Longrightarrow> sublist (tl seq) input"
  shows "carried p input (judged_tokens seq p)"
proof (cases "judge seq p")
  case (Relay m)
  then show ?thesis
    using judge_Relay [OF Relay] assms sublist_order.order_trans
    by (fastforce simp: carried_def judged_tokens_def)
qed (auto simp: judged_tokens_def)

lemma carried_finish:
  "(\<not> r_over r \<Longrightarrow> second (r_seq r) = Some 0x5d \<Longrightarrow> sublist (tl (r_seq r)) input) \<Longrightarrow>
     carried p input (snd (r_finish p r))"
  by (auto simp: r_finish_def intro: carried_judged)

lemma carried_escape: "carried p input (snd (r_escape p (r_begin Escape) b))"
  by (auto simp: r_escape_def r_begin_def r_push_def second_def intro!: carried_finish)

lemma carried_step:
  assumes "gathered p input r"
  shows "carried p (input @ [b]) (snd (rstep p r b))"
proof (cases "r_state r")
  case Escape
  then have "r = r_begin Escape" using assms by (simp add: gathered_def)
  then show ?thesis using carried_escape by (simp add: rstep_def r_begin_def)
next
  case (Text k)
  have "carried p (input @ [BEL]) (snd (r_finish p (r_gather r BEL MAX_STRING)))"
    using assms Text
    by (cases rule: r_gather_cases [of r BEL MAX_STRING])
       (auto simp: gathered_def suffix_snoc2 intro!: carried_finish suffix_imp_sublist)
  then show ?thesis using Text by (auto simp: rstep_def)
next
  case Text_Escape
  let ?r1 = "r_gather r ESC MAX_STRING"
  have "carried p (input @ [0x5c]) (snd (r_finish p (r_gather ?r1 0x5c MAX_STRING)))"
  proof (rule carried_finish)
    assume over: "\<not> r_over (r_gather ?r1 0x5c MAX_STRING)"
    then have "r_gather ?r1 0x5c MAX_STRING = r_push ?r1 0x5c" "\<not> r_over ?r1"
      by (auto intro: r_gather_cases [of ?r1 "0x5c" MAX_STRING])
    moreover from this(2) have "?r1 = r_push r ESC" "\<not> r_over r"
      by (auto intro: r_gather_cases [of r ESC MAX_STRING])
    ultimately have "r_seq (r_gather ?r1 0x5c MAX_STRING) = r_seq r @ [ESC, 0x5c]"
      by (simp add: r_push_def)
    moreover have "2 \<le> length (r_seq r)" "suffix (tl (r_seq r) @ [ESC]) input"
      using assms Text_Escape \<open>\<not> r_over r\<close> by (auto simp: gathered_def)
    ultimately show "sublist (tl (r_seq (r_gather ?r1 0x5c MAX_STRING))) (input @ [0x5c])"
      using suffix_snoc2 [of "tl (r_seq r) @ [ESC]" input "0x5c"]
      by (auto intro!: suffix_imp_sublist)
  qed
  then show ?thesis using Text_Escape carried_escape by (auto simp: rstep_def)
next
  case Escape_Intermediate
  have "second (r_seq (r_gather r b MAX_CSI)) \<noteq> Some 0x5d \<or> r_over (r_gather r b MAX_CSI)"
    using assms Escape_Intermediate
    by (cases rule: r_gather_cases [of r b MAX_CSI]) (auto simp: gathered_def second_append)
  then show ?thesis using Escape_Intermediate by (auto simp: rstep_def intro!: carried_finish)
next
  case Csi
  have "second (r_seq (r_gather r b MAX_CSI)) \<noteq> Some 0x5d \<or> r_over (r_gather r b MAX_CSI)"
    using assms Csi
    by (cases rule: r_gather_cases [of r b MAX_CSI]) (auto simp: gathered_def second_append)
  then show ?thesis using Csi by (auto simp: rstep_def intro!: carried_finish)
qed (auto simp: rstep_def)

lemma carried_mono: "carried p xs ts \<Longrightarrow> sublist xs ys \<Longrightarrow> carried p ys ts"
  unfolding carried_def using sublist_order.order_trans by blast

lemma carried_append: "carried p xs (ts @ us) \<longleftrightarrow> carried p xs ts \<and> carried p xs us"
  by (auto simp: carried_def)

lemma carried_run:
  "gathered p input r \<Longrightarrow> carried p (input @ bs) (snd (run (rstep p) r bs))"
proof (induction bs arbitrary: input r)
  case (Cons b bs)
  have "carried p (input @ b # bs) (snd (rstep p r b))"
    by (rule carried_mono [OF carried_step [OF Cons.prems]])
       (metis append.assoc append_Cons append_Nil sublist_appendI sublist_append_leftI)
  moreover have "carried p (input @ b # bs) (snd (run (rstep p) (fst (rstep p r b)) bs))"
    using Cons.IH [OF gathered_step [OF Cons.prems, of b]] by simp
  ultimately show ?case by (simp add: split_beta carried_append)
qed simp

lemma fed_run:
  assumes "fed p cs = (f, ps)"
  shows "f_policy f = p \<and> run (rstep p) reader0 (concat cs) = (reader_of f, flat ps @ map B (f_out f))"
proof -
  let ?step = "\<lambda>(p, r) b. (case rstep p r b of (r', t) \<Rightarrow> ((p, r'), t))"
  have run: "run ?step (q, r) bs = (case run (rstep q) r bs of (r', t) \<Rightarrow> ((q, r'), t))" for q r bs
    by (induction bs arbitrary: r) (auto simp: split_beta Let_def)
  obtain r ts where r: "run (rstep p) reader0 (concat cs) = (r, ts)" by fastforce
  have new: "f_policy (filter_new p) = p" "reader_of (filter_new p) = reader0" "f_out (filter_new p) = []"
    by (simp_all add: filter_new_def reader_of_def reader0_def)
  have "run ?step (f_policy (filter_new p), reader_of (filter_new p)) (concat cs) = ((p, r), ts)"
    unfolding new run r by simp
  from fr.read_all_refines [OF TrueI assms [unfolded fed_def] this] show ?thesis
    by (simp add: r new)
qed

text \<open>C3: a mark cannot be forged. Under \<open>Signed k\<close>, however the output is cut, the filter emits
  a mark only if the bytes it was fed contain the field \<open>nonce=k\<close> in one piece: a program that
  does not know the session's nonce emits no mark.\<close>

theorem marks_need_the_nonce:
  assumes "p_marks p = Signed k" and "fed p cs = (f, ps)" and "Mark m \<in> set ps"
  shows "sublist (nonce_prefix @ k) (concat cs)"
proof -
  have "M m \<in> set (flat ps)" using assms(3) by (induction ps rule: flat.induct) auto
  then have "M m \<in> set (snd (run (rstep p) reader0 (concat cs)))"
    using fed_run [OF assms(2)] by simp
  then obtain data where data: "sublist data (concat cs)" "mark data (Signed k) = Some m"
    using carried_run [of p "[]" reader0 "concat cs"] assms(1)
    by (auto simp: carried_def gathered_ground reader0_def)
  have "mark_nonce data = Some k"
    using data(2) by (auto simp: mark_def mark_relayed_def split: if_splits option.splits)
  then have "sublist (nonce_prefix @ k) data"
    by (rule split_on_sublist [OF mark_nonce_field])
  then show ?thesis using data(1) by (rule sublist_order.order_trans)
qed

text \<open>Checks on concrete streams run the reference machine.\<close>

lemma mark_example:
  "mark (ascii ''A;nonce=k'') (Signed (ascii ''k'')) = Some (ascii ''A'')"
  by (simp add: mark_def mark_nonce_def mark_relayed_def nonce_prefix_def find_True MAX_MARK_def
      between_bytes_def List.map_filter_def strip_prefix_def starts_with_def)

theorem marks_need_the_nonce_witness:
  "\<exists>f ps. fed \<lparr>p_marks = Signed (ascii ''k''), p_clipboard = False, p_links = True\<rparr>
      [[ESC, 0x5d] @ ascii ''133;A;nonce=k'' @ [BEL]] = (f, ps) \<and> Mark (ascii ''A'') \<in> set ps \<and>
      sublist (nonce_prefix @ ascii ''k'') ([ESC, 0x5d] @ ascii ''133;A;nonce=k'' @ [BEL])"
proof -
  let ?p = "\<lparr>p_marks = Signed (ascii ''k''), p_clipboard = False, p_links = True\<rparr>"
  let ?in = "[ESC, 0x5d] @ ascii ''133;A;nonce=k'' @ [BEL]"
  obtain f ps where f: "fed ?p [?in] = (f, ps)" by fastforce
  have "run (rstep ?p) reader0 ?in = (reader0, [M (ascii ''A'')])"
    by (simp add: rstep_def r_escape_def reader0_def r_begin_def r_push_def r_gather_def
        r_finish_def judged_tokens_def judge_def osc_def osc_split_def osc_body_def strip_suffix_def
        MAX_STRING_def mark_example [simplified])
  then have "flat ps @ map B (f_out f) = [M (ascii ''A'')]" using fed_run [OF f] by simp
  then have fl: "flat ps = [M (ascii ''A'')]" by (cases "flat ps") (auto simp: Cons_eq_append_conv)
  have "Mark (ascii ''A'') \<in> set ps" using fl
    by (induction ps rule: flat.induct) (auto simp: append_eq_Cons_conv Cons_eq_append_conv)
  then have "sublist (nonce_prefix @ ascii ''k'') (concat [?in])"
    by (intro marks_need_the_nonce [OF _ f]) simp_all
  then show ?thesis using f \<open>Mark (ascii ''A'') \<in> set ps\<close> by auto
qed

section \<open>An output with nothing left to filter\<close>

text \<open>The bytes of a stream: what a second filter, downstream, reads.\<close>

fun token_bytes :: "token list \<Rightarrow> byte list" where
  "token_bytes [] = []"
| "token_bytes (B b # ts) = b # token_bytes ts"
| "token_bytes (M m # ts) = token_bytes ts"

lemma token_bytes_append [simp]: "token_bytes (ts @ us) = token_bytes ts @ token_bytes us"
  by (induction ts rule: token_bytes.induct) auto

lemma token_bytes_B [simp]: "token_bytes (map B bs) = bs"
  by (induction bs) auto

definition settled :: "policy \<Rightarrow> token list \<Rightarrow> bool" where
  "settled p ts \<longleftrightarrow>
     run (rstep p) reader0 (token_bytes ts) = (reader0, map B (token_bytes ts))"

lemma settled_append: "settled p ts \<Longrightarrow> settled p us \<Longrightarrow> settled p (ts @ us)"
  by (simp add: settled_def run_append)

lemma settled_Nil [simp]: "settled p []"
  by (simp add: settled_def)

lemma settled_byte [simp]: "b \<noteq> ESC \<Longrightarrow> b \<noteq> ENQ \<Longrightarrow> settled p [B b]"
  by (simp add: settled_def rstep_def reader0_def)

text \<open>A title the filter wrote is read back as itself.\<close>

lemma utf8_no_controls:
  assumes "list_all is_scalar cs" and "list_all (\<lambda>c. \<not> is_control c) cs" and "b \<in> set (utf8 cs)"
  shows "0x20 \<le> b"
proof -
  have "unat b \<in> set (map unat (utf8 cs))" using assms(3) by simp
  then obtain c where c: "c \<in> set cs" "unat b \<in> set (utf8_char c)"
    using unat_utf8 [OF assms(1)] by auto
  have "\<not> is_control c" using assms(2) c(1) by (auto simp: list_all_iff)
  then have "32 \<le> unat b" using c(2)
    by (auto simp: utf8_char_def is_control_def split: if_splits)
  then show ?thesis by (simp add: word_le_nat_alt)
qed

lemma length_utf8: "length (utf8 cs) \<le> 4 * length cs"
proof -
  have "length (concat (map utf8_char cs)) \<le> 4 * length cs"
    by (induction cs) (auto simp: utf8_char_def)
  then show ?thesis by (simp add: utf8_def)
qed

lemma title_text_facts:
  "list_all is_scalar (title_text d)" "list_all (\<lambda>c. \<not> is_control c) (title_text d)"
  "length (title_text d) \<le> MAX_TITLE"
  using utf8_lossy_scalars [of d]
  by (auto simp: title_text_def list_all_iff dest: in_set_takeD)

lemma title_text_again: "title_text (utf8 (title_text d)) = title_text d"
proof -
  have "utf8_lossy (utf8 (title_text d)) = title_text d"
    by (rule utf8_lossy_utf8) (rule title_text_facts)
  moreover have "List.filter (\<lambda>c. \<not> is_control c) (title_text d) = title_text d"
    using title_text_facts(2) by (simp add: list_all_iff)
  ultimately show ?thesis
    unfolding title_text_def [of "utf8 (title_text d)"] using title_text_facts(3) by simp
qed

lemma title_is_stable':
  assumes "number \<in> {ascii ''0'', ascii ''1'', ascii ''2''}"
  shows "judge (title_osc number data) p = Replace (title_osc number data)"
proof -
  let ?t = "utf8 (title_text data)"
  have seq: "drop 2 (title_osc number data) = (number @ [SEMI] @ ?t) @ [BEL]"
    "drop 1 (title_osc number data) = 0x5d # (number @ [SEMI] @ ?t) @ [BEL]"
    by (simp_all add: title_osc_def)
  have "osc_body (title_osc number data) = number @ [SEMI] @ ?t"
    unfolding osc_body_def seq(1) Let_def strip_suffix_append by simp
  moreover have "osc_split (number @ [SEMI] @ ?t) = (number, ?t)"
    using assms by (auto simp: osc_split_def)
  ultimately have "osc (title_osc number data) p = Replace (title_osc number ?t)"
    using assms by (auto simp: osc_def)
  moreover have "title_osc number ?t = title_osc number data"
    by (simp add: title_osc_def title_text_again)
  ultimately show ?thesis
    by (simp only: judge_def seq(2) list.case if_True) simp
qed

text \<open>a title is sanitised once and for all. The sequence the filter writes in place of a
  title carries no control character and at most \<open>MAX_TITLE\<close> characters, and judged again it is
  replaced by itself.\<close>

theorem title_is_stable:
  assumes "number \<in> {ascii ''0'', ascii ''1'', ascii ''2''}"
  shows "judge (title_osc number data) p = Replace (title_osc number data) \<and>
    length (title_text data) \<le> MAX_TITLE \<and> list_all (\<lambda>c. \<not> is_control c) (title_text data)"
  using title_is_stable' [OF assms] title_text_facts [of data] by simp

theorem title_is_stable_witness:
  "\<forall>p. judge (title_osc (ascii ''2'') [0x61, 0x07]) p = Replace (title_osc (ascii ''2'') [0x61, 0x07])"
  using title_is_stable [of "ascii ''2''" "[0x61, 0x07]"] by simp

lemma run_text:
  "r_state r = Text k \<Longrightarrow> \<not> r_over r \<Longrightarrow> length (r_seq r) + length bs \<le> MAX_STRING \<Longrightarrow>
     \<forall>b\<in>set bs. 0x20 \<le> b \<Longrightarrow> run (rstep p) r bs = (r\<lparr>r_seq := r_seq r @ bs\<rparr>, [])"
proof (induction bs arbitrary: r)
  case (Cons b bs)
  have "b \<noteq> ESC" "b \<noteq> BEL" "b \<noteq> CAN" "b \<noteq> SUB" using Cons.prems(4) by auto
  then have "rstep p r b = (r_push r b, [])"
    using Cons.prems by (simp add: rstep_def r_gather_def Let_def)
  moreover have "run (rstep p) (r_push r b) bs = (r\<lparr>r_seq := r_seq r @ b # bs\<rparr>, [])"
    using Cons.IH [of "r_push r b"] Cons.prems by (simp add: r_push_def)
  ultimately show ?case by simp
qed simp

lemma settled_title:
  assumes "number \<in> {ascii ''0'', ascii ''1'', ascii ''2''}"
  shows "settled p (map B (title_osc number d))"
proof -
  let ?body = "number @ [SEMI] @ utf8 (title_text d)"
  let ?r = "\<lparr>r_state = Text Osc, r_seq = [ESC, 0x5d], r_over = False\<rparr>"
  have len: "length (utf8 (title_text d)) \<le> 4 * MAX_TITLE"
    using length_utf8 [of "title_text d"] title_text_facts(3) [of d] by simp
  have small: "2 + length ?body < MAX_STRING"
    using len assms by (auto simp: MAX_TITLE_def MAX_STRING_def)
  have "\<forall>b\<in>set (utf8 (title_text d)). 0x20 \<le> b"
    using utf8_no_controls [OF title_text_facts(1,2)] by blast
  then have chars: "\<forall>b\<in>set ?body. 0x20 \<le> b" using assms by auto
  have "run (rstep p) ?r ?body = (?r\<lparr>r_seq := [ESC, 0x5d] @ ?body\<rparr>, [])"
    using run_text [of ?r Osc ?body p] small chars by simp
  moreover have "rstep p (?r\<lparr>r_seq := [ESC, 0x5d] @ ?body\<rparr>) BEL
      = (reader0, judged_tokens (title_osc number d) p)"
    using small by (simp add: rstep_def r_gather_def r_finish_def r_push_def title_osc_def)
  moreover have "run (rstep p) reader0 [ESC, 0x5d] = (?r, [])"
    by (simp add: rstep_def reader0_def r_begin_def r_escape_def r_push_def)
  ultimately have "run (rstep p) reader0 ([ESC, 0x5d] @ ?body @ [BEL])
      = (reader0, judged_tokens (title_osc number d) p)"
    by (simp only: run_append Let_def split run_singleton append_Nil)
  moreover have "judged_tokens (title_osc number d) p = map B (title_osc number d)"
    using title_is_stable' [OF assms] by (simp add: judged_tokens_def)
  moreover have "title_osc number d = [ESC, 0x5d] @ ?body @ [BEL]" by (simp add: title_osc_def)
  ultimately show ?thesis by (simp add: settled_def)
qed

lemma judge_Replace:
  assumes "judge seq p = Replace bs"
  shows "\<exists>number\<in>{ascii ''0'', ascii ''1'', ascii ''2''}. \<exists>d. bs = title_osc number d"
proof -
  have "osc seq p = Replace bs"
    using assms by (auto simp: judge_def split: list.splits if_splits)
  then show ?thesis
    by (auto simp: osc_def split_beta Let_def split: if_splits option.splits)
qed

lemma settled_judged:
  assumes "run (rstep p) reader0 seq = (reader0, judged_tokens seq p)"
  shows "settled p (judged_tokens seq p)"
proof (cases "judge seq p")
  case Pass
  then show ?thesis using assms by (simp add: judged_tokens_def settled_def)
next
  case (Replace bs)
  then show ?thesis using judge_Replace [OF Replace] settled_title
    by (auto simp: judged_tokens_def)
qed (auto simp: judged_tokens_def settled_def)

lemma settled_finish:
  assumes "reparses p (r_seq r) r \<or> r_over r" and "rstep p r b = r_finish p (r_gather r b n)"
  shows "settled p (snd (r_finish p (r_gather r b n)))"
proof (cases rule: r_gather_cases [of r b n])
  case 1
  then show ?thesis by (simp add: r_finish_def)
next
  case 2
  then have "run (rstep p) reader0 (r_seq r @ [b]) = r_finish p (r_gather r b n)"
    using assms reparses_run by (metis prod.collapse)
  then show ?thesis using 2 settled_judged by (simp add: r_finish_def)
qed

text \<open>
  The bytes that leave nothing half done: no ESC straight after an ESC (in the sequence it
  begins, or inside a string), and no ENQ inside a sequence.
\<close>

definition clean :: "reader \<Rightarrow> byte \<Rightarrow> bool" where
  "clean r b \<longleftrightarrow>
     \<not> (b = ESC \<and> (r_state r = Escape \<or> r_state r = Text_Escape)) \<and>
     \<not> (b = ENQ \<and> r_state r \<in> {Escape, Escape_Intermediate, Csi, Text_Escape})"

fun clean_run :: "policy \<Rightarrow> reader \<Rightarrow> byte list \<Rightarrow> bool" where
  "clean_run p r [] = True"
| "clean_run p r (b # bs) = (clean r b \<and> clean_run p (fst (rstep p r b)) bs)"

lemma settled_escape:
  assumes "b \<noteq> ESC" "b \<noteq> ENQ"
  shows "settled p (snd (r_escape p (r_begin Escape) b))"
proof -
  have "settled p (snd (r_finish p (r_push (r_begin Escape) b)))"
    if "r_escape p (r_begin Escape) b = r_finish p (r_push (r_begin Escape) b)"
  proof -
    have "rstep p (r_begin Escape) b = r_finish p (r_push (r_begin Escape) b)"
      using that by (simp add: rstep_def r_begin_def)
    then have "run (rstep p) reader0 ([ESC] @ [b]) = r_finish p (r_push (r_begin Escape) b)"
      using reparses_run [OF reparses_escape] by (metis prod.collapse)
    then show ?thesis using settled_judged [of p "[ESC, b]"] by (simp add: r_finish_def r_push_def r_begin_def)
  qed
  then show ?thesis using assms unfolding r_escape_def by auto
qed

lemma settled_step:
  assumes "gathered p input r" and "clean r b"
  shows "settled p (snd (rstep p r b))"
proof (cases "r_state r")
  case Escape
  then have "r = r_begin Escape" using assms by (simp add: gathered_def)
  then show ?thesis using settled_escape assms(2) Escape by (auto simp: rstep_def clean_def r_begin_def)
next
  case Escape_Intermediate
  then show ?thesis
    using settled_finish [of p r b MAX_CSI] assms by (auto simp: rstep_def gathered_def clean_def)
next
  case Csi
  then show ?thesis
    using settled_finish [of p r b MAX_CSI] assms by (auto simp: rstep_def gathered_def clean_def)
next
  case (Text k)
  then show ?thesis
    using settled_finish [of p r b MAX_STRING] assms by (auto simp: rstep_def gathered_def clean_def)
next
  case Text_Escape
  let ?g = "r_gather (r_gather r ESC MAX_STRING) 0x5c MAX_STRING"
  have "settled p (snd (r_finish p ?g))"
  proof (cases "r_over ?g")
    case False
    then have "?g = r_push (r_gather r ESC MAX_STRING) 0x5c" "\<not> r_over (r_gather r ESC MAX_STRING)"
      by (auto intro: r_gather_cases [of "r_gather r ESC MAX_STRING" "0x5c" MAX_STRING])
    moreover from this(2) have "r_gather r ESC MAX_STRING = r_push r ESC" "\<not> r_over r"
      by (auto intro: r_gather_cases [of r ESC MAX_STRING])
    ultimately have g: "r_seq ?g = (r_seq r @ [ESC]) @ [0x5c]"
      by (simp add: r_push_def)
    have "rstep p r 0x5c = r_finish p ?g" using Text_Escape by (simp add: rstep_def)
    then have "run (rstep p) reader0 (r_seq ?g) = r_finish p ?g"
      unfolding g using reparses_run [of p "r_seq r @ [ESC]" r "0x5c"] assms Text_Escape \<open>\<not> r_over r\<close>
      by (auto simp: gathered_def prod_eq_iff)
    then show ?thesis using settled_judged [of p "r_seq ?g"] False by (simp add: r_finish_def)
  qed (simp add: r_finish_def)
  then show ?thesis using Text_Escape settled_escape assms(2) by (auto simp: rstep_def clean_def)
qed (use assms(2) in \<open>auto simp: rstep_def clean_def\<close>)

lemma settled_run:
  "gathered p input r \<Longrightarrow> clean_run p r bs \<Longrightarrow> settled p (snd (run (rstep p) r bs))"
proof (induction bs arbitrary: input r)
  case (Cons b bs)
  then show ?case
    using settled_step [OF Cons.prems(1)] Cons.IH [OF gathered_step [OF Cons.prems(1), of b]]
    by (auto simp: split_beta intro!: settled_append)
qed simp

text \<open>C4: what the filter passes has nothing left to filter. For an input that is clean (no ESC
  straight after an ESC, no ENQ inside a sequence), however it is cut, a second filter under the same policy fed the
  passed bytes passes every byte of them, and ends on the ground: no question, no unsigned
  mark and no half sequence is among them.\<close>

theorem filtered_output_is_filtered:
  assumes "clean_run p reader0 (concat cs)" and "fed p cs = (f, ps)"
    and "fed p ds = (g, qs)" and "concat ds = token_bytes (flat ps) @ f_out f"
  shows "flat qs @ map B (f_out g) = map B (concat ds) \<and> filter_between g"
proof -
  have "settled p (snd (run (rstep p) reader0 (concat cs)))"
    using settled_run [of p "[]" reader0] assms(1) by (simp add: gathered_ground reader0_def)
  then have "settled p (flat ps @ map B (f_out f))" using fed_run [OF assms(2)] by simp
  then have "run (rstep p) reader0 (concat ds) = (reader0, map B (concat ds))"
    by (simp add: settled_def assms(4))
  then show ?thesis
    using fed_run [OF assms(3)] by (simp add: filter_between_def reader_of_def reader0_def)
qed

text \<open>Why the hypothesis is there: the ESC before a sequence passes alone, the sequence after it
  is a question and is dropped, and the text after that completes a question at the terminal.\<close>

definition all_marks :: policy where
  "all_marks = \<lparr>p_marks = All_Marks, p_clipboard = False, p_links = True\<rparr>"

lemma reads_question:
  "csi_asks [0x63]" "csi_asks [0x36, 0x6e]"
  by (simp_all add: csi_asks_def private_marker_def Let_def between_bytes_def)

lemma run_question:
  "run (rstep all_marks) reader0 [ESC, ESC, 0x5b, 0x63, 0x5b, 0x36, 0x6e]
     = (reader0, map B [ESC, 0x5b, 0x36, 0x6e])"
  by (simp add: rstep_def r_escape_def r_begin_def reader0_def r_push_def r_gather_def r_finish_def
      judged_tokens_def judge_def reads_question MAX_CSI_def between_bytes_def)

text \<open>the filter's output can hold a question (\<open>ESC [ 6 n\<close>, which the filter drops when it
  reads it as one sequence), so the hypothesis of \<open>filtered_output_is_filtered\<close> cannot be left out.\<close>

theorem question_passes:
  assumes "fed all_marks [[ESC, ESC, 0x5b, 0x63, 0x5b, 0x36, 0x6e]] = (f, ps)"
  shows "token_bytes (flat ps) @ f_out f = [ESC, 0x5b, 0x36, 0x6e] \<and>
    judge [ESC, 0x5b, 0x36, 0x6e] all_marks = Drop"
proof -
  have "map B [ESC, 0x5b, 0x36, 0x6e] = flat ps @ map B (f_out f)"
    using fed_run [OF assms] run_question by simp
  then have "token_bytes (flat ps @ map B (f_out f)) = [ESC, 0x5b, 0x36, 0x6e]"
    by (metis token_bytes_B)
  moreover have "judge [ESC, 0x5b, 0x36, 0x6e] all_marks = Drop"
    by (simp add: judge_def reads_question)
  ultimately show ?thesis by simp
qed

theorem question_passes_witness:
  "\<exists>f ps. fed all_marks [[ESC, ESC, 0x5b, 0x63, 0x5b, 0x36, 0x6e]] = (f, ps) \<and>
     token_bytes (flat ps) @ f_out f = [ESC, 0x5b, 0x36, 0x6e]"
proof -
  obtain f ps where f: "fed all_marks [[ESC, ESC, 0x5b, 0x63, 0x5b, 0x36, 0x6e]] = (f, ps)" by fastforce
  show ?thesis using question_passes [OF f] f by auto
qed

theorem filtered_output_is_filtered_witness:
  "\<exists>f ps. fed all_marks [ascii ''ok'' @ [ESC, 0x5b, 0x63]] = (f, ps) \<and>
     token_bytes (flat ps) @ f_out f = ascii ''ok'' \<and>
     filter_between (fst (fed all_marks [ascii ''ok'']))"
proof -
  let ?in = "[ascii ''ok'' @ [ESC, 0x5b, 0x63]]"
  obtain f ps where f: "fed all_marks ?in = (f, ps)" by fastforce
  have "run (rstep all_marks) reader0 (concat ?in) = (reader0, map B (ascii ''ok''))"
    by (simp add: rstep_def r_escape_def r_begin_def reader0_def r_push_def r_gather_def
        r_finish_def judged_tokens_def judge_def reads_question MAX_CSI_def between_bytes_def)
  then have "map B (ascii ''ok'') = flat ps @ map B (f_out f)"
    using fed_run [OF f] by simp
  then have out: "token_bytes (flat ps @ map B (f_out f)) = ascii ''ok''"
    by (metis token_bytes_B)
  have "clean_run all_marks reader0 (concat ?in)"
    by (simp add: clean_def rstep_def r_escape_def r_begin_def reader0_def r_push_def r_gather_def
        MAX_CSI_def between_bytes_def)
  then have "filter_between g" if "fed all_marks [ascii ''ok''] = (g, qs)" for g qs
    using filtered_output_is_filtered [OF _ f that] out by simp
  then have "filter_between (fst (fed all_marks [ascii ''ok'']))"
    by (metis prod.collapse)
  then show ?thesis using f out by auto
qed

section \<open>Whole characters\<close>

lemma needs_of_nat: "n < 256 \<Longrightarrow> utf8_needs (of_nat n) =
    (if 0xC2 \<le> n \<and> n \<le> 0xDF then Some 2 else if 0xE0 \<le> n \<and> n \<le> 0xEF then Some 3
     else if 0xF0 \<le> n \<and> n \<le> 0xF4 then Some 4 else None)"
  by (simp add: utf8_needs_def between_bytes_def word_le_nat_alt unat_of_nat)

lemma incomplete_loop_conts:
  "list_all cont_byte ds \<Longrightarrow> incomplete_loop (ds @ bs) k = incomplete_loop bs (k + length ds)"
  by (induction ds arbitrary: k) (auto simp: cont_byte_def)

text \<open>What the scan finds when the last byte that does not continue a character is \<open>b\<close>.\<close>

lemma incomplete_utf8_scan:
  assumes "list_all cont_byte ds" and "\<not> cont_byte b" and "length ds \<le> 3"
  shows "incomplete_utf8 (pre @ b # ds) =
    (case utf8_needs b of None \<Rightarrow> 0 | Some n \<Rightarrow> if length ds + 1 < n \<and> length ds < 3 then length ds + 1 else 0)"
proof -
  have "list_all cont_byte (rev ds)" using assms(1) by (simp add: list_all_iff)
  then have *: "incomplete_loop (rev ds @ bs) 1 = incomplete_loop bs (Suc (length ds))" for bs
    using incomplete_loop_conts [of "rev ds" bs 1] by simp
  show ?thesis
  proof (cases "length ds = 3")
    case True
    then have "take 3 (rev (pre @ b # ds)) = rev ds @ []" by simp
    then show ?thesis using True * [of "[]"] by (simp add: incomplete_utf8_def split: option.splits)
  next
    case False
    then obtain q where "take 3 (rev (pre @ b # ds)) = rev ds @ b # q"
      using assms(3) by (cases "3 - length ds") auto
    then show ?thesis using * [of "b # q"] False assms(2,3)
      by (auto simp: incomplete_utf8_def cont_byte_def split: option.splits)
  qed
qed

text \<open>A character is a first byte that says how many continue it.\<close>

lemma utf8_char_shape:
  assumes "is_scalar c"
  obtains b ds where "map of_nat (utf8_char c) = b # ds" and "list_all cont_byte ds"
    and "\<not> cont_byte b" and "length ds \<le> 3"
    and "utf8_needs b = (if ds = [] then None else Some (Suc (length ds)))"
proof -
  have c: "c < 0x110000" "c \<ge> 0x80 \<Longrightarrow> 2 \<le> c div 64" using assms by (auto simp: is_scalar_def)
  have bounds: "c div 262144 < 5" "c < 65536 \<Longrightarrow> c div 4096 < 16" "c < 2048 \<Longrightarrow> c div 64 < 32"
    "(c div 4096) mod 64 < 64" "(c div 64) mod 64 < 64" "c mod 64 < 64" using c by auto
  have k: "cont_byte (of_nat (128 + x))" if "x < 64" for x
    using that cont_byte_of_nat [of "128 + x"] by simp
  consider "c < 0x80" | "0x80 \<le> c" "c < 0x800" | "0x800 \<le> c" "c < 0x10000" | "0x10000 \<le> c"
    by linarith
  then show thesis
  proof cases
    case 1
    then show thesis
      using that [of "of_nat c" "[]"] cont_byte_of_nat [of c] needs_of_nat [of c]
      by (simp add: utf8_char_def)
  next
    case 2
    let ?b = "0xC0 + c div 64"
    have "?b < 256" "\<not> cont_byte (of_nat ?b)" "utf8_needs (of_nat ?b) = Some 2"
      using 2 c bounds cont_byte_of_nat [of ?b] needs_of_nat [of ?b] by auto
    then show thesis using 2 bounds
      by (intro that [of "of_nat ?b" "[of_nat (128 + c mod 64)]"]) (simp_all only: utf8_char_def, simp_all add: k del: of_nat_add)
  next
    case 3
    let ?b = "0xE0 + c div 4096"
    have "?b < 256" "\<not> cont_byte (of_nat ?b)" "utf8_needs (of_nat ?b) = Some 3"
      using 3 c bounds cont_byte_of_nat [of ?b] needs_of_nat [of ?b] by auto
    then show thesis using 3 bounds
      by (intro that [of "of_nat ?b" "[of_nat (128 + (c div 64) mod 64), of_nat (128 + c mod 64)]"])
        (simp_all only: utf8_char_def, simp_all add: k del: of_nat_add)
  next
    case 4
    let ?b = "0xF0 + c div 262144"
    have "?b < 256" "\<not> cont_byte (of_nat ?b)" "utf8_needs (of_nat ?b) = Some 4"
      using 4 c bounds cont_byte_of_nat [of ?b] needs_of_nat [of ?b] by auto
    then show thesis using 4 bounds
      by (intro that [of "of_nat ?b" "[of_nat (128 + (c div 4096) mod 64),
            of_nat (128 + (c div 64) mod 64), of_nat (128 + c mod 64)]"])
        (simp_all only: utf8_char_def, simp_all add: k del: of_nat_add)
  qed
qed

lemma utf8_append: "utf8 (cs @ ds) = utf8 cs @ utf8 ds"
  by (simp add: utf8_def)

lemma incomplete_whole: "list_all is_scalar cs \<Longrightarrow> incomplete_utf8 (utf8 cs) = 0"
proof (cases cs rule: rev_cases)
  case (snoc pre c)
  assume "list_all is_scalar cs"
  then have "is_scalar c" by (simp add: snoc)
  then obtain b ds where c: "map of_nat (utf8_char c) = b # ds" "list_all cont_byte ds"
    "\<not> cont_byte b" "length ds \<le> 3" "utf8_needs b = (if ds = [] then None else Some (Suc (length ds)))"
    by (rule utf8_char_shape)
  have "utf8 cs = utf8 pre @ b # ds" by (simp add: snoc utf8_def c(1))
  then show ?thesis using incomplete_utf8_scan [OF c(2-4), of "utf8 pre"] c(5) by auto
qed (simp add: utf8_def incomplete_utf8_def)

lemma incomplete_part:
  assumes "is_scalar c" and "0 < j" and "j < length (utf8_char c)"
  shows "incomplete_utf8 (pre @ take j (map of_nat (utf8_char c))) = j"
proof -
  obtain b ds where c: "map of_nat (utf8_char c) = b # ds" "list_all cont_byte ds"
    "\<not> cont_byte b" "length ds \<le> 3" "utf8_needs b = (if ds = [] then None else Some (Suc (length ds)))"
    using assms(1) by (rule utf8_char_shape)
  have len: "length (utf8_char c) = Suc (length ds)" using arg_cong [OF c(1), of length] by simp
  obtain i where i: "j = Suc i" "i < length ds" using assms len by (cases j) auto
  have "list_all cont_byte (take i ds)" using c(2) by (auto simp: list_all_iff dest: in_set_takeD)
  then have "incomplete_utf8 (pre @ b # take i ds) = j"
    using incomplete_utf8_scan [of "take i ds" b pre] c(3-5) i by auto
  then show ?thesis by (simp add: c(1) i)
qed

text \<open>the filter never cuts a character. When its buffer holds whole characters and then the
  first bytes of another, \<open>flush\<close> gives out exactly the whole ones and holds back exactly the rest.\<close>

theorem flush_whole_characters:
  assumes "list_all is_scalar cs" and "is_scalar c" and "j < length (utf8_char c)"
    and "f_out f = utf8 cs @ take j (map of_nat (utf8_char c))"
  shows "flush f = (f\<lparr>f_out := take j (map of_nat (utf8_char c))\<rparr>,
                    if cs = [] then [] else [Out (utf8 cs)])"
proof -
  let ?part = "take j (map of_nat (utf8_char c)) :: byte list"
  have "incomplete_utf8 (f_out f) = j"
  proof (cases "j = 0")
    case True
    then show ?thesis using incomplete_whole [OF assms(1)] assms(4) by simp
  next
    case False
    then show ?thesis using incomplete_part [OF assms(2) _ assms(3)] assms(4) by simp
  qed
  moreover have "length ?part = j" using assms(3) by simp
  ultimately have at: "length (f_out f) - incomplete_utf8 (f_out f) = length (utf8 cs)"
    by (simp add: assms(4))
  have "utf8 cs = [] \<longleftrightarrow> cs = []"
    by (cases cs) (auto simp: utf8_def utf8_char_def)
  then have "at = 0 \<longleftrightarrow> cs = []" if "at = length (utf8 cs)" for at using that by simp
  moreover have "drop (length (utf8 cs)) (f_out f) = ?part" "take (length (utf8 cs)) (f_out f) = utf8 cs"
    by (simp_all add: assms(4))
  moreover have "f\<lparr>f_out := ?part\<rparr> = f" if "cs = []"
  proof -
    have "f_out f = ?part" using that assms(4) by (simp add: utf8_def)
    then show ?thesis by (cases f) simp
  qed
  ultimately show ?thesis unfolding flush_def Let_def at by simp
qed

theorem flush_whole_characters_witness:
  "flush ((filter_new all_marks)\<lparr>f_out := utf8 [0x61, 0x20AC] @ [0xe2, 0x82]\<rparr>)
     = ((filter_new all_marks)\<lparr>f_out := [0xe2, 0x82]\<rparr>, [Out (utf8 [0x61, 0x20AC])])"
  using flush_whole_characters [of "[0x61, 0x20AC]" "0x20AC" 2
      "(filter_new all_marks)\<lparr>f_out := utf8 [0x61, 0x20AC] @ [0xe2, 0x82]\<rparr>"]
  by (simp add: is_scalar_def utf8_char_def)

end
