(* ===== verification/Koh_Proto.thy ===== *)
theory Koh_Proto
  imports Koh_Request Koh_Chunks Koh_Stream
begin

text \<open>
  \<open>src/src/proto.rs\<close> and the framing of \<open>src/src/request.rs\<close> (\<open>encode\<close>, \<open>body_len\<close>,
  \<open>decode_framed\<close>): messages with a 4-byte big-endian length before them, the decoder that
  splits a stream of them however its bytes arrive, close codes, marks as sent, and which
  stream a client's message goes on. postcard's encoder and decoder are parameters.

  The decoder is a \<open>chunk_reader\<close>: what it gives does not depend on the reads.
\<close>

section \<open>Frames\<close>

datatype proto_error = TooLarge nat nat | Truncated | Malformed | UnknownStream | BadInput string

definition u32_be_bytes :: "nat \<Rightarrow> byte list" where
  "u32_be_bytes n =
     [of_nat (n div 16777216), of_nat (n div 65536), of_nat (n div 256), of_nat n]"

definition u32_of_be :: "byte list \<Rightarrow> nat" where
  "u32_of_be bs = foldl (\<lambda>n b. 256 * n + unat b) 0 bs"

text \<open>\<open>encode\<close>, the message's postcard bytes given.\<close>

definition encode :: "('m \<Rightarrow> byte list) \<Rightarrow> 'm \<Rightarrow> nat \<Rightarrow> proto_error + byte list" where
  "encode postcard msg limit =
     (let body = length (postcard msg) in
      if limit < body then Inl (TooLarge body limit)
      else Inr (u32_be_bytes (min body u32_max) @ postcard msg))"

definition body_len :: "byte list \<Rightarrow> nat \<Rightarrow> proto_error + nat" where
  "body_len prefix limit =
     (let len = u32_of_be prefix in if limit < len then Inl (TooLarge len limit) else Inr len)"

definition decode_framed :: "(byte list \<Rightarrow> 'm option) \<Rightarrow> byte list \<Rightarrow> nat \<Rightarrow> proto_error + 'm" where
  "decode_framed from_bytes bytes limit =
     (if length bytes < 4 then Inl Truncated
      else bindE (body_len (take 4 bytes) limit) (\<lambda>len.
        if len \<noteq> length bytes - 4 then Inl Truncated
        else case from_bytes (drop 4 bytes) of None \<Rightarrow> Inl Malformed | Some m \<Rightarrow> Inr m))"

section \<open>The decoder\<close>

record decoder =
  d_buf :: "byte list"
  d_start :: nat

definition decoder_new :: decoder where
  "decoder_new = \<lparr>d_buf = [], d_start = 0\<rparr>"

definition decoder_push :: "decoder \<Rightarrow> byte list \<Rightarrow> decoder" where
  "decoder_push d bytes = d\<lparr>d_buf := d_buf d @ bytes\<rparr>"

definition pending :: "decoder \<Rightarrow> byte list" where
  "pending d = drop (d_start d) (d_buf d)"

definition compact :: "decoder \<Rightarrow> decoder" where
  "compact d = \<lparr>d_buf = drop (d_start d) (d_buf d), d_start = 0\<rparr>"

definition next_body :: "nat \<Rightarrow> decoder \<Rightarrow> decoder \<times> (proto_error + byte list option)" where
  "next_body limit d =
     (if length (pending d) < 4 then (compact d, Inr None)
      else
        let rest = drop 4 (pending d) in
        case body_len (take 4 (pending d)) limit of
          Inl e \<Rightarrow> (d, Inl e)
        | Inr len \<Rightarrow>
            if length rest < len then (compact d, Inr None)
            else
              let from = d_start d + 4; to = from + len in
              (d\<lparr>d_start := min to (length (d_buf d))\<rparr>, Inr (Some (take len (drop from (d_buf d))))))"

definition decoder_finish :: "decoder \<Rightarrow> proto_error + unit" where
  "decoder_finish d = (if pending d = [] then Inr () else Inl Truncated)"

text \<open>\<open>ClientDecoder::next_msg\<close> and \<open>ShownDecoder::next_msg\<close>: the body decoded, and checked.\<close>

definition next_msg ::
  "nat \<Rightarrow> (byte list \<Rightarrow> 'm option) \<Rightarrow> ('m \<Rightarrow> proto_error + unit) \<Rightarrow> decoder \<Rightarrow>
     decoder \<times> (proto_error + 'm option)" where
  "next_msg limit from_bytes check d =
     (case next_body limit d of
        (d', Inl e) \<Rightarrow> (d', Inl e)
      | (d', Inr None) \<Rightarrow> (d', Inr None)
      | (d', Inr (Some body)) \<Rightarrow>
          (d', case from_bytes body of
                 None \<Rightarrow> Inl Malformed
               | Some m \<Rightarrow> bindE (check m) (\<lambda>_. Inr (Some m))))"

text \<open>The loop every reader runs after a read: bodies until there is none, or an error.\<close>

lemma next_body_shrinks:
  "next_body limit d = (d', Inr (Some body)) \<Longrightarrow> length (pending d') < length (pending d)"
  by (auto simp: next_body_def pending_def Let_def split: if_splits sum.splits)

function drain :: "nat \<Rightarrow> decoder \<Rightarrow> decoder \<times> byte list list \<times> proto_error option" where
  "drain limit d =
     (case next_body limit d of
        (d', Inl e) \<Rightarrow> (d', [], Some e)
      | (d', Inr None) \<Rightarrow> (d', [], None)
      | (d', Inr (Some body)) \<Rightarrow>
          (let (d'', bodies, e) = drain limit d' in (d'', body # bodies, e)))"
  by pat_completeness auto

termination
  by (relation "measure (length \<circ> pending \<circ> snd)") (auto dest!: next_body_shrinks [OF sym])

declare drain.simps [simp del]

section \<open>Close codes\<close>

datatype close =
    NotAuthorized | ProtocolError | SessionEnded | AtCapacity | Could_Not_Start | No_Such_Session
  | Out_Of_Scope | Server_Busy | No_Such_Dir

definition close_code :: "close \<Rightarrow> nat" where
  "close_code c =
     (case c of
        NotAuthorized \<Rightarrow> 1 | ProtocolError \<Rightarrow> 2 | SessionEnded \<Rightarrow> 3 | AtCapacity \<Rightarrow> 4
      | Could_Not_Start \<Rightarrow> 5 | No_Such_Session \<Rightarrow> 6 | Out_Of_Scope \<Rightarrow> 7 | Server_Busy \<Rightarrow> 8
      | No_Such_Dir \<Rightarrow> 9)"

definition close_from_code :: "nat \<Rightarrow> close option" where
  "close_from_code n =
     (if n = 1 then Some NotAuthorized else if n = 2 then Some ProtocolError
      else if n = 3 then Some SessionEnded else if n = 4 then Some AtCapacity
      else if n = 5 then Some Could_Not_Start else if n = 6 then Some No_Such_Session
      else if n = 7 then Some Out_Of_Scope else if n = 8 then Some Server_Busy
      else if n = 9 then Some No_Such_Dir else None)"

section \<open>Messages\<close>

type_synonym input_seq = nat

definition input_next :: "input_seq \<Rightarrow> input_seq" where
  "input_next s = sat_add64 s 1"

text \<open>\<open>'e\<close>: an input event; \<open>'o\<close>: what the terminal said of its colours.\<close>

datatype ('e, 'o) client_msg =
    Resize nat size
  | Keys input_seq "'e list"
  | Colours 'o
  | Read nat nat
  | Redraw

datatype stream = Input_Stream | Control_Stream

definition msg_stream :: "('e, 'o) client_msg \<Rightarrow> stream" where
  "msg_stream m =
     (case m of
        Keys _ _ \<Rightarrow> Input_Stream | Colours _ \<Rightarrow> Input_Stream | Resize _ _ \<Rightarrow> Input_Stream
      | Read _ _ \<Rightarrow> Control_Stream | Redraw \<Rightarrow> Control_Stream)"

text \<open>\<open>ClientMsg::check\<close>, the events' own check given.\<close>

definition msg_check ::
  "('e list \<Rightarrow> string + unit) \<Rightarrow> ('e, 'o) client_msg \<Rightarrow> proto_error + unit" where
  "msg_check check_events m =
     (case m of
        Keys _ events \<Rightarrow> (case check_events events of Inl e \<Rightarrow> Inl (BadInput e) | Inr _ \<Rightarrow> Inr ())
      | _ \<Rightarrow> Inr ())"

datatype mark_text = MarkText (mark_bytes: "byte list")

definition mark_text_new :: "byte list \<Rightarrow> mark_text option" where
  "mark_text_new bytes =
     (if bytes \<noteq> [] \<and> length bytes \<le> MAX_MARK \<and> list_all (\<lambda>b. 0x20 \<le> b \<and> b < 0x7f) bytes \<and>
         \<not> list_ex (starts_with nonce_prefix) (split_on SEMI bytes) \<and> hd bytes \<noteq> 0x53
      then Some (MarkText bytes) else None)"

datatype shown =
    Shown_Out "byte list"
  | Shown_Mark mark_text
  | Report activity input_seq
  | Tty tty_modes
  | Echo input_seq
  | Bell nat
  | Title "nat list"
  | Exit nat "input_seq option"
  | Beat

definition MAX_SHOWN :: nat where "MAX_SHOWN = MAX_OUT + 1024"

definition encode_client ::
  "('e list \<Rightarrow> string + unit) \<Rightarrow> nat \<Rightarrow> (('e, 'o) client_msg \<Rightarrow> byte list) \<Rightarrow>
     ('e, 'o) client_msg \<Rightarrow> proto_error + byte list" where
  "encode_client check_events limit postcard m =
     bindE (msg_check check_events m) (\<lambda>_. encode postcard m limit)"

definition encode_shown :: "(shown \<Rightarrow> byte list) \<Rightarrow> shown \<Rightarrow> proto_error + byte list" where
  "encode_shown postcard m = encode postcard m MAX_SHOWN"

section \<open>Lengths\<close>

lemma length_u32_be [simp]: "length (u32_be_bytes n) = 4"
  by (simp add: u32_be_bytes_def)

lemma u32_round_trip:
  assumes "n \<le> u32_max"
  shows "u32_of_be (u32_be_bytes n) = n"
proof -
  have b: "unat (of_nat k :: byte) = k mod 256" for k
    by (simp add: unat_of_nat)
  define a b' c where "a = n div 256" and "b' = a div 256" and "c = b' div 256"
  have "n = 256 * a + n mod 256" "a = 256 * b' + a mod 256" "b' = 256 * c + b' mod 256"
    by (simp_all add: a_def b'_def c_def)
  moreover have "c < 256" using assms by (simp add: a_def b'_def c_def u32_max_def)
  moreover have "n div 65536 = b'" "n div 16777216 = c"
    using div_mult2_eq [of n 256 256] div_mult2_eq [of n 65536 256] by (simp_all add: a_def b'_def c_def)
  ultimately show ?thesis
    unfolding u32_of_be_def u32_be_bytes_def by (simp add: b a_def)
qed

lemma body_len_prefix:
  "n \<le> limit \<Longrightarrow> n \<le> u32_max \<Longrightarrow> body_len (u32_be_bytes n) limit = Inr n"
  by (simp add: body_len_def u32_round_trip)

section \<open>The decoder's reads\<close>

text \<open>
  A connection's reader: the decoder, until an error closes the connection. One read pushes
  the bytes and drains what is whole.
\<close>

type_synonym read_state = "decoder \<times> proto_error option"

datatype frame_event = Body "byte list" | Broke proto_error

definition read_chunk :: "nat \<Rightarrow> read_state \<Rightarrow> byte list \<Rightarrow> read_state \<times> frame_event list" where
  "read_chunk limit s bytes =
     (case s of
        (d, Some e) \<Rightarrow> ((d, Some e), [])
      | (d, None) \<Rightarrow>
          (case drain limit (decoder_push d bytes) of
             (d', bodies, None) \<Rightarrow> ((d', None), map Body bodies)
           | (d', bodies, Some e) \<Rightarrow> ((d', Some e), map Body bodies @ [Broke e])))"

text \<open>The reference machine, a byte at a time: what is pending, or how it broke.\<close>

datatype frame_reader = Partial "byte list" | Broken proto_error

definition frame_step :: "nat \<Rightarrow> frame_reader \<Rightarrow> byte \<Rightarrow> frame_reader \<times> frame_event list" where
  "frame_step limit r b =
     (case r of
        Broken e \<Rightarrow> (Broken e, [])
      | Partial p \<Rightarrow>
          let p = p @ [b] in
          if length p < 4 then (Partial p, [])
          else case body_len (take 4 p) limit of
            Inl e \<Rightarrow> (Broken e, [Broke e])
          | Inr len \<Rightarrow> if length p < 4 + len then (Partial p, []) else (Partial [], [Body (drop 4 p)]))"

text \<open>What a run of bytes holds: its whole frames, and what is left or how it broke.\<close>

function frames :: "nat \<Rightarrow> byte list \<Rightarrow> byte list list \<times> (byte list + proto_error)" where
  "frames limit p =
     (if length p < 4 then ([], Inl p)
      else case body_len (take 4 p) limit of
        Inl e \<Rightarrow> ([], Inr e)
      | Inr len \<Rightarrow>
          if length p < 4 + len then ([], Inl p)
          else (let (bodies, r) = frames limit (drop (4 + len) p) in (take len (drop 4 p) # bodies, r)))"
  by pat_completeness auto
termination
  by (relation "measure (length \<circ> snd)") auto

declare frames.simps [simp del]

definition partial :: "nat \<Rightarrow> byte list \<Rightarrow> bool" where
  "partial limit p \<longleftrightarrow>
     length p < 4 \<or> (\<exists>len. body_len (take 4 p) limit = Inr len \<and> length p < 4 + len)"

lemma partial_Nil [simp]: "partial limit []"
  by (simp add: partial_def)

lemma frames_partial: "partial limit p \<longleftrightarrow> frames limit p = ([], Inl p)"
  by (subst frames.simps) (auto simp: partial_def Let_def split: sum.splits prod.splits)

lemma frames_left: "frames limit p = (bodies, Inl rest) \<Longrightarrow> partial limit rest"
proof (induction limit p arbitrary: bodies rule: frames.induct)
  case (1 limit p)
  show ?case
  proof (cases "partial limit p")
    case True
    then show ?thesis using "1.prems" by (simp add: frames_partial)
  next
    case False
    then obtain len where len: "4 \<le> length p" "body_len (take 4 p) limit = Inr len" "4 + len \<le> length p"
      using "1.prems" by (subst (asm) frames.simps)
        (auto simp: partial_def split: if_splits sum.splits)
    obtain bs r where more: "frames limit (drop (4 + len) p) = (bs, r)" by fastforce
    have "frames limit p = (take len (drop 4 p) # bs, r)"
      by (subst frames.simps) (use len more in simp)
    then show ?thesis using "1.IH" [of len] len more "1.prems" by auto
  qed
qed

lemma frame_cases:
  obtains (part) "partial limit p"
  | (broken) e where "4 \<le> length p" "body_len (take 4 p) limit = Inl e"
  | (whole) len where "4 \<le> length p" "body_len (take 4 p) limit = Inr len" "4 + len \<le> length p"
proof (cases "partial limit p")
  case False
  then have four: "4 \<le> length p" by (simp add: partial_def)
  show thesis
  proof (cases "body_len (take 4 p) limit")
    case (Inl e)
    then show thesis using broken four by blast
  next
    case (Inr len)
    then have "4 + len \<le> length p" using False by (simp add: partial_def)
    then show thesis using whole four Inr by blast
  qed
qed (rule part)

lemma next_body_partial:
  "partial limit (pending d) \<Longrightarrow> next_body limit d = (\<lparr>d_buf = pending d, d_start = 0\<rparr>, Inr None)"
  by (auto simp: partial_def next_body_def compact_def pending_def Let_def)

lemma drain_frames:
  assumes "d_start d \<le> length (d_buf d)" and "frames limit (pending d) = (bodies, r)"
  shows "\<exists>d'. drain limit d = (d', bodies, case r of Inl _ \<Rightarrow> None | Inr e \<Rightarrow> Some e) \<and>
    (\<forall>rest. r = Inl rest \<longrightarrow> d' = \<lparr>d_buf = rest, d_start = 0\<rparr>)"
  using assms
proof (induction limit d arbitrary: bodies rule: drain.induct)
  case (1 limit d)
  show ?case
  proof (cases rule: frame_cases [of limit "pending d"])
    case part
    then have "bodies = []" "r = Inl (pending d)"
      using "1.prems"(2) by (simp_all add: frames_partial)
    moreover have "drain limit d = (\<lparr>d_buf = pending d, d_start = 0\<rparr>, [], None)"
      by (subst drain.simps) (simp add: next_body_partial part)
    ultimately show ?thesis by simp
  next
    case (broken e)
    then have "bodies = []" "r = Inr e" using "1.prems"(2)
      by (simp_all add: frames.simps [of limit "pending d"])
    moreover have "next_body limit d = (d, Inl e)" using broken by (simp add: next_body_def)
    then have "drain limit d = (d, [], Some e)" by (subst drain.simps) simp
    ultimately show ?thesis by simp
  next
    case (whole len)
    let ?d = "d\<lparr>d_start := d_start d + 4 + len\<rparr>" and ?body = "take len (drop 4 (pending d))"
    have fits: "d_start d + 4 + len \<le> length (d_buf d)"
      using whole(1,3) "1.prems"(1) by (simp add: pending_def)
    have body: "next_body limit d = (?d, Inr (Some ?body))"
    proof -
      have "drop (d_start d + 4) (d_buf d) = drop 4 (pending d)"
        by (simp add: pending_def add.commute)
      then show ?thesis using whole fits by (simp add: next_body_def not_less)
    qed
    have pend: "pending ?d = drop (4 + len) (pending d)"
      by (simp add: pending_def ac_simps)
    obtain bs where more: "frames limit (pending ?d) = (bs, r)" and bodies: "bodies = ?body # bs"
      using "1.prems"(2) whole by (simp add: frames.simps [of limit "pending d"] pend split: prod.splits)
    have "d_start ?d \<le> length (d_buf ?d)" using fits by simp
    from "1.IH" [OF body [symmetric] refl refl this more]
    obtain d' where d': "drain limit ?d = (d', bs, case r of Inl _ \<Rightarrow> None | Inr e \<Rightarrow> Some e)"
      "\<forall>rest. r = Inl rest \<longrightarrow> d' = \<lparr>d_buf = rest, d_start = 0\<rparr>" by auto
    then have "drain limit d = (d', bodies, case r of Inl _ \<Rightarrow> None | Inr e \<Rightarrow> Some e)"
      by (subst drain.simps) (simp add: body bodies)
    then show ?thesis using d' by blast
  qed
qed

text \<open>The machine run over more bytes comes to the frames of all of them.\<close>

definition reads_to :: "byte list list \<times> (byte list + proto_error) \<Rightarrow> frame_reader \<times> frame_event list" where
  "reads_to f =
     (case f of
        (bodies, Inl rest) \<Rightarrow> (Partial rest, map Body bodies)
      | (bodies, Inr e) \<Rightarrow> (Broken e, map Body bodies @ [Broke e]))"

lemma frame_then_rest:
  "length q = 4 + len \<Longrightarrow> drop (4 + len) (q @ bs) = bs"
  "length q = 4 + len \<Longrightarrow> take len (drop 4 (q @ bs)) = drop 4 q"
  by simp_all

lemma run_broken: "run (frame_step limit) (Broken e) bs = (Broken e, [])"
  by (induction bs) (auto simp: frame_step_def)

lemma run_frames: "partial limit p \<Longrightarrow> run (frame_step limit) (Partial p) bs = reads_to (frames limit (p @ bs))"
proof (induction bs arbitrary: p)
  case Nil
  then show ?case by (simp add: frames_partial reads_to_def)
next
  case (Cons b bs)
  let ?p = "p @ [b]"
  have assoc: "p @ b # bs = ?p @ bs" by simp
  have prefix: "take 4 (?p @ bs) = take 4 ?p" if "4 \<le> length ?p"
    using that by (simp only: take_append) simp
  show ?case
  proof (cases rule: frame_cases [of limit ?p])
    case part
    then have "frame_step limit (Partial p) b = (Partial ?p, [])"
      by (auto simp: frame_step_def partial_def Let_def split: sum.splits)
    then show ?thesis using Cons.IH [OF part] by (simp add: split_beta)
  next
    case (broken e)
    then have "frame_step limit (Partial p) b = (Broken e, [Broke e])"
      by (simp add: frame_step_def)
    moreover have "frames limit (?p @ bs) = ([], Inr e)"
      by (subst frames.simps) (use broken in \<open>simp only: prefix, simp\<close>)
    ultimately show ?thesis unfolding assoc by (simp add: run_broken reads_to_def)
  next
    case (whole len)
    have len: "length ?p = 4 + len"
    proof (cases "4 \<le> length p")
      case True
      then show ?thesis using Cons.prems whole by (auto simp: partial_def)
    qed (use whole in auto)
    have "frame_step limit (Partial p) b = (Partial [], [Body (drop 4 ?p)])"
      using whole by (simp add: frame_step_def)
    moreover obtain bodies r where more: "frames limit bs = (bodies, r)" by fastforce
    moreover have "frames limit (?p @ bs) = (drop 4 ?p # bodies, r)"
    proof -
      note frame_then_rest [OF len]
      then show ?thesis
        by (subst frames.simps) (use whole more in \<open>simp only: prefix, simp\<close>)
    qed
    ultimately show ?thesis
      unfolding assoc using Cons.IH [of "[]"] by (auto simp: reads_to_def split: sum.splits)
  qed
qed

section \<open>The decoder as a chunk reader\<close>

definition reader_at :: "read_state \<Rightarrow> frame_reader" where
  "reader_at s = (case s of (d, None) \<Rightarrow> Partial (pending d) | (d, Some e) \<Rightarrow> Broken e)"

definition read_ok :: "nat \<Rightarrow> read_state \<Rightarrow> bool" where
  "read_ok limit s \<longleftrightarrow> snd s = None \<longrightarrow> d_start (fst s) = 0 \<and> partial limit (d_buf (fst s))"

lemma read_chunk_spec:
  assumes "read_ok limit s" and "read_chunk limit s bytes = (s', e)"
  shows "run (frame_step limit) (reader_at s) bytes = (reader_at s', e) \<and> read_ok limit s'"
proof (cases s)
  case (Pair d err)
  show ?thesis
  proof (cases err)
    case (Some x)
    then show ?thesis using assms(2) by (auto simp: Pair read_chunk_def reader_at_def run_broken read_ok_def)
  next
    case None
    let ?d = "decoder_push d bytes"
    have d: "d_start d = 0" "partial limit (d_buf d)"
      using assms(1) by (simp_all add: read_ok_def Pair None)
    obtain bodies r where f: "frames limit (d_buf d @ bytes) = (bodies, r)" by fastforce
    have "pending ?d = d_buf d @ bytes" by (simp add: decoder_push_def pending_def d)
    then obtain d' where d': "drain limit ?d = (d', bodies, case r of Inl _ \<Rightarrow> None | Inr e \<Rightarrow> Some e)"
      "\<forall>rest. r = Inl rest \<longrightarrow> d' = \<lparr>d_buf = rest, d_start = 0\<rparr>"
      using drain_frames [of ?d limit bodies r] f d by (auto simp: decoder_push_def)
    have "run (frame_step limit) (reader_at s) bytes = reads_to (bodies, r)"
      using run_frames [OF d(2), of bytes] by (simp add: reader_at_def Pair None pending_def d f)
    then show ?thesis
      using assms(2) d' frames_left [of limit "d_buf d @ bytes" bodies] f
      by (cases r) (auto simp: read_chunk_def Pair None reads_to_def reader_at_def read_ok_def pending_def)
  qed
qed

interpretation dr: chunk_reader "read_chunk limit" "frame_step limit" reader_at "\<lambda>_. []" "\<lambda>es. es"
    "read_ok limit" for limit
proof (unfold_locales, goal_cases)
  case (3 s bs s' e r ts)
  then show ?case using read_chunk_spec [OF 3(1,2)] by simp
next
  case (4 s bs s' e)
  then show ?case using read_chunk_spec [OF 4] by simp
qed simp_all

lemma read_ok_new [koh_inv]: "read_ok limit (decoder_new, None)"
  by (simp add: read_ok_def decoder_new_def)

definition received :: "nat \<Rightarrow> byte list list \<Rightarrow> read_state \<times> frame_event list" where
  "received limit chunks = read_all (read_chunk limit) (decoder_new, None) chunks"

text \<open>C6: a connection's messages do not depend on how their bytes arrive: two ways to cut the same
  bytes bring the same bodies, the same error, and the same bytes still pending.\<close>

theorem messages_cut_anywhere:
  assumes "concat cs = concat ds" and "received limit cs = (s, es)" and "received limit ds = (s', es')"
  shows "es = es' \<and> reader_at s = reader_at s'"
  using dr.cut_anywhere [OF read_ok_new assms(1) assms(2,3) [unfolded received_def]] by simp

theorem messages_cut_anywhere_witness:
  "\<exists>s es s' es'. received 8 [[0, 0], [0, 1, 7]] = (s, es) \<and> received 8 [[0, 0, 0], [1], [7]] = (s', es') \<and> es = es'"
proof -
  obtain s es where s: "received 8 [[0, 0], [0, 1, 7]] = (s, es)" by fastforce
  obtain s' es' where s': "received 8 [[0, 0, 0], [1], [7]] = (s', es')" by fastforce
  show ?thesis using messages_cut_anywhere [OF _ s s'] s s' by auto
qed



lemma frames_encoded:
  assumes "\<forall>m\<in>set ms. length (postcard m) \<le> limit" and "limit \<le> u32_max"
  shows "frames limit (concat (map (\<lambda>m. u32_be_bytes (min (length (postcard m)) u32_max) @ postcard m) ms))
    = (map postcard ms, Inl [])"
  using assms(1)
proof (induction ms)
  case Nil
  then show ?case by (subst frames.simps) simp
next
  case (Cons m ms)
  let ?b = "postcard m" and ?rest = "concat (map (\<lambda>m. u32_be_bytes (min (length (postcard m)) u32_max) @ postcard m) ms)"
  have m: "min (length ?b) u32_max = length ?b" using Cons.prems assms(2) by auto
  have len: "body_len (u32_be_bytes (length ?b)) limit = Inr (length ?b)"
    using Cons.prems assms(2) by (intro body_len_prefix) auto
  have parts: "take 4 (u32_be_bytes (length ?b) @ ?b @ ?rest) = u32_be_bytes (length ?b)"
    "drop (4 + length ?b) (u32_be_bytes (length ?b) @ ?b @ ?rest) = ?rest"
    "take (length ?b) (drop 4 (u32_be_bytes (length ?b) @ ?b @ ?rest)) = ?b" by simp_all
  have "frames limit (u32_be_bytes (length ?b) @ ?b @ ?rest) = (?b # map postcard ms, Inl [])"
    by (subst frames.simps) (use Cons len in \<open>simp add: parts\<close>)
  then show ?case by (simp add: m)
qed

text \<open>C8: what one end frames, the other reads. Messages within the limit, encoded one after
  another and cut anywhere, are given back as exactly their encodings, in order; nothing is
  left, and the stream may end there. The codec is any function.\<close>

theorem encoded_messages_arrive:
  assumes "\<forall>m\<in>set ms. encode postcard m limit = Inr (frame m)" and "limit \<le> u32_max"
    and "concat cs = concat (map frame ms)" and "received limit cs = (s, es)"
  shows "es = map (Body \<circ> postcard) ms \<and> snd s = None \<and> decoder_finish (fst s) = Inr ()"
proof -
  have fits: "\<forall>m\<in>set ms. length (postcard m) \<le> limit \<and>
      frame m = u32_be_bytes (min (length (postcard m)) u32_max) @ postcard m"
    using assms(1) by (auto simp: encode_def Let_def split: if_splits)
  have map_eq: "map frame ms = map (\<lambda>m. u32_be_bytes (min (length (postcard m)) u32_max) @ postcard m) ms"
    using fits by (intro map_cong) auto
  then have bytes: "frames limit (concat cs) = (map postcard ms, Inl [])"
    unfolding assms(3) map_eq using frames_encoded [of ms postcard limit] fits assms(2) by simp
  have "run (frame_step limit) (reader_at (decoder_new, None)) (concat cs)
      = (Partial [], map Body (map postcard ms))"
    using run_frames [of limit "[]" "concat cs"] bytes
    by (simp add: reader_at_def decoder_new_def pending_def reads_to_def)
  from dr.read_all_refines [OF read_ok_new assms(4) [unfolded received_def] this]
  have "reader_at s = Partial []" "es = map Body (map postcard ms)" by auto
  then show ?thesis
    by (cases s) (auto simp: reader_at_def decoder_finish_def split: option.splits)
qed

theorem encoded_messages_arrive_witness:
  "\<exists>s es. received 8 [[0, 0, 0], [1, 7, 0, 0, 0, 0]] = (s, es) \<and> es = [Body [7], Body []] \<and> snd s = None"
proof -
  obtain s es where s: "received 8 [[0, 0, 0], [1, 7, 0, 0, 0, 0]] = (s, es)" by fastforce
  show ?thesis
    using encoded_messages_arrive [of "[[7], []]" "\<lambda>m. m" 8
        "\<lambda>m. u32_be_bytes (min (length m) u32_max) @ m" "[[0, 0, 0], [1, 7, 0, 0, 0, 0]]", OF _ _ _ s] s
    by (simp add: encode_def u32_be_bytes_def u32_max_def)
qed

text \<open>a reply carried whole is read back as it was sent, and any other framing of it is refused:
  a byte more or less is an error.\<close>

theorem framed_reply_round_trip:
  assumes "\<And>m. from_bytes (postcard m) = Some m" and "encode postcard m limit = Inr bytes"
    and "limit \<le> u32_max"
  shows "decode_framed from_bytes bytes limit = Inr m \<and>
    (\<forall>more. more \<noteq> [] \<longrightarrow> decode_framed from_bytes (bytes @ more) limit = Inl Truncated) \<and>
    (\<forall>n < length bytes. decode_framed from_bytes (take n bytes) limit = Inl Truncated)"
proof -
  have b: "bytes = u32_be_bytes (length (postcard m)) @ postcard m" and "length (postcard m) \<le> limit"
    using assms(2,3) by (auto simp: encode_def Let_def split: if_splits)
  then have len: "body_len (u32_be_bytes (length (postcard m))) limit = Inr (length (postcard m))"
    using assms(3) by (intro body_len_prefix) auto
  have "decode_framed from_bytes (take n bytes) limit = Inl Truncated" if "n < length bytes" for n
    using that len by (auto simp: decode_framed_def b)
  then show ?thesis using len by (auto simp: decode_framed_def b assms(1))
qed

theorem framed_reply_round_trip_witness:
  "decode_framed Some (u32_be_bytes 1 @ [7]) 8 = Inr [7]"
  using framed_reply_round_trip [of Some "\<lambda>m. m" "[7]" 8 "u32_be_bytes 1 @ [7]"]
  by (simp add: encode_def u32_max_def)

section \<open>Close codes and marks\<close>

text \<open>a close code says its reason and no other, and code 0 (an endpoint closing) is none.\<close>

theorem close_codes:
  "(\<forall>c. close_from_code (close_code c) = Some c) \<and>
   (\<forall>n c. close_from_code n = Some c \<longleftrightarrow> n = close_code c) \<and> close_from_code 0 = None"
proof -
  have there: "close_from_code (close_code c) = Some c" for c
    by (cases c) (simp_all add: close_code_def close_from_code_def)
  have "n = close_code c" if "close_from_code n = Some c" for n c
    using that by (auto simp: close_from_code_def close_code_def split: if_splits)
  then have "close_from_code n = Some c \<longleftrightarrow> n = close_code c" for n c using there by blast
  then show ?thesis using there by (simp add: close_from_code_def [of 0])
qed

end
