(* ===== verification/Koh_Reports.thy ===== *)
theory Koh_Reports
  imports Koh_Bounded Koh_Proto
begin

text \<open>
  The parts of a session that decide by the time, without I/O: \<open>PendingInput\<close>, \<open>EchoAck\<close> and
  \<open>Ending\<close> of \<open>src/src/server/session.rs\<close>, and \<open>Reports\<close> of
  \<open>src/src/server/session/reports.rs\<close>. What the PTY says of a write is an argument; the time is
  passed in, as the code passes it.
\<close>

section \<open>What waits to be written\<close>

text \<open>\<open>pty::WriteError\<close>, and the outcome of a write: taken, or given back with why.\<close>

datatype write_error = Full "byte list" | Closed "byte list"

record pending_input =
  pi_bytes :: "byte list"
  pi_replies :: nat
  pi_overflow :: bool
  pi_seq :: "input_seq option"

definition pending_new :: pending_input where
  "pending_new = \<lparr>pi_bytes = [], pi_replies = 0, pi_overflow = False, pi_seq = None\<rparr>"

definition pending_is_empty :: "pending_input \<Rightarrow> bool" where
  "pending_is_empty p \<longleftrightarrow> pi_bytes p = []"

definition REPLY_BUDGET :: nat where "REPLY_BUDGET = 64 * 1024"

definition reply :: "pending_input \<Rightarrow> byte list \<Rightarrow> pending_input" where
  "reply p bytes =
     (if REPLY_BUDGET < sat_add64 (pi_replies p) (length bytes) then p\<lparr>pi_overflow := True\<rparr>
      else p\<lparr>pi_bytes := pi_bytes p @ bytes, pi_replies := sat_add64 (pi_replies p) (length bytes)\<rparr>)"

definition pending_flush ::
  "(byte list \<Rightarrow> write_error + unit) \<Rightarrow> pending_input \<Rightarrow> pending_input \<times> input_seq option option" where
  "pending_flush write p =
     (if pending_is_empty p then (p, None)
      else case write (pi_bytes p) of
        Inr _ \<Rightarrow> (pending_new, Some (pi_seq p))
      | Inl (Full bytes) \<Rightarrow> (p\<lparr>pi_bytes := bytes\<rparr>, None)
      | Inl (Closed _) \<Rightarrow> (pending_new, None))"

section \<open>Which inputs had their time to show\<close>

definition ECHO_TIMEOUT :: nat where "ECHO_TIMEOUT = millis 50"
definition ECHO_PENDING :: nat where "ECHO_PENDING = 256"

type_synonym echo_ack = "(input_seq \<times> nat) bounded"

definition written :: "echo_ack \<Rightarrow> input_seq \<Rightarrow> nat \<Rightarrow> echo_ack" where
  "written q seq now =
     (case push_back ECHO_PENDING q (seq, now) of
        Inr q' \<Rightarrow> q'
      | Inl input \<Rightarrow> back_mut (\<lambda>newest. (fst input, snd newest)) q)"

text \<open>\<open>promote\<close>: the loop over the front, with the newest it promoted so far.\<close>

function promote_loop :: "nat \<Rightarrow> input_seq option \<Rightarrow> echo_ack \<Rightarrow> input_seq option \<times> echo_ack" where
  "promote_loop now promoted q =
     (case front q of
        None \<Rightarrow> (promoted, q)
      | Some (seq, at) \<Rightarrow>
          if now - at < ECHO_TIMEOUT then (promoted, q)
          else promote_loop now (Some seq) (snd (pop_front q)))"
  by pat_completeness auto

termination
  by (relation "measure (\<lambda>(_, _, q). length (items q))")
    (auto simp: front_def pop_front_def split: list.splits)

declare promote_loop.simps [simp del]

definition promote :: "nat \<Rightarrow> echo_ack \<Rightarrow> input_seq option \<times> echo_ack" where
  "promote now q = promote_loop now None q"

definition echo_next :: "echo_ack \<Rightarrow> nat option" where
  "echo_next q = (case front q of None \<Rightarrow> None | Some (_, at) \<Rightarrow> instant_add at ECHO_TIMEOUT)"

section \<open>How the program ended\<close>

definition TTY_TICK :: nat where "TTY_TICK = millis 100"
definition DRAINED :: nat where "DRAINED = TTY_TICK"
definition DRAIN_MOST :: nat where "DRAIN_MOST = millis 5000"
definition ENDING_GRACE :: nat where "ENDING_GRACE = millis 1000"

text \<open>\<open>pty::Exit\<close>.\<close>

datatype exit = Exit_Status nat | Hung_Up

definition exit_code :: "exit \<Rightarrow> nat" where
  "exit_code e = (case e of Exit_Status code \<Rightarrow> code | Hung_Up \<Rightarrow> 129)"

record ending =
  e_exit :: "(exit \<times> nat) option"
  e_output_ended :: "nat option"
  e_last_output :: "nat option"

definition ending_new :: ending where
  "ending_new = \<lparr>e_exit = None, e_output_ended = None, e_last_output = None\<rparr>"

definition deadline :: "ending \<Rightarrow> (nat \<times> exit) option" where
  "deadline e =
     (case (e_exit e, e_output_ended e) of
        (Some (exit, _), Some ended) \<Rightarrow> Some (ended, exit)
      | (Some (exit, seen), None) \<Rightarrow>
          (let quiet_from = (case e_last_output e of None \<Rightarrow> seen | Some at \<Rightarrow> max at seen) in
           case (instant_add quiet_from DRAINED, instant_add seen DRAIN_MOST) of
             (Some drained, Some most) \<Rightarrow> Some (min drained most, exit)
           | _ \<Rightarrow> None)
      | (None, Some ended) \<Rightarrow> map_option (\<lambda>at. (at, Hung_Up)) (instant_add ended ENDING_GRACE)
      | (None, None) \<Rightarrow> None)"

definition ended :: "ending \<Rightarrow> nat \<Rightarrow> exit option" where
  "ended e now =
     (case deadline e of Some (at, exit) \<Rightarrow> if at \<le> now then Some exit else None | None \<Rightarrow> None)"

section \<open>When a session reports\<close>

definition POLL :: nat where "POLL = millis 20"
definition SPACING :: nat where "SPACING = millis 10"

record reports =
  r_last :: "(activity \<times> nat) option"
  r_owed :: bool

definition reports_new :: reports where
  "reports_new = \<lparr>r_last = None, r_owed = False\<rparr>"

datatype probe = Poll | Marked

definition reports_last :: "reports \<Rightarrow> activity option" where
  "reports_last r = map_option fst (r_last r)"

definition owe :: "reports \<Rightarrow> reports" where
  "owe r = r\<lparr>r_owed := True\<rparr>"

definition due :: "reports \<Rightarrow> nat \<Rightarrow> nat option" where
  "due r now =
     (if r_owed r
      then Some (case Option.bind (r_last r) (\<lambda>(_, at). instant_add at SPACING) of
                   None \<Rightarrow> now | Some spaced \<Rightarrow> max spaced now)
      else None)"

definition probed :: "reports \<Rightarrow> nat \<Rightarrow> probe \<Rightarrow> activity \<Rightarrow> reports \<times> activity option" where
  "probed r now why activity =
     (let changed = (case r_last r of None \<Rightarrow> True | Some (was, _) \<Rightarrow> was \<noteq> activity);
          spaced = (case due r now of None \<Rightarrow> False | Some at \<Rightarrow> at \<le> now)
      in if changed \<or> spaced \<or> why = Marked
         then (\<lparr>r_last = Some (activity, now), r_owed = False\<rparr>, Some activity)
         else (r, None))"

section \<open>What waits: replies behind input, within their reserve\<close>

text \<open>What a batch of replies comes to: the whole replies that fit, in order.\<close>

fun accepted :: "nat \<Rightarrow> byte list list \<Rightarrow> byte list list" where
  "accepted used [] = []"
| "accepted used (r # rs) =
     (if used + length r \<le> REPLY_BUDGET then r # accepted (used + length r) rs else accepted used rs)"

lemma accepted_bound: "used \<le> REPLY_BUDGET \<Longrightarrow> used + length (concat (accepted used rs)) \<le> REPLY_BUDGET"
  by (induction used rs rule: accepted.induct) auto

lemma reply_fits:
  assumes "pi_replies p \<le> REPLY_BUDGET"
  shows "REPLY_BUDGET < sat_add64 (pi_replies p) n \<longleftrightarrow> REPLY_BUDGET < pi_replies p + n"
  using assms by (auto simp: sat_add_def REPLY_BUDGET_def u64_max_def)

lemma replies_spec:
  assumes "pi_replies p \<le> REPLY_BUDGET"
  shows "pi_bytes (foldl reply p rs) = pi_bytes p @ concat (accepted (pi_replies p) rs) \<and>
    pi_replies (foldl reply p rs) = pi_replies p + length (concat (accepted (pi_replies p) rs)) \<and>
    pi_seq (foldl reply p rs) = pi_seq p"
  using assms
proof (induction rs arbitrary: p)
  case (Cons r rs)
  show ?case
  proof (cases "pi_replies p + length r \<le> REPLY_BUDGET")
    case True
    then have "\<not> REPLY_BUDGET < sat_add64 (pi_replies p) (length r)"
      and "sat_add64 (pi_replies p) (length r) = pi_replies p + length r"
      using reply_fits [OF Cons.prems] by (auto simp: REPLY_BUDGET_def u64_max_def)
    then have "reply p r = p\<lparr>pi_bytes := pi_bytes p @ r, pi_replies := pi_replies p + length r\<rparr>"
      by (simp add: reply_def)
    then show ?thesis using Cons.IH [of "reply p r"] True by simp
  next
    case False
    then have "reply p r = p\<lparr>pi_overflow := True\<rparr>"
      using reply_fits [OF Cons.prems] by (simp add: reply_def)
    then show ?thesis using Cons.IH [of "reply p r"] Cons.prems False by simp
  qed
qed simp

text \<open>an input waits with the terminal's replies behind it: the replies that fit the reserve of 64
  KiB follow it whole and in the order they came, the others are dropped whole; a PTY that is
  full changes nothing, and one that takes them gets all of it at once, the input counted as
  written.\<close>

theorem replies_wait_behind_input:
  assumes "p = foldl reply (pending_new\<lparr>pi_bytes := input, pi_seq := seq\<rparr>) rs"
  shows "pi_bytes p = input @ concat (accepted 0 rs) \<and>
    length (pi_bytes p) \<le> length input + REPLY_BUDGET \<and>
    pending_flush (\<lambda>bytes. Inl (Full bytes)) p = (p, None) \<and>
    (pi_bytes p \<noteq> [] \<longrightarrow> pending_flush (\<lambda>_. Inr ()) p = (pending_new, Some seq))"
  using replies_spec [of "pending_new\<lparr>pi_bytes := input, pi_seq := seq\<rparr>" rs] accepted_bound [of 0 rs] assms
  by (simp add: pending_new_def pending_flush_def pending_is_empty_def)

theorem replies_wait_behind_input_witness:
  "pi_bytes (reply (pending_new\<lparr>pi_bytes := ascii ''a'', pi_seq := Some 4\<rparr>) (ascii ''b'')) = ascii ''ab''"
  using replies_wait_behind_input [where input = "ascii ''a''" and seq = "Some 4" and rs = "[ascii ''b'']", OF refl]
  by (simp add: REPLY_BUDGET_def)

section \<open>Every input is acknowledged, and when\<close>

definition expired :: "nat \<Rightarrow> input_seq \<times> nat \<Rightarrow> bool" where
  "expired now w \<longleftrightarrow> ECHO_TIMEOUT \<le> now - snd w"

abbreviation by_time :: "(input_seq \<times> nat) list \<Rightarrow> bool" where
  "by_time \<equiv> sorted_wrt (\<lambda>v w. snd v \<le> snd w)"

text \<open>The newest of a list, if there is one.\<close>

definition newest :: "'a option \<Rightarrow> ('a \<times> 'b) list \<Rightarrow> 'a option" where
  "newest before ws = (if ws = [] then before else Some (fst (last ws)))"

lemma promote_loop_spec:
  "promote_loop now r q = (newest r (takeWhile (expired now) (items q)),
     Bounded (dropWhile (expired now) (items q)))"
proof (induction "items q" arbitrary: q r)
  case Nil
  then show ?case by (cases q) (subst promote_loop.simps, simp add: front_def newest_def)
next
  case (Cons w ws)
  obtain seq at where w: "w = (seq, at)" by (cases w)
  have q: "q = Bounded ((seq, at) # ws)" using Cons.hyps(2) w by (cases q) simp
  show ?case
  proof (cases "expired now w")
    case False
    then show ?thesis unfolding q
      by (subst promote_loop.simps) (simp add: front_def newest_def expired_def w)
  next
    case True
    then have "promote_loop now r q = promote_loop now (Some seq) (Bounded ws)"
      unfolding q by (subst promote_loop.simps) (simp add: front_def pop_front_def expired_def w)
    then show ?thesis using Cons.hyps(1) [of "Bounded ws" "Some seq"] True
      by (auto simp: q w newest_def)
  qed
qed

lemma promote_spec:
  "promote now q = (newest None (takeWhile (expired now) (items q)),
     Bounded (dropWhile (expired now) (items q)))"
  by (simp add: promote_def promote_loop_spec)

lemma written_fits: "length (items q) < ECHO_PENDING \<Longrightarrow> items (written q seq now) = items q @ [(seq, now)]"
  by (simp add: written_def push_back_def is_full_def)

lemma written_full:
  "ECHO_PENDING \<le> length (items q) \<Longrightarrow>
     items (written q seq now) = butlast (items q) @ [(seq, snd (last (items q)))]"
  by (cases "items q")
    (auto simp: written_def push_back_def is_full_def back_mut_def ECHO_PENDING_def)

definition written_all :: "echo_ack \<Rightarrow> (input_seq \<times> nat) list \<Rightarrow> echo_ack" where
  "written_all q ws = foldl (\<lambda>q (seq, at). written q seq at) q ws"

lemma written_all_snoc: "written_all q (ws @ [w]) = written (written_all q ws) (fst w) (snd w)"
  by (simp add: written_all_def split_beta)

text \<open>After any writes: the first \<open>ECHO_PENDING\<close> times, the last of them with the newest input.\<close>

lemma written_all_items:
  assumes "ws \<noteq> []"
  shows "items (written_all bounded_new ws) \<noteq> [] \<and>
    length (items (written_all bounded_new ws)) \<le> ECHO_PENDING \<and>
    map snd (items (written_all bounded_new ws)) = map snd (take ECHO_PENDING ws) \<and>
    fst (last (items (written_all bounded_new ws))) = fst (last ws) \<and>
    (length ws \<le> ECHO_PENDING \<longrightarrow> items (written_all bounded_new ws) = ws)"
  using assms
proof (induction ws rule: rev_induct)
  case (snoc w ws)
  let ?q = "written_all bounded_new ws"
  have IH: "length (items ?q) \<le> ECHO_PENDING \<and> map snd (items ?q) = map snd (take ECHO_PENDING ws) \<and>
      (length ws \<le> ECHO_PENDING \<longrightarrow> items ?q = ws)"
    using snoc.IH by (cases "ws = []") (auto simp: written_all_def bounded_new_def)
  have len: "length (items ?q) = min (length ws) ECHO_PENDING"
    using IH by (metis length_map length_take)
  show ?case
  proof (cases "length ws < ECHO_PENDING")
    case True
    then have "items ?q = ws" "items (written_all bounded_new (ws @ [w])) = ws @ [w]"
      using IH written_fits [of ?q "fst w" "snd w"] by (auto simp: written_all_snoc)
    then show ?thesis using True by simp
  next
    case False
    then have full: "length (items ?q) = ECHO_PENDING" using len by simp
    then have ne: "items ?q \<noteq> []" by (auto simp: ECHO_PENDING_def)
    have "items (written_all bounded_new (ws @ [w])) = butlast (items ?q) @ [(fst w, snd (last (items ?q)))]"
      using written_full [of ?q "fst w" "snd w"] full by (simp add: written_all_snoc)
    moreover have "map snd (butlast (items ?q) @ [(fst w, snd (last (items ?q)))]) = map snd (items ?q)"
      using ne by (metis append_butlast_last_id last_map list.simps(8,9) map_append snd_conv)
    moreover have "Suc (ECHO_PENDING - Suc 0) = ECHO_PENDING" by (simp add: ECHO_PENDING_def)
    ultimately show ?thesis using IH full False ne by simp
  qed
qed simp

lemma expired_prefix:
  "by_time ws \<Longrightarrow> takeWhile (expired now) ws = filter (expired now) ws \<and>
     dropWhile (expired now) ws = filter (\<lambda>w. \<not> expired now w) ws"
proof (induction ws)
  case (Cons w ws)
  show ?case
  proof (cases "expired now w")
    case False
    then have "\<not> expired now v" if "v \<in> set ws" for v
      using Cons.prems that by (auto simp: expired_def)
    then have "filter (expired now) ws = []" "filter (\<lambda>v. \<not> expired now v) ws = ws"
      by (auto simp: filter_empty_conv filter_id_conv)
    then show ?thesis using False by simp
  qed (use Cons in simp)
qed simp

lemma promote_everything:
  assumes "items q \<noteq> []" and "\<And>w. w \<in> set (items q) \<Longrightarrow> snd w + ECHO_TIMEOUT \<le> now"
  shows "promote now q = (Some (fst (last (items q))), bounded_new)"
proof -
  have "\<forall>w\<in>set (items q). expired now w" using assms(2) by (fastforce simp: expired_def)
  then have "takeWhile (expired now) (items q) = items q" "dropWhile (expired now) (items q) = []"
    by (simp_all add: takeWhile_eq_all_conv dropWhile_eq_Nil_conv)
  then show ?thesis by (simp only: promote_spec) (simp add: newest_def bounded_new_def assms(1))
qed

text \<open>The times that wait are among the times written.\<close>

lemma written_all_times:
  assumes "ws \<noteq> []" and "w \<in> set (items (written_all bounded_new ws))"
  obtains i where "i < ECHO_PENDING" "i < length ws" "snd w = snd (ws ! i)"
proof -
  have "snd w \<in> set (map snd (take ECHO_PENDING ws))"
    using written_all_items [OF assms(1)] assms(2) by (metis image_eqI set_map)
  then show thesis using that by (auto simp: in_set_conv_nth)
qed

lemma by_time_nth: "by_time ws \<Longrightarrow> i \<le> j \<Longrightarrow> j < length ws \<Longrightarrow> snd (ws ! i) \<le> snd (ws ! j)"
  by (cases "i = j") (auto simp: sorted_wrt_iff_nth_less)

text \<open>C14: every input is acknowledged. Whatever was written, in the order of its times and however
  much of it, once \<open>ECHO_TIMEOUT\<close> passed since the last write one promotion gives the newest input
  and nothing waits; and of at most \<open>ECHO_PENDING\<close> inputs, a promotion gives at any time exactly
  the newest that had its time, and keeps exactly those that did not.\<close>

theorem every_input_is_acknowledged:
  assumes "by_time ws" and "ws \<noteq> []" and "q = written_all bounded_new ws"
  shows "within ECHO_PENDING q \<and>
    (snd (last ws) + ECHO_TIMEOUT \<le> now \<longrightarrow> promote now q = (Some (fst (last ws)), bounded_new)) \<and>
    (length ws \<le> ECHO_PENDING \<longrightarrow>
       promote now q = (newest None (filter (expired now) ws), Bounded (filter (\<lambda>w. \<not> expired now w) ws)))"
proof (intro conjI impI)
  note q = written_all_items [OF assms(2)]
  show "within ECHO_PENDING q" using q assms(3) by (simp add: within_def)
  show "promote now q = (newest None (filter (expired now) ws), Bounded (filter (\<lambda>w. \<not> expired now w) ws))"
    if "length ws \<le> ECHO_PENDING"
    using q that expired_prefix [OF assms(1)] assms(3) by (simp add: promote_spec)
  show "promote now q = (Some (fst (last ws)), bounded_new)" if now: "snd (last ws) + ECHO_TIMEOUT \<le> now"
  proof -
    have "snd w + ECHO_TIMEOUT \<le> now" if w: "w \<in> set (items q)" for w
    proof -
      obtain i where "i < length ws" "snd w = snd (ws ! i)"
        using written_all_times [OF assms(2)] w assms(3) by blast
      moreover have "i \<le> length ws - 1" using calculation by simp
      ultimately show ?thesis using by_time_nth [OF assms(1), of i "length ws - 1"] now assms(2)
        by (simp add: last_conv_nth)
    qed
    then show ?thesis using promote_everything [of q now] q assms(3) by simp
  qed
qed

theorem every_input_is_acknowledged_witness:
  "promote (ECHO_TIMEOUT + 2) (written (written bounded_new 1 1) 2 2) = (Some 2, bounded_new)"
  using every_input_is_acknowledged
    [where ws = "[(1, 1), (2, 2)]" and now = "ECHO_TIMEOUT + 2", OF _ _ refl]
  by (simp add: written_all_def)

text \<open>C15: past \<open>ECHO_PENDING\<close> inputs the newest takes the place, and the time, of the one before it,
  so it is acknowledged as soon as that one is, without the time to show that the timeout is
  for: whenever it was written.\<close>

theorem flood_is_acknowledged_early:
  assumes "by_time (ws @ [(seq, now)])" and "ECHO_PENDING \<le> length ws"
  shows "promote (snd (ws ! (ECHO_PENDING - 1)) + ECHO_TIMEOUT)
      (written_all bounded_new (ws @ [(seq, now)])) = (Some seq, bounded_new)"
proof -
  let ?ws = "ws @ [(seq, now)]" and ?q = "written_all bounded_new (ws @ [(seq, now)])"
  let ?t = "snd (ws ! (ECHO_PENDING - 1))"
  have q: "items ?q \<noteq> []" "fst (last (items ?q)) = seq"
    using written_all_items [of ?ws] by simp_all
  have sorted: "by_time ws" using assms(1) by (simp add: sorted_wrt_append)
  have "snd w + ECHO_TIMEOUT \<le> ?t + ECHO_TIMEOUT" if w: "w \<in> set (items ?q)" for w
  proof -
    obtain i where "i < ECHO_PENDING" "snd w = snd (?ws ! i)"
      using written_all_times [of ?ws] w by blast
    then show ?thesis using by_time_nth [OF sorted, of i "ECHO_PENDING - 1"] assms(2)
      by (simp add: nth_append)
  qed
  then show ?thesis using promote_everything [of ?q "?t + ECHO_TIMEOUT"] q by simp
qed

lemma sorted_wrt_replicate: "P x x \<Longrightarrow> sorted_wrt P (replicate n x)"
  by (induction n) auto

theorem flood_is_acknowledged_early_witness:
  "promote ECHO_TIMEOUT (written_all bounded_new (replicate 256 (1, 0) @ [(9, ECHO_TIMEOUT - 1)])) =
     (Some 9, bounded_new)"
  using flood_is_acknowledged_early [where ws = "replicate 256 (1, 0)" and seq = 9 and now = "ECHO_TIMEOUT - 1"]
  by (simp add: ECHO_PENDING_def sorted_wrt_append sorted_wrt_replicate)

section \<open>The end is told, and not before the output\<close>

text \<open>What a session learns of its program, each with when.\<close>

datatype learnt = Chunk nat | Output_Ended nat | Exit_Seen exit nat

text \<open>The assignments of \<open>Session::run\<close>: a known exit stays, output is read until it ended.\<close>

fun learn :: "ending \<Rightarrow> learnt \<Rightarrow> ending" where
  "learn e (Chunk now) = (if e_output_ended e = None then e\<lparr>e_last_output := Some now\<rparr> else e)"
| "learn e (Output_Ended now) = (if e_output_ended e = None then e\<lparr>e_output_ended := Some now\<rparr> else e)"
| "learn e (Exit_Seen exit now) =
     e\<lparr>e_exit := (case e_exit e of None \<Rightarrow> Some (exit, now) | Some x \<Rightarrow> Some x)\<rparr>"

lemma learn_keeps:
  "e_exit e = Some x \<Longrightarrow> e_exit (foldl learn e ls) = Some x"
  "e_output_ended e = Some t \<Longrightarrow> e_output_ended (foldl learn e ls) = Some t"
proof (induction ls arbitrary: e)
  case (Cons l ls)
  { case 1 then show ?case using Cons.IH(1) by (cases l) auto }
  { case 2 then show ?case using Cons.IH(2) by (cases l) auto }
qed simp_all

text \<open>The exit reported is the one seen, never a hang-up of a program whose exit was seen; before it
  is counted ended its output was quiet for \<open>DRAINED\<close>, or ended, or went on for \<open>DRAIN_MOST\<close>.\<close>

lemma ended_exit_seen:
  assumes "e_exit e = Some (exit, seen)" and "ended e now = Some x"
  shows "x = exit"
  using assms by (auto simp: ended_def deadline_def Let_def split: option.splits if_splits)

text \<open>C16: once the exit was seen, the session counts it ended by \<open>DRAIN_MOST\<close> after, whatever output or
  other news comes in the meantime, and with that exit; before \<open>DRAIN_MOST\<close> never while output came
  within the last \<open>DRAINED\<close> and the output has not ended. A program whose output ended with no
  exit seen counts as hung up after exactly \<open>ENDING_GRACE\<close>.\<close>

theorem ends_as_seen_and_in_time:
  assumes "e_exit e = Some (exit, seen)" and "e' = foldl learn e ls"
    and "seen + DRAIN_MOST < instant_end"
    and "\<And>t. e_output_ended e' = Some t \<Longrightarrow> t \<le> seen + DRAIN_MOST"
    and "\<And>t. e_last_output e' = Some t \<Longrightarrow> t + DRAINED < instant_end"
  shows "(seen + DRAIN_MOST \<le> now \<longrightarrow> ended e' now = Some exit) \<and>
    (\<forall>x. ended e' now = Some x \<longrightarrow> x = exit \<and>
       (e_output_ended e' \<noteq> None \<or> seen + DRAIN_MOST \<le> now \<or>
        (seen + DRAINED \<le> now \<and> (\<forall>t. e_last_output e' = Some t \<longrightarrow> t + DRAINED \<le> now))))"
proof -
  have e: "e_exit e' = Some (exit, seen)" using learn_keeps(1) [OF assms(1)] assms(2) by simp
  have drained: "DRAINED \<le> DRAIN_MOST" by (simp add: DRAINED_def DRAIN_MOST_def TTY_TICK_def)
  show ?thesis
  proof (cases "e_output_ended e'")
    case (Some t)
    then have "deadline e' = Some (t, exit)" using e by (simp add: deadline_def)
    then show ?thesis using assms(4) [OF Some] Some by (auto simp: ended_def)
  next
    case None
    define q where "q = (case e_last_output e' of None \<Rightarrow> seen | Some at \<Rightarrow> max at seen)"
    have "q + DRAINED < instant_end"
      using assms(3,5) drained by (auto simp: q_def max_def split: option.splits)
    then have d: "deadline e' = Some (min (q + DRAINED) (seen + DRAIN_MOST), exit)"
      using e None assms(3) by (simp add: deadline_def q_def)
    show ?thesis using None
      by (auto simp: ended_def d q_def max_def split: option.splits if_splits)
  qed
qed

theorem ends_as_seen_and_in_time_witness:
  "ended (foldl learn (ending_new\<lparr>e_exit := Some (Exit_Status 3, 0)\<rparr>) [Chunk (millis 4999)]) (millis 5000) =
     Some (Exit_Status 3)"
  using ends_as_seen_and_in_time
    [where e = "ending_new\<lparr>e_exit := Some (Exit_Status 3, 0)\<rparr>" and ls = "[Chunk (millis 4999)]"
      and now = "millis 5000", OF _ refl]
  by (simp add: ending_new_def DRAIN_MOST_def DRAINED_def TTY_TICK_def instant_end_def NANOS_def)

section \<open>Reports follow the program\<close>

datatype report_op = Owe | Probe nat probe activity

record report =
  rep_at :: nat
  rep_why :: probe
  rep_activity :: activity

fun report_step :: "reports \<times> report list \<Rightarrow> report_op \<Rightarrow> reports \<times> report list" where
  "report_step (r, out) Owe = (owe r, out)"
| "report_step (r, out) (Probe now why activity) =
     (case probed r now why activity of
        (r', None) \<Rightarrow> (r', out)
      | (r', Some a) \<Rightarrow> (r', out @ [\<lparr>rep_at = now, rep_why = why, rep_activity = a\<rparr>]))"

definition report_run :: "report_op list \<Rightarrow> reports \<times> report list" where
  "report_run ops = foldl report_step (reports_new, []) ops"

text \<open>No report of an unchanged state is within \<open>SPACING\<close> of the one before it, but after a mark.\<close>

definition well_spaced :: "report \<Rightarrow> report \<Rightarrow> bool" where
  "well_spaced a b \<longleftrightarrow>
     rep_activity b \<noteq> rep_activity a \<or> rep_why b = Marked \<or> rep_at a + SPACING \<le> rep_at b"

definition report_inv :: "reports \<times> report list \<Rightarrow> bool" where
  "report_inv s \<longleftrightarrow>
     r_last (fst s) = (if snd s = [] then None else Some (rep_activity (last (snd s)), rep_at (last (snd s)))) \<and>
     successively well_spaced (snd s) \<and> (\<forall>r\<in>set (snd s). rep_at r + SPACING < instant_end)"

lemma report_inv_probe:
  assumes "report_inv (r, out)" and "now + SPACING < instant_end"
  shows "report_inv (report_step (r, out) (Probe now why a))"
proof (cases "probed r now why a")
  case (Pair r' x)
  show ?thesis
  proof (cases x)
    case None
    then have "r' = r" using Pair by (auto simp: probed_def Let_def split: if_splits)
    then show ?thesis using assms(1) Pair None by simp
  next
    case (Some b)
    have "well_spaced (last out) \<lparr>rep_at = now, rep_why = why, rep_activity = a\<rparr>" if "out \<noteq> []"
      using assms(1) Pair Some that
      by (auto simp: report_inv_def well_spaced_def probed_def due_def Let_def split: if_splits option.splits)
    moreover have "r' = \<lparr>r_last = Some (a, now), r_owed = False\<rparr>" "b = a"
      using Pair Some by (auto simp: probed_def Let_def split: if_splits)
    ultimately show ?thesis using assms Pair Some
      by (auto simp: report_inv_def successively_append_iff)
  qed
qed

lemma report_inv_run:
  assumes "\<And>now why a. Probe now why a \<in> set ops \<Longrightarrow> now + SPACING < instant_end"
  shows "report_inv (report_run ops)"
  using assms
proof (induction ops rule: rev_induct)
  case Nil
  then show ?case by (simp add: report_run_def report_inv_def reports_new_def)
next
  case (snoc op ops)
  have IH: "report_inv (report_run ops)"
    by (rule snoc.IH) (use snoc.prems in auto)
  show ?case
  proof (cases op)
    case Owe
    then show ?thesis using IH by (cases "report_run ops") (simp add: report_run_def report_inv_def owe_def)
  next
    case (Probe now why a)
    then have "now + SPACING < instant_end" using snoc.prems [of now why a] by simp
    moreover obtain r out where s: "report_run ops = (r, out)" by fastforce
    moreover have "report_run (ops @ [op]) = report_step (r, out) (Probe now why a)"
      using s Probe by (simp add: report_run_def)
    ultimately show ?thesis using IH report_inv_probe by simp
  qed
qed

text \<open>C17: whatever is owed and probed, an unchanged state is never reported within \<open>SPACING\<close> of the
  report before it but after a mark; and after every probe the last report is what the probe
  said, with nothing owed unless the spacing holds it back: a probe at or after \<open>due\<close>, or after a
  mark, makes the report owed.\<close>

theorem reports_are_spaced_and_made:
  assumes "\<And>now why a. Probe now why a \<in> set ops \<Longrightarrow> now + SPACING < instant_end"
    and "report_run ops = (r, out)" and "probed r now why a = (r', made)"
  shows "successively well_spaced out \<and> reports_last r' = Some a \<and>
    (r_owed r' \<longrightarrow> r_owed r \<and> why = Poll \<and> out \<noteq> [] \<and> now < rep_at (last out) + SPACING) \<and>
    (\<forall>at. due r now = Some at \<and> at \<le> now \<longrightarrow> made = Some a)"
proof -
  have inv: "report_inv (r, out)" using report_inv_run assms(1,2) by metis
  have "reports_last r' = Some a" "\<forall>at. due r now = Some at \<and> at \<le> now \<longrightarrow> made = Some a"
    using assms(3) by (auto simp: probed_def Let_def reports_last_def split: if_splits option.splits)
  moreover have "r_owed r \<and> why = Poll \<and> out \<noteq> [] \<and> now < rep_at (last out) + SPACING" if "r_owed r'"
    using assms(3) that inv last_in_set [of out]
    by (cases why) (auto simp: probed_def due_def Let_def report_inv_def split: if_splits option.splits)
  ultimately show ?thesis using inv by (auto simp: report_inv_def)
qed

theorem reports_are_spaced_and_made_witness:
  "\<exists>r'. probed (owe reports_new) 5 Poll Busy = (r', Some Busy)"
proof -
  obtain r' made where p: "probed (owe reports_new) 5 Poll Busy = (r', made)" by fastforce
  have "report_run [Owe] = (owe reports_new, [])" by (simp add: report_run_def)
  from reports_are_spaced_and_made [OF _ this p] have "made = Some Busy"
    by (simp add: due_def owe_def reports_new_def)
  with p show ?thesis by simp
qed

end
