(* ===== verification/Koh_Events.thy ===== *)
theory Koh_Events
  imports Koh_Request
begin

unbundle bit_operations_syntax

text \<open>
  \<open>src/src/events.rs\<close>: input as it goes on the wire, what decoding refuses of it, and the
  conversions from and to the types of fux-vt, the terminal library, which is not under src/. Its
  types \<open>Key\<close>, \<open>Direction\<close>, \<open>MouseAction\<close> are those the exhaustive matches of the conversions
  name; \<open>KeyPress::new\<close> and \<open>Function::new\<close> are arguments. A button and a scheme are the same on
  both sides (\<open>mirror!\<close>), a character is its code point.
\<close>

definition MAX_EVENTS :: nat where "MAX_EVENTS = 512"
definition MAX_PASTE :: nat where "MAX_PASTE = 1024 * 1024"
definition PALETTE :: nat where "PALETTE = 16"
definition MODS :: byte where "MODS = 7"

section \<open>The wire's types\<close>

datatype wire_key_code =
    KChar nat | KEnter | KTab | KEscape | KBackspace | KDelete | KInsert | KUp | KDown | KLeft | KRight
  | KHome | KEnd | KPageUp | KPageDown | KF nat

record wire_kitty =
  k_code :: "nat option"
  k_shifted :: "nat option"
  k_base :: "nat option"
  k_mods :: byte

record wire_key =
  key_code :: wire_key_code
  key_mods :: byte
  key_kitty :: "wire_kitty option"

datatype wire_button =
    BLeft | BMiddle | BRight | BWheelUp | BWheelDown | BWheelLeft | BWheelRight | BBack | BForward

datatype wire_scheme = Dark | Light

datatype wire_mouse_action =
    Press wire_button | Release "wire_button option" | Motion "wire_button option"

record wire_mouse =
  m_action :: wire_mouse_action
  m_mods :: byte
  m_row :: nat
  m_col :: nat

datatype input_event =
    Key wire_key
  | Mouse wire_mouse
  | Focus bool
  | Paste "byte list"

type_synonym rgb = "byte \<times> byte \<times> byte"

record wire_colours =
  c_foreground :: "rgb option"
  c_background :: "rgb option"
  c_palette :: "rgb option list"
  c_scheme :: "wire_scheme option"

definition wire_function_try_from :: "(byte \<Rightarrow> nat option) \<Rightarrow> byte \<Rightarrow> string + nat" where
  "wire_function_try_from function_new number =
     (case function_new number of Some f \<Rightarrow> Inr f | None \<Rightarrow> Inl ''no such function key'')"

section \<open>What decoding refuses\<close>

text \<open>\<open>char::from_u32\<close> of a code, if there is one.\<close>

definition scalar_or_none :: "nat option \<Rightarrow> bool" where
  "scalar_or_none c \<longleftrightarrow> (case c of None \<Rightarrow> True | Some c \<Rightarrow> is_scalar c)"

definition key_check :: "wire_key \<Rightarrow> string + unit" where
  "key_check k =
     (if key_mods k AND NOT MODS \<noteq> 0 then Inl ''unknown modifier bits''
      else case key_kitty k of
        Some kitty \<Rightarrow>
          if \<not> (scalar_or_none (k_code kitty) \<and> scalar_or_none (k_shifted kitty) \<and>
                scalar_or_none (k_base kitty))
          then Inl ''a kitty code that is no Unicode scalar'' else Inr ()
      | None \<Rightarrow> Inr ())"

definition event_check :: "input_event \<Rightarrow> string + unit" where
  "event_check e =
     (case e of
        Key k \<Rightarrow> key_check k
      | Mouse m \<Rightarrow> if m_mods m AND NOT MODS \<noteq> 0 then Inl ''unknown modifier bits'' else Inr ()
      | Focus _ \<Rightarrow> Inr ()
      | Paste t \<Rightarrow> if MAX_PASTE < length t then Inl ''paste too long'' else Inr ())"

text \<open>\<open>try_for_each\<close>: the first error.\<close>

fun try_each :: "('a \<Rightarrow> 'e + unit) \<Rightarrow> 'a list \<Rightarrow> 'e + unit" where
  "try_each f [] = Inr ()"
| "try_each f (x # xs) = bindE (f x) (\<lambda>_. try_each f xs)"

definition check_events :: "input_event list \<Rightarrow> string + unit" where
  "check_events es = (if MAX_EVENTS < length es then Inl ''too many events'' else try_each event_check es)"

section \<open>fux-vt's types, and the conversions\<close>

datatype direction = DUp | DDown | DLeft | DRight

datatype vt_key =
    VChar nat | VEnter | VTab | VEscape | VBackspace | VDelete | VInsert | VArrow direction
  | VHome | VEnd | VPageUp | VPageDown | VF nat

record modifiers =
  m_shift :: bool
  m_alt :: bool
  m_ctrl :: bool

record key_press =
  kp_key :: vt_key
  kp_mods :: modifiers

record keystroke =
  ks_press :: key_press
  ks_kitty :: "wire_kitty option"

record mouse_event =
  me_action :: wire_mouse_action
  me_mods :: modifiers
  me_row :: nat
  me_col :: nat

datatype 'r vt_input =
    In_Key keystroke
  | In_Mouse mouse_event
  | Focus_In
  | Focus_Out
  | In_Paste "byte list"
  | Paste_Too_Long
  | In_Reply 'r

definition mods_of :: "byte \<Rightarrow> modifiers" where
  "mods_of bits = \<lparr>m_shift = (bits AND 1 \<noteq> 0), m_alt = (bits AND 2 \<noteq> 0), m_ctrl = (bits AND 4 \<noteq> 0)\<rparr>"

definition bits_of :: "modifiers \<Rightarrow> byte" where
  "bits_of m = (of_bool (m_shift m) OR push_bit 1 (of_bool (m_alt m))) OR push_bit 2 (of_bool (m_ctrl m))"

definition vt_key_of :: "wire_key_code \<Rightarrow> vt_key" where
  "vt_key_of k =
     (case k of
        KChar c \<Rightarrow> VChar c | KEnter \<Rightarrow> VEnter | KTab \<Rightarrow> VTab | KEscape \<Rightarrow> VEscape
      | KBackspace \<Rightarrow> VBackspace | KDelete \<Rightarrow> VDelete | KInsert \<Rightarrow> VInsert
      | KUp \<Rightarrow> VArrow DUp | KDown \<Rightarrow> VArrow DDown | KLeft \<Rightarrow> VArrow DLeft | KRight \<Rightarrow> VArrow DRight
      | KHome \<Rightarrow> VHome | KEnd \<Rightarrow> VEnd | KPageUp \<Rightarrow> VPageUp | KPageDown \<Rightarrow> VPageDown | KF f \<Rightarrow> VF f)"

definition wire_key_code_of :: "vt_key \<Rightarrow> wire_key_code" where
  "wire_key_code_of k =
     (case k of
        VChar c \<Rightarrow> KChar c | VEnter \<Rightarrow> KEnter | VTab \<Rightarrow> KTab | VEscape \<Rightarrow> KEscape
      | VBackspace \<Rightarrow> KBackspace | VDelete \<Rightarrow> KDelete | VInsert \<Rightarrow> KInsert
      | VArrow DUp \<Rightarrow> KUp | VArrow DDown \<Rightarrow> KDown | VArrow DLeft \<Rightarrow> KLeft | VArrow DRight \<Rightarrow> KRight
      | VHome \<Rightarrow> KHome | VEnd \<Rightarrow> KEnd | VPageUp \<Rightarrow> KPageUp | VPageDown \<Rightarrow> KPageDown | VF f \<Rightarrow> KF f)"

text \<open>\<open>WireKey::stroke\<close>; \<open>press\<close> is \<open>KeyPress::new\<close>.\<close>

definition stroke :: "(vt_key \<Rightarrow> modifiers \<Rightarrow> key_press) \<Rightarrow> wire_key \<Rightarrow> keystroke" where
  "stroke press k =
     \<lparr>ks_press = press (vt_key_of (key_code k)) (mods_of (key_mods k)), ks_kitty = key_kitty k\<rparr>"

definition only_scalar :: "nat option \<Rightarrow> nat option" where
  "only_scalar c = (case c of None \<Rightarrow> None | Some c \<Rightarrow> if is_scalar c then Some c else None)"

definition key_from_stroke :: "keystroke \<Rightarrow> wire_key" where
  "key_from_stroke s =
     \<lparr>key_code = wire_key_code_of (kp_key (ks_press s)),
      key_mods = bits_of (kp_mods (ks_press s)),
      key_kitty = map_option (\<lambda>k.
        \<lparr>k_code = only_scalar (k_code k), k_shifted = only_scalar (k_shifted k),
         k_base = only_scalar (k_base k), k_mods = k_mods k\<rparr>) (ks_kitty s)\<rparr>"

definition mouse_event_of :: "wire_mouse \<Rightarrow> mouse_event" where
  "mouse_event_of m = \<lparr>me_action = m_action m, me_mods = mods_of (m_mods m), me_row = m_row m, me_col = m_col m\<rparr>"

definition mouse_from_event :: "mouse_event \<Rightarrow> wire_mouse" where
  "mouse_from_event e = \<lparr>m_action = me_action e, m_mods = bits_of (me_mods e), m_row = me_row e, m_col = me_col e\<rparr>"

definition from_input :: "'r vt_input \<Rightarrow> input_event option" where
  "from_input i =
     (case i of
        In_Key s \<Rightarrow> Some (Key (key_from_stroke s))
      | In_Mouse e \<Rightarrow> Some (Mouse (mouse_from_event e))
      | Focus_In \<Rightarrow> Some (Focus True)
      | Focus_Out \<Rightarrow> Some (Focus False)
      | In_Paste t \<Rightarrow> Some (Paste t)
      | Paste_Too_Long \<Rightarrow> None
      | In_Reply _ \<Rightarrow> None)"

definition colours_known :: "wire_colours \<Rightarrow> bool" where
  "colours_known c \<longleftrightarrow>
     c_foreground c \<noteq> None \<or> c_background c \<noteq> None \<or> c_scheme c \<noteq> None \<or>
     list_ex (\<lambda>e. e \<noteq> None) (c_palette c)"

section \<open>What is sent is accepted\<close>

lemma bits_of_cases:
  "bits_of m \<in> {0, 1, 2, 3, 4, 5, 6, 7}" and mods_of_bits: "mods_of (bits_of m) = m"
  by (cases m; simp add: bits_of_def mods_of_def split: if_splits)+

lemma bits_of_check: "bits_of m AND NOT MODS = 0"
  using bits_of_cases [of m] by (auto simp: MODS_def)

lemma scalar_or_none_only [simp]: "scalar_or_none (only_scalar c)"
  by (simp add: scalar_or_none_def only_scalar_def split: option.splits)

lemma try_each_ok: "try_each f xs = Inr () \<longleftrightarrow> (\<forall>x\<in>set xs. f x = Inr ())"
  by (induction xs) (auto simp: bindE_def split: sum.splits)

lemma from_input_check:
  assumes "from_input i = Some e" and "\<And>t. i = In_Paste t \<Longrightarrow> length t \<le> MAX_PASTE"
  shows "event_check e = Inr ()"
  using assms
  by (cases i) (auto simp: from_input_def event_check_def key_check_def key_from_stroke_def
      mouse_from_event_def bits_of_check split: option.splits)



end
