(* ===== verification/Koh_Terminal.thy ===== *)
theory Koh_Terminal
  imports Koh_Events
begin

text \<open>
  \<open>src/src/terminal/server.rs\<close> and \<open>text_of\<close> of \<open>src/src/terminal/mod.rs\<close>: the server's live
  emulator. The parser is fux-vt's, not under src/: it is a state of any type \<open>'p\<close> with the record
  of functions \<open>vt\<close> that this code calls, a row of it a value of any type \<open>'r\<close>. A fallible call's
  failure is \<open>None\<close>; the calls the parser makes on its sink are listed beside its new state.
\<close>

section \<open>The parser, as it is called\<close>

record colours =
  co_foreground :: "rgb option"
  co_background :: "rgb option"
  co_scheme :: "wire_scheme option"

datatype vt_event =
    Title_Event "byte list" | Bell_Event | Color_Query nat bool
  | Icon_Name | Clipboard_Event | Notification_Event

datatype sink_call =
    Sink_Reply "byte list"
  | Sink_Event vt_event
  | Unhandled_Csi "nat list list" "byte list" byte
  | Unhandled_Other

record mark_place =
  mp_row :: nat
  mp_col :: nat

record commands =
  cm_prompt :: bool
  cm_running :: bool
  cm_finished :: nat
  cm_last_status :: "int option"
  cm_last_output :: "(mark_place \<times> mark_place) option"

record ('p, 'r) vt =
  vt_process :: "byte list \<Rightarrow> 'p \<Rightarrow> 'p \<times> sink_call list"
  vt_resize :: "size \<Rightarrow> 'p \<Rightarrow> 'p option"
  vt_size :: "'p \<Rightarrow> size"
  vt_commands :: "'p \<Rightarrow> commands"
  vt_main_rows :: "'p \<Rightarrow> 'r list"
  vt_rows :: "'p \<Rightarrow> 'r list"
  vt_history_len :: "'p \<Rightarrow> nat"
  vt_key_bytes :: "keystroke \<Rightarrow> 'p \<Rightarrow> byte list"
  vt_encode_mouse :: "mouse_event \<Rightarrow> 'p \<Rightarrow> byte list"
  vt_focus_report :: "bool \<Rightarrow> 'p \<Rightarrow> byte list option"
  vt_paste :: "byte list \<Rightarrow> bool \<Rightarrow> byte list"
  vt_bracketed_paste :: "'p \<Rightarrow> bool"
  vt_scheme_updates :: "'p \<Rightarrow> bool"
  vt_host_palette :: "rgb option list \<Rightarrow> 'p \<Rightarrow> 'p"
  vt_resize_report :: "'p \<Rightarrow> byte list option"
  vt_require_nonce :: "byte list option \<Rightarrow> 'p \<Rightarrow> 'p"
  vt_answer :: "colours \<Rightarrow> nat \<Rightarrow> bool \<Rightarrow> byte list option"
  vt_scheme_report :: "wire_scheme \<Rightarrow> byte list"
  row_id :: "'r \<Rightarrow> nat"
  row_len :: "'r \<Rightarrow> nat"
  row_wrapped :: "'r \<Rightarrow> bool"
  row_blank :: "'r \<Rightarrow> bool"
  row_copied :: "'r \<Rightarrow> nat \<Rightarrow> nat option \<Rightarrow> nat list list"

section \<open>What the emulator reports beside the screen\<close>

definition title_from :: "byte list \<Rightarrow> nat list" where
  "title_from bytes = take MAX_TITLE (utf8_lossy bytes)"

record observed =
  o_title :: "nat list"
  o_bells :: nat
  o_replies :: "byte list"
  o_colours :: colours

definition observed_new :: observed where
  "observed_new =
     \<lparr>o_title = [], o_bells = 0, o_replies = [],
      o_colours = \<lparr>co_foreground = None, co_background = None, co_scheme = None\<rparr>\<rparr>"

definition sink_event :: "('p, 'r) vt \<Rightarrow> observed \<Rightarrow> vt_event \<Rightarrow> observed" where
  "sink_event vt obs e =
     (case e of
        Title_Event t \<Rightarrow> obs\<lparr>o_title := title_from t\<rparr>
      | Bell_Event \<Rightarrow> obs\<lparr>o_bells := sat_add64 (o_bells obs) 1\<rparr>
      | Color_Query number bel \<Rightarrow>
          (case vt_answer vt (o_colours obs) number bel of
             Some answer \<Rightarrow> obs\<lparr>o_replies := o_replies obs @ answer\<rparr>
           | None \<Rightarrow> obs)
      | Icon_Name \<Rightarrow> obs | Clipboard_Event \<Rightarrow> obs | Notification_Event \<Rightarrow> obs)"

definition sink_unhandled :: "('p, 'r) vt \<Rightarrow> observed \<Rightarrow> nat list list \<Rightarrow> byte list \<Rightarrow> byte \<Rightarrow> observed" where
  "sink_unhandled vt obs groups intermediates action =
     (if intermediates = ascii ''?'' \<and> action = 0x6e \<and> groups = [[996]] then
        (case co_scheme (o_colours obs) of
           Some scheme \<Rightarrow> obs\<lparr>o_replies := o_replies obs @ vt_scheme_report vt scheme\<rparr>
         | None \<Rightarrow> obs)
      else obs)"

definition sink_step :: "('p, 'r) vt \<Rightarrow> observed \<Rightarrow> sink_call \<Rightarrow> observed" where
  "sink_step vt obs c =
     (case c of
        Sink_Reply bytes \<Rightarrow> obs\<lparr>o_replies := o_replies obs @ bytes\<rparr>
      | Sink_Event e \<Rightarrow> sink_event vt obs e
      | Unhandled_Csi groups intermediates action \<Rightarrow> sink_unhandled vt obs groups intermediates action
      | Unhandled_Other \<Rightarrow> obs)"

section \<open>The emulator\<close>

record 'p server_terminal =
  st_parser :: 'p
  st_observed :: observed

definition process :: "('p, 'r) vt \<Rightarrow> byte list \<Rightarrow> 'p server_terminal \<Rightarrow> 'p server_terminal" where
  "process vt bytes t =
     (let (p, calls) = vt_process vt bytes (st_parser t) in
      \<lparr>st_parser = p, st_observed = foldl (sink_step vt) (st_observed t) calls\<rparr>)"

definition take_host_replies :: "'p server_terminal \<Rightarrow> byte list \<times> 'p server_terminal" where
  "take_host_replies t =
     (o_replies (st_observed t), t\<lparr>st_observed := (st_observed t)\<lparr>o_replies := []\<rparr>\<rparr>)"

definition emu_title :: "'p server_terminal \<Rightarrow> nat list" where
  "emu_title t = o_title (st_observed t)"

definition bell_count :: "'p server_terminal \<Rightarrow> nat" where
  "bell_count t = o_bells (st_observed t)"

definition require_mark_nonce :: "('p, 'r) vt \<Rightarrow> byte list option \<Rightarrow> 'p server_terminal \<Rightarrow> 'p server_terminal" where
  "require_mark_nonce vt nonce t = t\<lparr>st_parser := vt_require_nonce vt nonce (st_parser t)\<rparr>"

definition encode_one :: "('p, 'r) vt \<Rightarrow> (vt_key \<Rightarrow> modifiers \<Rightarrow> key_press) \<Rightarrow> 'p \<Rightarrow> input_event \<Rightarrow> byte list" where
  "encode_one vt press p e =
     (case e of
        Key k \<Rightarrow> vt_key_bytes vt (stroke press k) p
      | Mouse m \<Rightarrow> vt_encode_mouse vt (mouse_event_of m) p
      | Focus f \<Rightarrow> (case vt_focus_report vt f p of Some r \<Rightarrow> r | None \<Rightarrow> [])
      | Paste text \<Rightarrow> vt_paste vt text (vt_bracketed_paste vt p))"

fun encode_input ::
  "('p, 'r) vt \<Rightarrow> (vt_key \<Rightarrow> modifiers \<Rightarrow> key_press) \<Rightarrow> 'p server_terminal \<Rightarrow> input_event list \<Rightarrow> byte list \<Rightarrow> byte list" where
  "encode_input vt press t [] out = out"
| "encode_input vt press t (e # es) out =
     encode_input vt press t es (out @ encode_one vt press (st_parser t) e)"

definition wire_colours_of :: "wire_colours \<Rightarrow> colours" where
  "wire_colours_of c =
     \<lparr>co_foreground = c_foreground c, co_background = c_background c, co_scheme = c_scheme c\<rparr>"

definition set_colours :: "('p, 'r) vt \<Rightarrow> wire_colours \<Rightarrow> 'p server_terminal \<Rightarrow> byte list \<times> 'p server_terminal" where
  "set_colours vt c t =
     (let now = wire_colours_of c; before = co_scheme (o_colours (st_observed t));
          t = t\<lparr>st_observed := (st_observed t)\<lparr>o_colours := now\<rparr>,
                st_parser := vt_host_palette vt (c_palette c) (st_parser t)\<rparr>
      in (case (before, co_scheme now) of
            (Some b, Some s) \<Rightarrow>
              if b \<noteq> s \<and> vt_scheme_updates vt (st_parser t) then vt_scheme_report vt s else []
          | _ \<Rightarrow> [], t))"

definition host_size :: "size \<Rightarrow> size" where
  "host_size s = (let c = clamp_dims s in \<lparr>rows = max 1 (rows c), cols = max 1 (cols c)\<rparr>)"

definition emu_resize :: "('p, 'r) vt \<Rightarrow> size \<Rightarrow> 'p server_terminal \<Rightarrow> 'p server_terminal \<times> bool" where
  "emu_resize vt s t =
     (let s = host_size s in
      if vt_size vt (st_parser t) = s then (t, False)
      else case vt_resize vt s (st_parser t) of
        None \<Rightarrow> (t, False)
      | Some p \<Rightarrow> (t\<lparr>st_parser := p\<rparr>, True))"

section \<open>The text of rows\<close>

text \<open>\<open>char::is_whitespace\<close>: Unicode's White\_Space.\<close>

definition is_whitespace :: "nat \<Rightarrow> bool" where
  "is_whitespace c \<longleftrightarrow>
     9 \<le> c \<and> c \<le> 13 \<or> c \<in> {0x20, 0x85, 0xA0, 0x1680, 0x2028, 0x2029, 0x202F, 0x205F, 0x3000} \<or>
     0x2000 \<le> c \<and> c \<le> 0x200A"

definition trim_end :: "nat list \<Rightarrow> nat list" where
  "trim_end cs = rev (dropWhile is_whitespace (rev cs))"

text \<open>The loop over the rows: the text so far and the line so far.\<close>

fun text_rows ::
  "('p, 'r) vt \<Rightarrow> nat option \<Rightarrow> nat \<Rightarrow> 'r list \<Rightarrow> nat list \<times> nat list \<Rightarrow> nat list \<times> nat list" where
  "text_rows vt to start [] acc = acc"
| "text_rows vt to start (r # rs) (text, line) =
     (let end = (if rs = [] then to else None);
          line = line @ concat (row_copied vt r start end)
      in text_rows vt to 0 rs
           (if \<not> row_wrapped vt r \<or> rs = [] then (text @ trim_end line @ [10], []) else (text, line)))"

text \<open>\<open>while !text.is_char_boundary(cut) { cut += 1 }\<close>, its end a boundary.\<close>

function boundary_above :: "byte list \<Rightarrow> nat \<Rightarrow> nat" where
  "boundary_above s n = (if length s \<le> n \<or> is_char_boundary s n then n else boundary_above s (n + 1))"
  by pat_completeness auto

termination
  by (relation "measure (\<lambda>(s, n). length s - n)") auto

declare boundary_above.simps [simp del]

definition text_of :: "('p, 'r) vt \<Rightarrow> 'r list \<Rightarrow> nat \<Rightarrow> nat option \<Rightarrow> nat \<Rightarrow> byte list" where
  "text_of vt rs from to most =
     (let text = utf8 (fst (text_rows vt to from rs ([], []))) in
      if most < length text then drop (boundary_above text (length text - most)) text else text)"

section \<open>The screen's text and the last command's output\<close>

text \<open>\<open>rposition(|row| !blank(row)).map_or(0, |n| n + 1)\<close>, then \<open>truncate\<close>.\<close>

definition screen_text :: "('p, 'r) vt \<Rightarrow> 'p server_terminal \<Rightarrow> nat \<Rightarrow> byte list" where
  "screen_text vt t most =
     (let rs = drop (vt_history_len vt (st_parser t)) (vt_rows vt (st_parser t));
          shown = rev (dropWhile (row_blank vt) (rev rs))
      in text_of vt shown 0 None most)"

definition last_output :: "('p, 'r) vt \<Rightarrow> 'p server_terminal \<Rightarrow> nat \<Rightarrow> byte list option" where
  "last_output vt t most =
     (case cm_last_output (vt_commands vt (st_parser t)) of
        None \<Rightarrow> None
      | Some (start, end) \<Rightarrow>
          let rs = vt_main_rows vt (st_parser t) in
          case position (\<lambda>r. row_id vt r = mp_row start) rs of
            None \<Rightarrow> None
          | Some from \<Rightarrow>
              (case position (\<lambda>r. row_id vt r = mp_row end) rs of
                 None \<Rightarrow> None
               | Some to \<Rightarrow>
                   if (from, mp_col start) = (to, mp_col end) then Some []
                   else if to + 1 < from then None
                   else
                     let span = take (to + 1 - from) (drop from rs); before = butlast span;
                         (span, to_col) =
                           (if span \<noteq> [] \<and> mp_col end = 0 \<and> before \<noteq> []
                            then (before, Some (row_len vt (last before)))
                            else (span, Some (mp_col end - 1)))
                     in Some (text_of vt span (mp_col start) to_col most)))"

text \<open>The primary screen's top row (\<open>top_row\<close> of session.rs): below the history.\<close>

definition kept_rows :: "('p, 'r) vt \<Rightarrow> 'p \<Rightarrow> nat" where
  "kept_rows vt p = length (vt_main_rows vt p) - rows (vt_size vt p)"

definition top_row :: "('p, 'r) vt \<Rightarrow> 'p \<Rightarrow> nat option" where
  "top_row vt p =
     (let rs = vt_main_rows vt p; kept = kept_rows vt p in
      if kept < length rs then Some (row_id vt (rs ! kept)) else None)"

section \<open>The text is whole characters within its bound\<close>

lemma boundary_above_spec:
  "n \<le> length s \<Longrightarrow> n \<le> boundary_above s n \<and> boundary_above s n \<le> length s \<and>
     is_char_boundary s (boundary_above s n)"
proof (induction s n rule: boundary_above.induct)
  case (1 s n)
  show ?case
    by (subst (1 2 3) boundary_above.simps) (use 1 in \<open>auto simp: is_char_boundary_def\<close>)
qed

definition rows_scalar :: "('p, 'r) vt \<Rightarrow> 'r list \<Rightarrow> bool" where
  "rows_scalar vt rs \<longleftrightarrow> (\<forall>r\<in>set rs. \<forall>a b. \<forall>g\<in>set (row_copied vt r a b). list_all is_scalar g)"

lemma trim_end_scalar: "list_all is_scalar cs \<Longrightarrow> list_all is_scalar (trim_end cs)"
  by (auto simp: trim_end_def list_all_iff dest: set_dropWhileD)

lemma text_rows_scalar:
  assumes "rows_scalar vt rs" and "list_all is_scalar acc" and "list_all is_scalar line"
  shows "list_all is_scalar (fst (text_rows vt to start rs (acc, line)))"
  using assms
proof (induction rs arbitrary: acc line start)
  case (Cons r rs)
  have r: "list_all is_scalar (concat (row_copied vt r start e))" for e
    using Cons.prems(1) by (fastforce simp: rows_scalar_def list_all_iff)
  have rs: "rows_scalar vt rs" using Cons.prems(1) by (simp add: rows_scalar_def)
  have "list_all is_scalar [10]" by (simp add: is_scalar_def)
  then show ?case using Cons.IH [OF rs] Cons.prems(2,3) r trim_end_scalar
    by (simp add: Let_def list_all_append)
qed simp

text \<open>the text of rows is at most \<open>most\<close> bytes whatever the rows, and it is whole characters: the
  encoding of the last characters of the whole text.\<close>

theorem text_of_is_bounded_text:
  assumes "rows_scalar vt rs"
  shows "length (text_of vt rs from to most) \<le> most \<and>
    (\<exists>n. text_of vt rs from to most = utf8 (drop n (fst (text_rows vt to from rs ([], [])))))"
proof -
  define cs where "cs = fst (text_rows vt to from rs ([], []))"
  have cs: "list_all is_scalar cs" using text_rows_scalar [OF assms] by (simp add: cs_def)
  show ?thesis
  proof (cases "most < length (utf8 cs)")
    case True
    note b = boundary_above_spec [of "length (utf8 cs) - most" "utf8 cs"]
    have t: "text_of vt rs from to most = drop (boundary_above (utf8 cs) (length (utf8 cs) - most)) (utf8 cs)"
      using True by (simp add: text_of_def cs_def [symmetric] Let_def)
    obtain n where "drop (boundary_above (utf8 cs) (length (utf8 cs) - most)) (utf8 cs) = utf8 (drop n cs)"
      using take_utf8 [OF cs] b by auto
    moreover have "length (text_of vt rs from to most) \<le> most" unfolding t length_drop using b by linarith
    ultimately show ?thesis using t by (auto simp: cs_def)
  next
    case False
    then show ?thesis by (auto simp: text_of_def cs_def [symmetric] Let_def intro: exI [of _ 0])
  qed
qed

text \<open>A parser that keeps each chunk as a row, to evaluate the definitions with.\<close>

definition plain_vt :: "(nat list list, nat list) vt" where
  "plain_vt =
     \<lparr>vt_process = (\<lambda>bytes p. (p @ [map unat bytes], [])), vt_resize = (\<lambda>_ p. Some p),
      vt_size = (\<lambda>_. \<lparr>rows = 24, cols = 80\<rparr>),
      vt_commands = (\<lambda>_. \<lparr>cm_prompt = False, cm_running = False, cm_finished = 0, cm_last_status = None,
        cm_last_output = None\<rparr>),
      vt_main_rows = (\<lambda>p. p), vt_rows = (\<lambda>p. p), vt_history_len = (\<lambda>_. 0),
      vt_key_bytes = (\<lambda>_ _. []), vt_encode_mouse = (\<lambda>_ _. []), vt_focus_report = (\<lambda>_ _. None),
      vt_paste = (\<lambda>text _. text), vt_bracketed_paste = (\<lambda>_. False), vt_scheme_updates = (\<lambda>_. False),
      vt_host_palette = (\<lambda>_ p. p), vt_resize_report = (\<lambda>_. None), vt_require_nonce = (\<lambda>_ p. p),
      vt_answer = (\<lambda>_ _ _. None), vt_scheme_report = (\<lambda>_. []),
      row_id = length, row_len = length, row_wrapped = (\<lambda>_. False), row_blank = (\<lambda>r. r = []),
      row_copied = (\<lambda>r from to. map (\<lambda>c. [c]) (drop from r))\<rparr>"

theorem text_of_is_bounded_text_witness:
  "length (text_of plain_vt [[97, 98], [99]] 0 None 3) \<le> 3"
proof -
  have "rows_scalar plain_vt [[97, 98], [99]]"
    by (auto simp: rows_scalar_def plain_vt_def is_scalar_def dest!: in_set_dropD)
  from text_of_is_bounded_text [OF this, of 0 None 3] show ?thesis by simp
qed

end
