(* ===== verification/Koh_Sessions.thy ===== *)
theory Koh_Sessions
  imports Koh_BTree Koh_Proto
begin

text \<open>
  The registry of live sessions: \<open>src/src/server/session/sessions.rs\<close>, and \<open>Registry\<close> and
  \<open>registry_task\<close> of \<open>src/src/server/session.rs\<close>. A peer is its endpoint id (\<open>'p\<close>); a session's
  handles are its number. Whether a session's control channel is closed and what a send to it
  gives are tokio's, so arguments: \<open>closed\<close> and \<open>send\<close>; whether a peer is allowed is the
  argument \<open>allows\<close>, as it is in the code.
\<close>

section \<open>The live sessions\<close>

record 'p live =
  lv_peer :: 'p
  lv_started :: nat
  lv_attached :: nat

record 'p registry =
  g_live :: "(nat, 'p live) btree"
  g_last :: nat
  g_attaches :: nat
  g_max :: nat
  g_run :: nat

definition registry_new :: "nat \<Rightarrow> nat \<Rightarrow> 'p registry" where
  "registry_new max_sessions run_id =
     \<lparr>g_live = [], g_last = 0, g_attaches = 0, g_max = max_sessions, g_run = run_id\<rparr>"

record launch =
  la_program :: "byte list list option"
  la_cwd :: "byte list option"

datatype sent = Sent | Send_Full | Send_Closed

datatype attached = Refused close | Handed nat | Started nat

text \<open>\<open>retain(|_, live| !live.handles.control.is_closed())\<close>.\<close>

definition forget_closed :: "(nat \<Rightarrow> bool) \<Rightarrow> 'p registry \<Rightarrow> 'p registry" where
  "forget_closed closed g = g\<lparr>g_live := bt_retain (\<lambda>(n, _). \<not> closed n) (g_live g)\<rparr>"

text \<open>\<open>filter\<close> by peer and \<open>max_by_key(attached)\<close>: the last of the highest in the table's order.\<close>

fun latest_of :: "'p \<Rightarrow> (nat \<times> 'p live) list \<Rightarrow> (nat \<times> nat) option" where
  "latest_of peer [] = None"
| "latest_of peer ((n, l) # es) =
     (if lv_peer l \<noteq> peer then latest_of peer es
      else case latest_of peer es of
        None \<Rightarrow> Some (n, lv_attached l)
      | Some (m, a) \<Rightarrow> if lv_attached l \<le> a then Some (m, a) else Some (n, lv_attached l))"

definition named_session :: "'p registry \<Rightarrow> 'p \<Rightarrow> pick \<Rightarrow> launch \<Rightarrow> close + nat option" where
  "named_session g peer pick launch =
     (let by_number = (\<lambda>n.
        case bt_get (g_live g) n of
          Some l \<Rightarrow> if lv_peer l = peer then Inr (Some n) else Inl No_Such_Session
        | None \<Rightarrow> Inl No_Such_Session)
      in if la_program launch \<noteq> None \<or> la_cwd launch \<noteq> None then Inr None
         else case pick of
           Latest \<Rightarrow> Inr (map_option fst (latest_of peer (g_live g)))
         | New \<Rightarrow> Inr None
         | Resume_Pick at \<Rightarrow>
             if resume_run at \<noteq> g_run g then Inl No_Such_Session else by_number (resume_session at)
         | Id n \<Rightarrow> by_number n)"

text \<open>The last part of \<open>attach\<close>: a new session, unless the server is full.\<close>

definition start_session :: "nat \<Rightarrow> 'p registry \<Rightarrow> 'p \<Rightarrow> 'p registry \<times> attached" where
  "start_session now g peer =
     (if g_max g \<le> length (g_live g) then (g, Refused AtCapacity)
      else
        let n = sat_add64 (g_last g) 1; a = sat_add64 (g_attaches g) 1 in
        (g\<lparr>g_last := n, g_attaches := a,
           g_live := bt_insert n \<lparr>lv_peer = peer, lv_started = now, lv_attached = a\<rparr> (g_live g)\<rparr>,
         Started n))"

definition registry_attach ::
  "('p \<Rightarrow> bool) \<Rightarrow> (nat \<Rightarrow> bool) \<Rightarrow> (nat \<Rightarrow> sent) \<Rightarrow> nat \<Rightarrow> 'p registry \<Rightarrow> 'p \<Rightarrow> pick \<Rightarrow> launch \<Rightarrow>
     'p registry \<times> attached" where
  "registry_attach allows closed send now g peer pick launch =
     (if \<not> allows peer then (g, Refused NotAuthorized)
      else
        let g = forget_closed closed g in
        case named_session g peer pick launch of
          Inl e \<Rightarrow> (g, Refused e)
        | Inr named \<Rightarrow>
            (case Option.bind named (\<lambda>n. map_option (\<lambda>l. (n, l)) (bt_get (g_live g) n)) of
               None \<Rightarrow> start_session now g peer
             | Some (n, l) \<Rightarrow>
                 (case send n of
                    Sent \<Rightarrow>
                      (let a = sat_add64 (g_attaches g) 1 in
                       (g\<lparr>g_attaches := a, g_live := bt_insert n (l\<lparr>lv_attached := a\<rparr>) (g_live g)\<rparr>,
                        Handed n))
                  | Send_Full \<Rightarrow> (g, Refused AtCapacity)
                  | Send_Closed \<Rightarrow>
                      if pick = Latest then start_session now g peer
                      else (g, Refused No_Such_Session))))"

definition registry_list :: "(nat \<Rightarrow> bool) \<Rightarrow> 'p registry \<Rightarrow> 'p \<Rightarrow> 'p registry \<times> (nat \<times> nat) list" where
  "registry_list closed g peer =
     (let g = forget_closed closed g in
      (g, map (\<lambda>(n, l). (n, lv_started l)) (filter (\<lambda>(_, l). lv_peer l = peer) (g_live g))))"

definition registry_end :: "'p registry \<Rightarrow> 'p \<Rightarrow> 'p registry" where
  "registry_end g peer = g\<lparr>g_live := bt_retain (\<lambda>(_, l). lv_peer l \<noteq> peer) (g_live g)\<rparr>"

section \<open>The registry's task and handle\<close>

text \<open>One turn of \<open>registry_task\<close>: a session's task ended, or a request. \<open>Attach\<close> carries what tokio
  says of the channels as it is taken.\<close>

datatype 'p registry_op =
    Task_Ended "nat \<Rightarrow> bool"
  | Attach_Req "nat \<Rightarrow> bool" "nat \<Rightarrow> sent" nat 'p pick launch
  | List_Req "nat \<Rightarrow> bool" 'p
  | End_Req 'p

definition registry_step ::
  "('p \<Rightarrow> bool) \<Rightarrow> 'p registry \<Rightarrow> 'p registry_op \<Rightarrow> 'p registry \<times> attached option" where
  "registry_step allows g op =
     (case op of
        Task_Ended closed \<Rightarrow> (forget_closed closed g, None)
      | Attach_Req closed send now peer pick launch \<Rightarrow>
          (let (g', a) = registry_attach allows closed send now g peer pick launch in (g', Some a))
      | List_Req closed peer \<Rightarrow> (fst (registry_list closed g peer), None)
      | End_Req peer \<Rightarrow> (registry_end g peer, None))"

text \<open>\<open>Registry::attach\<close>: asked again while it goes unanswered, at most \<open>ATTACH_TRIES\<close> times. What
  the registry answers to each try is the argument: it is gone, or dropped the attach, or
  answered.\<close>

definition ATTACH_TRIES :: nat where "ATTACH_TRIES = 3"

datatype 'a attempt = Registry_Gone | Unanswered | Answered 'a

fun attach_tries :: "nat \<Rightarrow> (nat \<Rightarrow> (close + 'a) attempt) \<Rightarrow> close + 'a" where
  "attach_tries 0 outcome = Inl Could_Not_Start"
| "attach_tries (Suc left) outcome =
     (case outcome left of
        Registry_Gone \<Rightarrow> Inl Could_Not_Start
      | Unanswered \<Rightarrow> attach_tries left outcome
      | Answered a \<Rightarrow> a)"

definition ATTACH_HISTORY :: nat where "ATTACH_HISTORY = 1000"

definition attach_history :: "pick \<Rightarrow> nat" where
  "attach_history pick = (case pick of Resume_Pick _ \<Rightarrow> 0 | _ \<Rightarrow> ATTACH_HISTORY)"

text \<open>\<open>Registry::find\<close> over the peer's listing.\<close>

definition find_session :: "(nat \<times> nat) list \<Rightarrow> nat \<Rightarrow> nat option" where
  "find_session listed n = map_option fst (List.find (\<lambda>l. fst l = n) listed)"

text \<open>\<open>Registry::sessions\<close>: each listed session as it says it stands, one that does not say left
  out. \<open>'s\<close> is the shell's state.\<close>

record 's description =
  ds_detached :: "nat option"
  ds_size :: size
  ds_title :: "nat list"
  ds_exited :: "nat option"
  ds_state :: 's

datatype presence = Attached_Now | Detached_For nat

record 's session_info =
  si_session :: nat
  si_age_secs :: nat
  si_presence :: presence
  si_size :: size
  si_title :: "nat list"
  si_exited :: "nat option"
  si_state :: 's

definition session_info :: "nat \<Rightarrow> nat \<times> nat \<Rightarrow> 's description \<Rightarrow> 's session_info" where
  "session_info now listed d =
     (let secs = (\<lambda>since. (now - since) div NANOS) in
      \<lparr>si_session = fst listed, si_age_secs = secs (snd listed),
       si_presence = (case ds_detached d of None \<Rightarrow> Attached_Now | Some since \<Rightarrow> Detached_For (secs since)),
       si_size = ds_size d, si_title = ds_title d, si_exited = ds_exited d, si_state = ds_state d\<rparr>)"

definition registry_sessions ::
  "(nat \<Rightarrow> nat) \<Rightarrow> (nat \<Rightarrow> 's description option) \<Rightarrow> (nat \<times> nat) list \<Rightarrow> 's session_info list" where
  "registry_sessions now described listed =
     List.map_filter (\<lambda>l. map_option (session_info (now (fst l)) l) (described (fst l))) listed"

section \<open>The registry's invariant\<close>

definition registry_ok :: "'p registry \<Rightarrow> bool" where
  "registry_ok g \<longleftrightarrow>
     bt_ok (g_live g) \<and> length (g_live g) \<le> g_max g \<and> g_last g \<le> u64_max \<and> g_attaches g \<le> u64_max \<and>
     (\<forall>n l. bt_get (g_live g) n = Some l \<longrightarrow> 1 \<le> n \<and> n \<le> g_last g \<and> lv_attached l \<le> g_attaches g)"

lemma registry_ok_new [koh_inv]: "registry_ok (registry_new m r)"
  by (simp add: registry_ok_def registry_new_def bt_get_def)

lemma registry_ok_retain: "registry_ok g \<Longrightarrow> registry_ok (g\<lparr>g_live := bt_retain keep (g_live g)\<rparr>)"
  using bt.keep_length [of "g_live g" keep]
  by (auto simp: registry_ok_def intro: bt_ok_retain dest: bt.keep_subset)

lemma registry_ok_forget [koh_inv]: "registry_ok g \<Longrightarrow> registry_ok (forget_closed closed g)"
  unfolding forget_closed_def by (rule registry_ok_retain)

lemma forget_closed_fields [simp]:
  "g_last (forget_closed closed g) = g_last g" "g_attaches (forget_closed closed g) = g_attaches g"
  "g_max (forget_closed closed g) = g_max g" "g_run (forget_closed closed g) = g_run g"
  by (simp_all add: forget_closed_def)

lemma registry_ok_end [koh_inv]: "registry_ok g \<Longrightarrow> registry_ok (registry_end g peer)"
  unfolding registry_end_def by (rule registry_ok_retain)

lemma get_forget: "registry_ok g \<Longrightarrow>
    bt_get (g_live (forget_closed closed g)) n = (if closed n then None else bt_get (g_live g) n)"
  by (simp add: forget_closed_def registry_ok_def bt_get_retain split: option.splits)

lemma latest_of_Some:
  assumes "latest_of peer es = Some (n, a)"
  shows "\<exists>l. (n, l) \<in> set es \<and> lv_peer l = peer \<and> lv_attached l = a \<and>
    (\<forall>m k. (m, k) \<in> set es \<and> lv_peer k = peer \<longrightarrow> lv_attached k \<le> a)"
  using assms
proof (induction es arbitrary: n a)
  case (Cons e es)
  obtain m l where e: "e = (m, l)" by (cases e)
  show ?case
  proof (cases "lv_peer l = peer")
    case False
    then show ?thesis using Cons e by fastforce
  next
    case True
    show ?thesis
    proof (cases "latest_of peer es")
      case None
      then have "\<forall>(m, k)\<in>set es. lv_peer k \<noteq> peer"
        by (induction es) (auto split: option.splits if_splits)
      then show ?thesis using Cons.prems None True e by fastforce
    next
      case (Some b)
      then obtain m' a' where b: "latest_of peer es = Some (m', a')" by (cases b) auto
      from Cons.IH [OF b] obtain k where k: "(m', k) \<in> set es" "lv_peer k = peer" "lv_attached k = a'"
        "\<forall>m k. (m, k) \<in> set es \<and> lv_peer k = peer \<longrightarrow> lv_attached k \<le> a'" by blast
      show ?thesis
      proof (cases "lv_attached l \<le> a'")
        case le: True
        then have "n = m'" "a = a'" using Cons.prems b True e by auto
        with k le show ?thesis using e True by (intro exI [of _ k]) auto
      next
        case gt: False
        then have "n = m" "a = lv_attached l" using Cons.prems b True e by auto
        with k(4) gt show ?thesis using e True by (intro exI [of _ l]) force
      qed
    qed
  qed
qed simp

lemma latest_of_None: "latest_of peer es = None \<longleftrightarrow> (\<forall>(n, l)\<in>set es. lv_peer l \<noteq> peer)"
  by (induction es) (auto split: option.splits if_splits)

section \<open>What an attach does\<close>

lemma registry_ok_start [koh_inv]:
  assumes "registry_ok g" and "g_last g < u64_max" and "start_session now g peer = (g', a)"
  shows "registry_ok g'"
proof (cases "g_max g \<le> length (g_live g)")
  case False
  then have "length (bt_insert k v (g_live g)) \<le> g_max g" for k v
    using length_bt_insert_le [of k v "g_live g"] by linarith
  then show ?thesis using assms False
    by (auto simp: registry_ok_def start_session_def Let_def bt_get_insert bt_ok_insert sat_add_def min_def
        split: if_splits) (meson le_SucI le_trans)+
qed (use assms in \<open>auto simp: start_session_def\<close>)

lemma start_session_outcome:
  assumes "registry_ok g" and "g_last g < u64_max" and "start_session now g peer = (g', a)"
  shows "(a = Refused AtCapacity \<and> g' = g \<and> length (g_live g) = g_max g) \<or>
    (a = Started (g_last g + 1) \<and> g_last g' = g_last g + 1 \<and> bt_get (g_live g) (g_last g + 1) = None \<and>
     length (g_live g) < g_max g \<and>
     (\<exists>l. lv_peer l = peer \<and> g_live g' = bt_insert (g_last g + 1) l (g_live g) \<and>
        lv_attached l = g_attaches g'))"
proof (cases "g_max g \<le> length (g_live g)")
  case True
  then show ?thesis using assms by (auto simp: start_session_def registry_ok_def)
next
  case False
  have "bt_get (g_live g) (Suc (g_last g)) = None"
    using assms(1) by (cases "bt_get (g_live g) (Suc (g_last g))") (fastforce simp: registry_ok_def)+
  then show ?thesis using assms(2,3) False
    by (intro disjI2) (auto simp: start_session_def Let_def intro!: exI)
qed

text \<open>What an attach to a named session says of the session: it is the peer's, and the one asked for.\<close>

definition is_named :: "'p registry \<Rightarrow> 'p \<Rightarrow> pick \<Rightarrow> launch \<Rightarrow> nat \<Rightarrow> bool" where
  "is_named g peer pick launch n \<longleftrightarrow>
     la_program launch = None \<and> la_cwd launch = None \<and>
     (\<exists>l. bt_get (g_live g) n = Some l \<and> lv_peer l = peer \<and>
        (pick = Id n \<or> pick = Resume_Pick \<lparr>resume_run = g_run g, resume_session = n\<rparr> \<or>
         pick = Latest \<and>
           (\<forall>m k. bt_get (g_live g) m = Some k \<and> lv_peer k = peer \<longrightarrow> lv_attached k \<le> lv_attached l)))"

lemma named_session_Some:
  assumes "registry_ok g" and "named_session g peer pick launch = Inr (Some n)"
  shows "is_named g peer pick launch n"
proof (cases pick)
  case Latest
  then obtain a where "latest_of peer (g_live g) = Some (n, a)"
    and l: "la_program launch = None" "la_cwd launch = None"
    using assms(2) by (auto simp: named_session_def Let_def split: if_splits)
  from latest_of_Some [OF this(1)] obtain l where "(n, l) \<in> set (g_live g)" "lv_peer l = peer"
    "\<forall>m k. (m, k) \<in> set (g_live g) \<and> lv_peer k = peer \<longrightarrow> lv_attached k \<le> lv_attached l" by blast
  then show ?thesis using Latest l assms(1)
    by (auto simp: is_named_def registry_ok_def bt_get_iff)
qed (use assms in \<open>auto simp: named_session_def is_named_def Let_def split: if_splits option.splits\<close>)

lemma named_session_None:
  assumes "registry_ok g" and "named_session g peer pick launch = Inr None"
  shows "la_program launch \<noteq> None \<or> la_cwd launch \<noteq> None \<or> pick = New \<or>
    pick = Latest \<and> (\<forall>m k. bt_get (g_live g) m = Some k \<longrightarrow> lv_peer k \<noteq> peer)"
  using assms latest_of_None [of peer "g_live g"]
  by (cases pick)
    (auto simp: named_session_def registry_ok_def bt_get_iff Let_def split: if_splits option.splits)

text \<open>The sessions other than \<open>n\<close> are those of before.\<close>

definition only_at :: "nat \<Rightarrow> 'p registry \<Rightarrow> 'p registry \<Rightarrow> bool" where
  "only_at n g g' \<longleftrightarrow> (\<forall>m. m \<noteq> n \<longrightarrow> bt_get (g_live g') m = bt_get (g_live g) m)"

lemma registry_attach_cases:
  assumes "registry_ok g" and "g_last g < u64_max"
    and "registry_attach allows closed send now g peer pick launch = (g', a)"
  obtains (unauthorized) "\<not> allows peer" "a = Refused NotAuthorized" "g' = g"
  | (refused) e where "allows peer" "a = Refused e" "e \<in> {No_Such_Session, AtCapacity}" "g' = forget_closed closed g"
  | (handed) n l where "allows peer" "a = Handed n" "is_named (forget_closed closed g) peer pick launch n"
      "send n = Sent" "bt_get (g_live (forget_closed closed g)) n = Some l" "lv_peer l = peer"
      "g_live g' = bt_insert n (l\<lparr>lv_attached := g_attaches g'\<rparr>) (g_live (forget_closed closed g))"
      "g_attaches g' = sat_add64 (g_attaches g) 1" "g_last g' = g_last g" "g_max g' = g_max g" "g_run g' = g_run g"
  | (started) "allows peer" "a = Started (g_last g + 1)" "start_session now (forget_closed closed g) peer = (g', a)"
      "la_program launch \<noteq> None \<or> la_cwd launch \<noteq> None \<or> pick = New \<or> pick = Latest"
proof -
  let ?h = "forget_closed closed g"
  have h: "registry_ok ?h" "g_last ?h = g_last g" "g_attaches ?h = g_attaches g" "g_max ?h = g_max g"
    "g_run ?h = g_run g"
    using registry_ok_forget [OF assms(1)] by (simp_all add: forget_closed_def)
  have new: thesis if "allows peer" "start_session now ?h peer = (g', a)"
    "la_program launch \<noteq> None \<or> la_cwd launch \<noteq> None \<or> pick = New \<or> pick = Latest"
    using start_session_outcome [OF h(1) _ that(2)] h(2) assms(2) that refused [of AtCapacity] started by auto
  show thesis
  proof (cases "allows peer")
    case False
    then show thesis using assms(3) unauthorized by (simp add: registry_attach_def)
  next
    case allowed: True
    show thesis
    proof (cases "named_session ?h peer pick launch")
      case (Inl e)
      then have "e = No_Such_Session" by (auto simp: named_session_def Let_def split: if_splits pick.splits option.splits)
      then show thesis using assms(3) Inl allowed refused [of e] by (simp add: registry_attach_def Let_def)
    next
      case (Inr named)
      show thesis
      proof (cases named)
        case None
        then show thesis using assms(3) Inr allowed named_session_None [OF h(1)]
          by (intro new) (auto simp: registry_attach_def Let_def)
      next
        case (Some n)
        then have n: "is_named ?h peer pick launch n" using named_session_Some [OF h(1)] Inr by simp
        then obtain l where l: "bt_get (g_live ?h) n = Some l" "lv_peer l = peer" by (auto simp: is_named_def)
        have r: "registry_attach allows closed send now g peer pick launch =
            (case send n of
               Sent \<Rightarrow>
                 (let a = sat_add64 (g_attaches ?h) 1 in
                  (?h\<lparr>g_attaches := a, g_live := bt_insert n (l\<lparr>lv_attached := a\<rparr>) (g_live ?h)\<rparr>, Handed n))
             | Send_Full \<Rightarrow> (?h, Refused AtCapacity)
             | Send_Closed \<Rightarrow>
                 if pick = Latest then start_session now ?h peer else (?h, Refused No_Such_Session))"
          using allowed Inr Some l by (simp add: registry_attach_def Let_def)
        show thesis
        proof (cases "send n")
          case Sent
          then show thesis using r assms(3) allowed n l h by (intro handed [of n l]) (auto simp: Let_def)
        next
          case Send_Full
          then show thesis using r assms(3) allowed by (intro refused [of AtCapacity]) auto
        next
          case Send_Closed
          then show thesis using r assms(3) allowed new refused [of No_Such_Session]
            by (cases "pick = Latest") auto
        qed
      qed
    qed
  qed
qed

lemma registry_ok_attach [koh_inv]:
  assumes "registry_ok g" and "g_last g < u64_max"
    and "registry_attach allows closed send now g peer pick launch = (g', a)"
  shows "registry_ok g'"
  using assms
proof (cases rule: registry_attach_cases)
  case (handed n l)
  let ?h = "forget_closed closed g"
  have h: "registry_ok ?h" using registry_ok_forget [OF assms(1)] .
  have len: "length (bt_insert n x (g_live ?h)) = length (g_live ?h)" for x
    using length_bt_insert_old handed(5) h by (auto simp: registry_ok_def)
  have up: "g_attaches g \<le> g_attaches g'" "g_attaches g' \<le> u64_max"
    using handed(8) assms(1) by (simp_all add: registry_ok_def sat_add_mono)
  have "lv_attached k \<le> g_attaches g'" if "bt_get (g_live ?h) m = Some k" for m k
    using h up(1) that by (auto simp: registry_ok_def intro: le_trans)
  moreover have "1 \<le> m \<and> m \<le> g_last g" if "bt_get (g_live ?h) m = Some k" for m k
    using h that by (auto simp: registry_ok_def)
  moreover have "bt_get (g_live g') m = (if m = n then Some (l\<lparr>lv_attached := g_attaches g'\<rparr>) else bt_get (g_live ?h) m)" for m
    using handed(7) h by (simp add: registry_ok_def bt_get_insert)
  ultimately show ?thesis using h handed(5,7,9,10) up len
    by (auto simp: registry_ok_def bt_ok_insert split: if_splits)
next
  case started
  then show ?thesis
    using registry_ok_start [OF registry_ok_forget [OF assms(1)] _ started(3)] assms(2) by simp
qed (use assms(1) in \<open>auto intro: koh_inv\<close>)

text \<open>C18: an attach gets a session of its own peer's or a new one, and touches no other. Handed on, it
  is to a live session of the peer's, the one its number names (in this run of the server, for a
  redial) or, asked for none, the peer's that was attached last, and that session is now its
  latest. A new session takes the next number, which no session has, and only under the cap; a
  refusal forgets ended sessions and changes nothing else. A peer not allowed is refused, and
  only then for that reason.\<close>

theorem attach_is_the_peers_or_new:
  assumes "registry_ok g" and "g_last g < u64_max"
    and "registry_attach allows closed send now g peer pick launch = (g', a)"
  shows "registry_ok g' \<and> (allows peer \<longleftrightarrow> a \<noteq> Refused NotAuthorized) \<and>
    (case a of
       Handed n \<Rightarrow> is_named (forget_closed closed g) peer pick launch n \<and> send n = Sent \<and>
         only_at n (forget_closed closed g) g' \<and>
         (\<exists>l. bt_get (g_live g') n = Some l \<and> lv_peer l = peer \<and> lv_attached l = g_attaches g')
     | Started n \<Rightarrow> n = g_last g + 1 \<and> g_last g' = n \<and> bt_get (g_live g) n = None \<and>
         length (g_live (forget_closed closed g)) < g_max g \<and> only_at n (forget_closed closed g) g' \<and>
         (\<exists>l. bt_get (g_live g') n = Some l \<and> lv_peer l = peer \<and> lv_attached l = g_attaches g')
     | Refused e \<Rightarrow> g' = g \<or> g' = forget_closed closed g)"
proof -
  have ok: "registry_ok g'" using registry_ok_attach [OF assms] .
  have h: "registry_ok (forget_closed closed g)" using registry_ok_forget [OF assms(1)] .
  from assms show ?thesis
  proof (cases rule: registry_attach_cases)
    case (handed n l)
    then show ?thesis using ok h by (simp add: only_at_def bt_get_insert registry_ok_def)
  next
    case started
    have "\<not> closed (g_last g + 1) \<Longrightarrow> bt_get (g_live g) (g_last g + 1) = None"
      using assms(1) by (cases "bt_get (g_live g) (g_last g + 1)") (fastforce simp: registry_ok_def)+
    moreover have "bt_get (g_live g) (g_last g + 1) = None"
      using assms(1) by (cases "bt_get (g_live g) (g_last g + 1)") (fastforce simp: registry_ok_def)+
    ultimately show ?thesis
      using start_session_outcome [OF h _ started(3)] started(1,2) assms(2) ok h
      by (auto simp: only_at_def bt_get_insert registry_ok_def)
  qed (use ok in \<open>auto\<close>)
qed

theorem attach_is_the_peers_or_new_witness:
  "\<exists>g. registry_attach (\<lambda>_. True) (\<lambda>_. False) (\<lambda>_. Sent) 5 (registry_new 4 9 :: nat registry) 7 Latest
       \<lparr>la_program = None, la_cwd = None\<rparr> = (g, Started 1) \<and> registry_ok g"
proof -
  obtain g a where r: "registry_attach (\<lambda>_. True) (\<lambda>_. False) (\<lambda>_. Sent) 5 (registry_new 4 9 :: nat registry) 7 Latest
       \<lparr>la_program = None, la_cwd = None\<rparr> = (g, a)" by fastforce
  moreover have "a = Started 1"
    using r by (simp add: registry_attach_def registry_new_def forget_closed_def named_session_def
        start_session_def bt_retain_def Let_def u64_max_def)
  ultimately show ?thesis
    using attach_is_the_peers_or_new [OF registry_ok_new _ r] by (simp add: registry_new_def u64_max_def)
qed

section \<open>Runs of the registry\<close>

text \<open>Each turn with who is allowed then; the answers in order.\<close>

fun registry_run ::
  "'p registry \<Rightarrow> (('p \<Rightarrow> bool) \<times> 'p registry_op) list \<Rightarrow> 'p registry \<times> attached list" where
  "registry_run g [] = (g, [])"
| "registry_run g ((allows, op) # ops) =
     (let (g1, a) = registry_step allows g op; (g2, as) = registry_run g1 ops
      in (g2, (case a of None \<Rightarrow> as | Some x \<Rightarrow> x # as)))"

definition started_numbers :: "attached list \<Rightarrow> nat list" where
  "started_numbers as = List.map_filter (\<lambda>a. case a of Started n \<Rightarrow> Some n | _ \<Rightarrow> None) as"

lemma started_numbers_simps [simp]:
  "started_numbers [] = []" "started_numbers (Started n # as) = n # started_numbers as"
  "started_numbers (Refused e # as) = started_numbers as" "started_numbers (Handed n # as) = started_numbers as"
  by (simp_all add: started_numbers_def map_filter_simps)

lemma registry_step_spec:
  assumes "registry_ok g" and "g_last g < u64_max" and "registry_step allows g op = (g', a)"
  shows "registry_ok g' \<and> g_max g' = g_max g \<and>
    (case a of Some (Started n) \<Rightarrow> n = g_last g + 1 \<and> g_last g' = n | _ \<Rightarrow> g_last g' = g_last g)"
proof (cases op)
  case (Attach_Req closed send now peer pick launch)
  then obtain b where b: "registry_attach allows closed send now g peer pick launch = (g', b)" "a = Some b"
    using assms(3) by (auto simp: registry_step_def split: prod.splits)
  have "registry_ok g'" using registry_ok_attach [OF assms(1,2) b(1)] .
  from assms(1,2) b(1) this show ?thesis
  proof (cases rule: registry_attach_cases)
    case started
    have "g_last g' = g_last g + 1 \<and> g_max g' = g_max g"
      using started(2,3) assms(2) by (auto simp: start_session_def Let_def split: if_splits)
    then show ?thesis using \<open>registry_ok g'\<close> b started by simp
  qed (auto simp: b)
qed (use assms in \<open>auto simp: registry_step_def registry_list_def registry_end_def Let_def
      intro: registry_ok_forget registry_ok_end [unfolded registry_end_def]\<close>)

lemma registry_run_spec:
  assumes "registry_ok g" and "g_last g + length ops \<le> u64_max" and "registry_run g ops = (g', as)"
  shows "registry_ok g' \<and> g_max g' = g_max g \<and>
    started_numbers as = [g_last g + 1..<g_last g' + 1] \<and> g_last g \<le> g_last g'"
  using assms
proof (induction ops arbitrary: g as)
  case (Cons x ops)
  obtain allows op where x: "x = (allows, op)" by (cases x)
  obtain g1 a where g1: "registry_step allows g op = (g1, a)" by fastforce
  obtain bs where r: "registry_run g1 ops = (g', bs)" "as = (case a of None \<Rightarrow> bs | Some x \<Rightarrow> x # bs)"
    using Cons.prems(3) g1 x by (auto split: prod.splits)
  have s: "registry_ok g1" "g_max g1 = g_max g"
    "case a of Some (Started n) \<Rightarrow> n = g_last g + 1 \<and> g_last g1 = n | _ \<Rightarrow> g_last g1 = g_last g"
    using registry_step_spec [OF Cons.prems(1) _ g1] Cons.prems(2) by simp_all
  have "g_last g1 \<le> g_last g + 1" using s(3) by (auto split: option.splits attached.splits)
  then have IH: "registry_ok g'" "g_max g' = g_max g1"
    "started_numbers bs = [g_last g1 + 1..<g_last g' + 1]" "g_last g1 \<le> g_last g'"
    using Cons.IH [OF s(1) _ r(1)] Cons.prems(2) by simp_all
  then show ?case using s r(2)
    by (auto split: option.splits attached.splits simp: upt_conv_Cons)
qed simp

text \<open>whatever the registry is asked and whichever sessions end, there are never more than the cap,
  and the sessions started take the numbers 1, 2, 3 and so on: no number is ever used twice in
  a run of the server.\<close>

theorem session_numbers_are_never_reused:
  assumes "registry_run (registry_new cap run_id) ops = (g, as)" and "length ops \<le> u64_max"
  shows "length (g_live g) \<le> cap \<and> started_numbers as = [1..<g_last g + 1] \<and>
    (\<forall>n l. bt_get (g_live g) n = Some l \<longrightarrow> n \<in> set (started_numbers as))"
proof -
  have new: "g_last (registry_new cap run_id :: 'a registry) = 0" "g_max (registry_new cap run_id :: 'a registry) = cap"
    by (simp_all add: registry_new_def)
  have "registry_ok g \<and> g_max g = cap \<and> started_numbers as = [1..<g_last g + 1]"
    using registry_run_spec [OF registry_ok_new _ assms(1)] assms(2) by (simp add: new)
  moreover have "n \<in> set [1..<g_last g + 1]" if "registry_ok g" "bt_get (g_live g) n = Some l" for n l
    using that by (fastforce simp: registry_ok_def)
  ultimately show ?thesis by (metis registry_ok_def)
qed

theorem session_numbers_are_never_reused_witness:
  "\<exists>g. registry_run (registry_new 1 9 :: nat registry)
     [(\<lambda>_. True, Attach_Req (\<lambda>_. False) (\<lambda>_. Sent) 5 7 New \<lparr>la_program = None, la_cwd = None\<rparr>),
      (\<lambda>_. True, Attach_Req (\<lambda>_. False) (\<lambda>_. Sent) 6 8 New \<lparr>la_program = None, la_cwd = None\<rparr>)]
     = (g, [Started 1, Refused AtCapacity]) \<and> length (g_live g) \<le> 1"
proof -
  let ?ops = "[(\<lambda>_. True, Attach_Req (\<lambda>_. False) (\<lambda>_. Sent) 5 7 New \<lparr>la_program = None, la_cwd = None\<rparr>),
      (\<lambda>_. True, Attach_Req (\<lambda>_. False) (\<lambda>_. Sent) 6 8 New \<lparr>la_program = None, la_cwd = None\<rparr>)]"
  obtain g as where r: "registry_run (registry_new 1 9 :: nat registry) ?ops = (g, as)" by fastforce
  moreover have "as = [Started 1, Refused AtCapacity]"
    using r by (auto simp: registry_step_def registry_attach_def registry_new_def forget_closed_def
        named_session_def start_session_def bt_retain_def Let_def u64_max_def)
  ultimately show ?thesis
    using session_numbers_are_never_reused [OF r] by (simp add: u64_max_def)
qed

text \<open>No session is a peer's that is not allowed: once its sessions were ended and while it is refused.\<close>

definition none_of :: "'p \<Rightarrow> 'p registry \<Rightarrow> bool" where
  "none_of peer g \<longleftrightarrow> (\<forall>n l. bt_get (g_live g) n = Some l \<longrightarrow> lv_peer l \<noteq> peer)"

lemma none_of_retain:
  "registry_ok g \<Longrightarrow> none_of peer g \<Longrightarrow> none_of peer (g\<lparr>g_live := bt_retain keep (g_live g)\<rparr>)"
  using bt.keep_subset [of "g_live g" keep] by (simp add: none_of_def registry_ok_def) blast

lemma none_of_step:
  assumes "registry_ok g" and "g_last g < u64_max" and "none_of peer g" and "\<not> allows peer"
    and "registry_step allows g op = (g', a)"
  shows "none_of peer g'"
proof (cases op)
  case (Attach_Req closed send now p pick launch)
  then obtain b where b: "registry_attach allows closed send now g p pick launch = (g', b)"
    using assms(5) by (auto simp: registry_step_def split: prod.splits)
  have h: "registry_ok (forget_closed closed g)" using registry_ok_forget [OF assms(1)] .
  have n: "none_of peer (forget_closed closed g)"
    using assms(1,3) by (auto simp: none_of_def get_forget)
  from assms(1,2) b show ?thesis
  proof (cases rule: registry_attach_cases)
    case (handed m l)
    then show ?thesis using n h assms(4) by (auto simp: none_of_def bt_get_insert registry_ok_def split: if_splits)
  next
    case started
    then obtain l where l: "lv_peer l = p" "g_live g' = bt_insert (g_last g + 1) l (g_live (forget_closed closed g))"
      using start_session_outcome [OF h _ started(3)] assms(2) by auto
    have "p \<noteq> peer" using started(1) assms(4) by auto
    then show ?thesis using l n h unfolding none_of_def
      by (metis bt_get_insert option.inject)
  qed (use assms(3) n in auto)
qed (use assms in \<open>auto simp: registry_step_def registry_list_def registry_end_def forget_closed_def Let_def
      intro: none_of_retain\<close>)

text \<open>C19: a revoked peer has no sessions: after the end of its sessions, and while it is not allowed,
  no request of anyone's makes one its own again.\<close>

theorem revoked_peer_has_no_sessions:
  assumes "registry_ok g" and "g_last g + length ops \<le> u64_max"
    and "\<And>allows op. (allows, op) \<in> set ops \<Longrightarrow> \<not> allows peer"
    and "registry_run (registry_end g peer) ops = (g', as)"
    and "bt_get (g_live g') n = Some l"
  shows "lv_peer l \<noteq> peer"
proof -
  have "none_of peer g'"
    if "registry_ok h" "g_last h + length ops \<le> u64_max" "none_of peer h" "registry_run h ops = (g', as)"
    for h
    using that assms(3)
  proof (induction ops arbitrary: h as)
    case (Cons x ops)
    obtain allows op where x: "x = (allows, op)" by (cases x)
    obtain h1 a where h1: "registry_step allows h op = (h1, a)" by fastforce
    obtain bs where r: "registry_run h1 ops = (g', bs)" using Cons.prems(4) h1 x by (auto split: prod.splits)
    have s: "registry_ok h1" "case a of Some (Started n) \<Rightarrow> n = g_last h + 1 \<and> g_last h1 = n | _ \<Rightarrow> g_last h1 = g_last h"
      using registry_step_spec [OF Cons.prems(1) _ h1] Cons.prems(2) by simp_all
    then have "g_last h1 \<le> g_last h + 1" by (auto split: option.splits attached.splits)
    moreover have "none_of peer h1"
      by (rule none_of_step [OF Cons.prems(1) _ Cons.prems(3) _ h1]) (use Cons.prems x in auto)
    ultimately show ?case
      by (intro Cons.IH [OF s(1) _ _ r]) (use Cons.prems in auto)
  qed simp
  moreover have "none_of peer (registry_end g peer)"
    using assms(1) by (auto simp: none_of_def registry_end_def registry_ok_def bt_get_retain split: option.splits if_splits)
  moreover have "g_last (registry_end g peer) = g_last g" by (simp add: registry_end_def)
  ultimately have "none_of peer g'" using registry_ok_end [OF assms(1), of peer] assms(2,4) by metis
  then show ?thesis using assms(5) by (simp add: none_of_def)
qed

theorem revoked_peer_has_no_sessions_witness:
  "lv_peer \<lparr>lv_peer = 8, lv_started = 5, lv_attached = 1\<rparr> \<noteq> (7 :: nat)"
proof -
  let ?op = "Attach_Req (\<lambda>_. False) (\<lambda>_. Sent) 5 (8 :: nat) New \<lparr>la_program = None, la_cwd = None\<rparr>"
  obtain g as where r: "registry_run (registry_end (registry_new 2 9) 7) [((\<lambda>p. p = 8), ?op)] = (g, as)"
    by fastforce
  have "bt_get (g_live g) 1 = Some \<lparr>lv_peer = 8, lv_started = 5, lv_attached = 1\<rparr>"
    using r by (auto simp: registry_step_def registry_attach_def registry_new_def forget_closed_def
        named_session_def start_session_def bt_retain_def bt_get_def registry_end_def Let_def u64_max_def)
  from revoked_peer_has_no_sessions [OF registry_ok_new _ _ r this] show ?thesis
    by (auto simp: registry_new_def u64_max_def)
qed

end
