(* ===== verification/Koh_Session.thy ===== *)
theory Koh_Session
  imports Koh_Stream_Safety Koh_Reports Koh_Terminal Koh_Sessions
begin

text \<open>
  \<open>src/src/server/session.rs\<close>: a running session, \<open>Session\<close> and its \<open>run\<close>. One turn of the loop is
  its head (\<open>loop_head\<close>: the end, then what waits to be written) and then one branch of the
  \<open>select!\<close>, each a definition of its own (\<open>on_...\<close>) with the branch's guard in \<open>turn\<close>.

  What the world says is in the branch's arguments: the time, what the PTY read, took or said of
  its modes and of its program, and which client sent what. Events published to the attached
  clients are listed beside the new state. The emulator's parser is any \<open>vt\<close>; \<open>redraw\<close>, which paints
  a screen, is an argument. The loop's own variables are the fields \<open>l_...\<close>.
\<close>

section \<open>Bounds\<close>

definition INPUT_QUEUE :: nat where "INPUT_QUEUE = 256"
definition ASK_QUEUE :: nat where "ASK_QUEUE = 64"
definition EVENTS :: nat where "EVENTS = 128"
definition CONTROL_QUEUE :: nat where "CONTROL_QUEUE = 8"
definition OUTPUT_CHUNKS_AT_ONCE :: nat where "OUTPUT_CHUNKS_AT_ONCE = 64"
definition TTY_SETTLE :: nat where "TTY_SETTLE = millis 10"
definition HELD_MOST :: nat where "HELD_MOST = 2 ^ 20"

section \<open>Pieces as the wire carries them\<close>

definition shown_of :: "piece \<Rightarrow> shown option" where
  "shown_of p =
     (case p of Out bytes \<Rightarrow> Some (Shown_Out bytes) | Mark m \<Rightarrow> map_option Shown_Mark (mark_text_new m))"

text \<open>\<open>coalesce\<close>: what was joined so far, its last message open to more output.\<close>

definition coalesce_one :: "shown list \<Rightarrow> shown \<Rightarrow> shown list" where
  "coalesce_one joined s =
     (case (if joined = [] then None else Some (last joined), s) of
        (Some (Shown_Out before), Shown_Out further) \<Rightarrow>
          if sat_add64 (length before) (length further) \<le> MAX_OUT
          then butlast joined @ [Shown_Out (before @ further)] else joined @ [s]
      | _ \<Rightarrow> joined @ [s])"

definition coalesce :: "shown list \<Rightarrow> shown list" where
  "coalesce held = foldl coalesce_one [] held"

text \<open>The inner loop of \<open>redrawn\<close>: back to the start of a character.\<close>

fun back_to_start :: "byte list \<Rightarrow> nat \<Rightarrow> nat" where
  "back_to_start bs 0 = 0"
| "back_to_start bs (Suc n) =
     (if Suc n < length bs \<and> cont_byte (bs ! Suc n) then back_to_start bs n else Suc n)"

lemma back_to_start_le: "back_to_start bs n \<le> n"
  by (induction n) auto

function redrawn_loop :: "byte list \<Rightarrow> shown list" where
  "redrawn_loop rest =
     (if rest = [] then []
      else let at = max 1 (back_to_start rest (min (length rest) MAX_OUT)) in
           Shown_Out (take at rest) # redrawn_loop (drop at rest))"
  by pat_completeness auto

termination
  by (relation "measure length") auto

declare redrawn_loop.simps [simp del]

definition redrawn :: "piece \<Rightarrow> shown list" where
  "redrawn p = (case p of Out bytes \<Rightarrow> redrawn_loop bytes | _ \<Rightarrow> (case shown_of p of None \<Rightarrow> [] | Some s \<Rightarrow> [s]))"

section \<open>The session\<close>

datatype event =
    Show shown
  | Echo_Event nat input_seq
  | Top_Event nat

record shell_state =
  sh_activity :: "activity option"
  sh_running :: bool
  sh_finished :: nat
  sh_last_status :: "int option"

record session_status =
  ws_state :: shell_state
  ws_exited :: "nat option"
  ws_screen :: nat

record 'p session =
  s_num :: nat
  s_emu :: "'p server_terminal"
  s_filter :: filter
  s_status :: session_status
  s_attaches :: nat
  s_reports :: reports
  s_tty :: "tty_modes option"
  s_title :: "nat list"
  s_bells :: nat
  s_top :: "nat option"
  s_echo :: echo_ack
  s_seq :: input_seq
  s_screen_changes :: nat
  s_exited :: "nat option"
  s_typed_at :: "nat option"
  s_answered :: bool
  l_detached :: "nat option"
  l_pending :: pending_input
  l_ending :: ending
  l_settle :: "(nat \<times> nat) option"
  l_held :: "shown list"

definition shell_state_of :: "('p, 'r) vt \<Rightarrow> 'p session \<Rightarrow> shell_state" where
  "shell_state_of vt s =
     (let c = vt_commands vt (st_parser (s_emu s)) in
      \<lparr>sh_activity = reports_last (s_reports s), sh_running = cm_running c,
       sh_finished = cm_finished c, sh_last_status = cm_last_status c\<rparr>)"

definition publish_status :: "('p, 'r) vt \<Rightarrow> 'p session \<Rightarrow> 'p session" where
  "publish_status vt s =
     s\<lparr>s_status := \<lparr>ws_state = shell_state_of vt s, ws_exited = s_exited s, ws_screen = s_screen_changes s\<rparr>\<rparr>"

definition refresh_tty :: "tty_modes option \<Rightarrow> 'p session \<Rightarrow> 'p session \<times> event list" where
  "refresh_tty modes s =
     (case modes of
        Some m \<Rightarrow> if modes \<noteq> s_tty s then (s\<lparr>s_tty := modes\<rparr>, [Show (Tty m)]) else (s, [])
      | None \<Rightarrow> (s, []))"

text \<open>\<open>activity\<close> is what the PTY said of its program, \<open>waiting\<close> whether output waits to be read.\<close>

definition probe_session ::
  "('p, 'r) vt \<Rightarrow> nat \<Rightarrow> probe \<Rightarrow> activity \<Rightarrow> bool \<Rightarrow> 'p session \<Rightarrow> 'p session \<times> event list" where
  "probe_session vt now why activity waiting s =
     (let activity = (if waiting then Busy else activity);
          (reports, made) = probed (s_reports s) now why activity;
          s = s\<lparr>s_reports := reports\<rparr>
      in (publish_status vt s,
          case made of Some a \<Rightarrow> [Show (Report a (s_seq s))] | None \<Rightarrow> []))"

definition session_output :: "('p, 'r) vt \<Rightarrow> 'p session \<Rightarrow> byte list \<Rightarrow> 'p session" where
  "session_output vt s chunk =
     (let (f, pieces) = feed (s_filter s) chunk in
      s\<lparr>s_emu := process vt chunk (s_emu s), s_filter := f,
        l_held := l_held s @ List.map_filter shown_of pieces\<rparr>)"

definition session_release :: "('p, 'r) vt \<Rightarrow> 'p session \<Rightarrow> 'p session \<times> event list" where
  "session_release vt s =
     (let held = coalesce (l_held s);
          title = emu_title (s_emu s);
          titles = (if title \<noteq> s_title s then [Show (Title title)] else []);
          top = top_row vt (st_parser (s_emu s));
          tops = (if top \<noteq> s_top s then (case top of Some t \<Rightarrow> [Top_Event t] | None \<Rightarrow> []) else []);
          bells = bell_count (s_emu s);
          bell = (if bells \<noteq> s_bells s then [Show (Bell bells)] else [])
      in (s\<lparr>l_held := [], s_title := title, s_top := top, s_bells := bells\<rparr>,
          titles @ map Show held @ tops @ bell))"

definition host_resize :: "('p, 'r) vt \<Rightarrow> size \<Rightarrow> 'p server_terminal \<Rightarrow> pending_input \<Rightarrow>
     'p server_terminal \<times> pending_input \<times> bool" where
  "host_resize vt sz emu pend =
     (let (emu, changed) = emu_resize vt sz emu in
      if \<not> changed then (emu, pend, False)
      else (emu, case vt_resize_report vt (st_parser emu) of Some r \<Rightarrow> reply pend r | None \<Rightarrow> pend, True))"

datatype to_session = Events input_seq "input_event list" | Session_Colours wire_colours

definition host_apply ::
  "('p, 'r) vt \<Rightarrow> (vt_key \<Rightarrow> modifiers \<Rightarrow> key_press) \<Rightarrow> to_session \<Rightarrow> 'p session \<Rightarrow> 'p session" where
  "host_apply vt press input s =
     (let pend = l_pending s in
      case input of
        Events seq events \<Rightarrow>
          s\<lparr>l_pending := pend\<lparr>pi_bytes := encode_input vt press (s_emu s) events (pi_bytes pend),
                                  pi_seq := Some seq\<rparr>\<rparr>
      | Session_Colours c \<Rightarrow>
          (let (bytes, emu) = set_colours vt c (s_emu s) in
           s\<lparr>s_emu := emu, l_pending := pend\<lparr>pi_bytes := pi_bytes pend @ bytes\<rparr>\<rparr>))"

text \<open>Where a client begins, and a new attachment. The resize report the program is owed goes to the
  PTY at once, from an input of its own: nothing of the session depends on whether it is taken.\<close>

type_synonym 'p redraw = "'p \<Rightarrow> nat list \<Rightarrow> nat \<Rightarrow> piece list"

definition start :: "('p, 'r) vt \<Rightarrow> 'p redraw \<Rightarrow> 'p session \<Rightarrow> nat \<Rightarrow> shown list \<times> nat option" where
  "start vt redraw s history =
     (concat (map redrawn (redraw (st_parser (s_emu s)) (emu_title (s_emu s)) history)) @
        (case s_tty s of Some m \<Rightarrow> [Tty m] | None \<Rightarrow> []) @
        [Title (emu_title (s_emu s)), Bell (bell_count (s_emu s))] @
        (case reports_last (s_reports s) of Some a \<Rightarrow> [Report a (s_seq s)] | None \<Rightarrow> []) @
        (case s_exited s of Some code \<Rightarrow> [Exit code None] | None \<Rightarrow> []),
      top_row vt (st_parser (s_emu s)))"

definition history_since :: "('p, 'r) vt \<Rightarrow> 'p session \<Rightarrow> nat option \<Rightarrow> nat" where
  "history_since vt s seen =
     (case seen of
        None \<Rightarrow> 0
      | Some seen \<Rightarrow>
          (let p = st_parser (s_emu s); kept = kept_rows vt p in
           min (case position (\<lambda>r. row_id vt r = seen) (vt_main_rows vt p) of
                  None \<Rightarrow> kept | Some at \<Rightarrow> kept - at)
               ATTACH_HISTORY))"

definition client ::
  "('p, 'r) vt \<Rightarrow> 'p redraw \<Rightarrow> 'p session \<Rightarrow> size \<Rightarrow> nat \<Rightarrow> 'p session \<times> (shown list \<times> nat option)" where
  "client vt redraw s sz history =
     (let s = s\<lparr>s_attaches := sat_add64 (s_attaches s) 1, s_echo := bounded_new, s_seq := 0\<rparr>;
          (emu, pend, changed) = host_resize vt sz (s_emu s) pending_new;
          s = s\<lparr>s_emu := emu, s_reports := (if changed then owe (s_reports s) else s_reports s)\<rparr>
      in (s, start vt redraw s history))"

section \<open>The loop\<close>

text \<open>Several steps one after another, their events in order.\<close>

definition and_then ::
  "'s \<times> 'e list \<Rightarrow> ('s \<Rightarrow> 's \<times> 'e list) \<Rightarrow> 's \<times> 'e list" where
  "and_then r f = (let (s, es) = r; (s', es') = f s in (s', es @ es'))"

text \<open>The head of the loop: the end, once it is known; then what waits is written. \<open>left\<close> is whether
  keys are left unread in the terminal, if that is known.\<close>

definition session_ended ::
  "('p, 'r) vt \<Rightarrow> nat \<Rightarrow> bool option \<Rightarrow> 'p session \<Rightarrow> 'p session \<times> event list" where
  "session_ended vt now left s =
     (case (if s_exited s = None then ended (l_ending s) now else None) of
        None \<Rightarrow> (s, [])
      | Some exit \<Rightarrow>
          and_then (session_release vt s) (\<lambda>s.
            let code = exit_code exit;
                read = (if pending_is_empty (l_pending s) \<and> left = Some False then Some (s_seq s) else None)
            in (publish_status vt (s\<lparr>s_exited := Some code, l_pending := pending_new\<rparr>),
                [Show (Exit code read)])))"

definition session_flush :: "(byte list \<Rightarrow> write_error + unit) \<Rightarrow> nat \<Rightarrow> 'p session \<Rightarrow> 'p session" where
  "session_flush write now s =
     (if s_exited s \<noteq> None then s
      else
        let (pend, done) = pending_flush write (l_pending s); s = s\<lparr>l_pending := pend\<rparr> in
        case done of
          Some (Some seq) \<Rightarrow>
            s\<lparr>s_typed_at := Some now, s_answered := False, s_reports := owe (s_reports s),
              s_echo := written (s_echo s) seq now, s_seq := seq\<rparr>
        | _ \<Rightarrow> s)"

definition loop_head ::
  "('p, 'r) vt \<Rightarrow> nat \<Rightarrow> bool option \<Rightarrow> (byte list \<Rightarrow> write_error + unit) \<Rightarrow> 'p session \<Rightarrow> 'p session \<times> event list" where
  "loop_head vt now left write s =
     and_then (session_ended vt now left s) (\<lambda>s. (session_flush write now s, []))"

definition see_exit :: "exit option \<Rightarrow> nat \<Rightarrow> 'p session \<Rightarrow> 'p session" where
  "see_exit exit now s =
     s\<lparr>l_ending := (l_ending s)\<lparr>e_exit :=
        (case e_exit (l_ending s) of Some x \<Rightarrow> Some x | None \<Rightarrow> map_option (\<lambda>e. (e, now)) exit)\<rparr>\<rparr>"

definition on_output_end :: "nat \<Rightarrow> exit option \<Rightarrow> 'p session \<Rightarrow> 'p session" where
  "on_output_end now exit s = see_exit exit now (s\<lparr>l_ending := (l_ending s)\<lparr>e_output_ended := Some now\<rparr>\<rparr>)"

definition held_bytes :: "shown list \<Rightarrow> nat" where
  "held_bytes held = sum_list (map (\<lambda>s. case s of Shown_Out b \<Rightarrow> length b | _ \<Rightarrow> 0) held)"

definition settle_at :: "nat \<Rightarrow> nat \<Rightarrow> (nat \<times> nat) option" where
  "settle_at now wait = map_option (\<lambda>at. (at, wait)) (instant_add now wait)"

text \<open>A chunk of output and what else is there to read (\<open>also\<close>), at most \<open>OUTPUT_CHUNKS_AT_ONCE\<close>.\<close>

definition chunk_read ::
  "('p, 'r) vt \<Rightarrow> nat \<Rightarrow> byte list \<Rightarrow> byte list list \<Rightarrow> 'p session \<Rightarrow> 'p session" where
  "chunk_read vt now chunk also s =
     (let s = s\<lparr>l_ending := (l_ending s)\<lparr>e_last_output := Some now\<rparr>\<rparr>;
          s = foldl (session_output vt) s (chunk # take OUTPUT_CHUNKS_AT_ONCE also);
          (replies, emu) = take_host_replies (s_emu s)
      in s\<lparr>s_answered := True, s_screen_changes := (s_screen_changes s + 1) mod 2 ^ 64,
           s_emu := emu, l_pending := reply (l_pending s) replies\<rparr>)"

definition on_chunk ::
  "('p, 'r) vt \<Rightarrow> nat \<Rightarrow> byte list \<Rightarrow> byte list list \<Rightarrow> tty_modes option \<Rightarrow> activity \<Rightarrow> bool \<Rightarrow>
     'p session \<Rightarrow> 'p session \<times> event list" where
  "on_chunk vt now chunk also modes activity waiting s =
     (let held = held_bytes (l_held s);
          marks = vt_commands vt (st_parser (s_emu s));
          s = chunk_read vt now chunk also s;
          echo = (case s_typed_at s of Some at \<Rightarrow> now - at < TTY_SETTLE | None \<Rightarrow> False);
          marked = (vt_commands vt (st_parser (s_emu s)) \<noteq> marks)
      in and_then
           (if echo \<or> marked \<or> HELD_MOST < held then
              and_then (and_then (refresh_tty modes s) (session_release vt))
                (\<lambda>s. (s\<lparr>l_settle := settle_at now TTY_SETTLE\<rparr>, []))
            else (if l_settle s = None then s\<lparr>l_settle := settle_at now TTY_SETTLE\<rparr> else s, []))
           (\<lambda>s. if marked then probe_session vt now Marked activity waiting s
                else (publish_status vt s, [])))"

definition on_settle :: "('p, 'r) vt \<Rightarrow> nat \<Rightarrow> tty_modes option \<Rightarrow> 'p session \<Rightarrow> 'p session \<times> event list" where
  "on_settle vt now modes s =
     (let wait = (case l_settle s of None \<Rightarrow> TTY_TICK | Some (_, wait) \<Rightarrow> 2 * wait);
          s = s\<lparr>l_settle := (if wait < TTY_TICK then settle_at now wait else None)\<rparr>
      in and_then (refresh_tty modes s) (session_release vt))"

definition on_echo :: "('p, 'r) vt \<Rightarrow> nat \<Rightarrow> 'p session \<Rightarrow> 'p session \<times> event list" where
  "on_echo vt now s =
     (let (seq, echo) = promote now (s_echo s); s = s\<lparr>s_echo := echo\<rparr> in
      case seq of
        None \<Rightarrow> (s, [])
      | Some seq \<Rightarrow> and_then (session_release vt s) (\<lambda>s. (s, [Echo_Event (s_attaches s) seq])))"

definition on_input ::
  "('p, 'r) vt \<Rightarrow> (vt_key \<Rightarrow> modifiers \<Rightarrow> key_press) \<Rightarrow> nat \<Rightarrow> to_session \<Rightarrow> 'p session \<Rightarrow> 'p session" where
  "on_input vt press attach input s =
     (if attach = s_attaches s \<and> s_exited s = None then host_apply vt press input s else s)"

definition on_resize :: "('p, 'r) vt \<Rightarrow> nat \<Rightarrow> size \<Rightarrow> 'p session \<Rightarrow> 'p session" where
  "on_resize vt attach sz s =
     (if attach = s_attaches s \<and> s_exited s = None then
        let (emu, pend, changed) = host_resize vt sz (s_emu s) (l_pending s);
            s = s\<lparr>s_emu := emu, l_pending := pend\<rparr>
        in if changed
           then s\<lparr>s_reports := owe (s_reports s), s_screen_changes := (s_screen_changes s + 1) mod 2 ^ 64\<rparr>
           else s
      else s)"

text \<open>\<open>Session::detached\<close>: \<open>clients\<close> is how many are attached.\<close>

definition since_detached :: "nat \<Rightarrow> nat \<Rightarrow> 'p session \<Rightarrow> nat option" where
  "since_detached clients now s =
     (case l_detached s of Some at \<Rightarrow> Some at | None \<Rightarrow> if clients = 0 then Some now else None)"

definition on_attach ::
  "('p, 'r) vt \<Rightarrow> 'p redraw \<Rightarrow> nat \<Rightarrow> nat \<Rightarrow> size \<Rightarrow> nat \<Rightarrow> bool \<Rightarrow>
     'p session \<Rightarrow> 'p session \<times> event list" where
  "on_attach vt redraw clients now sz history taken s =
     (let since = since_detached clients now s in
      and_then (session_release vt s) (\<lambda>s.
        let (s, _) = client vt redraw s sz history in
        (s\<lparr>l_detached := (if taken then None else since)\<rparr>, [])))"

definition describe_session ::
  "('p, 'r) vt \<Rightarrow> nat \<Rightarrow> nat \<Rightarrow> 'p session \<Rightarrow> 'p session \<times> shell_state description" where
  "describe_session vt clients now s =
     (let s = s\<lparr>l_detached := since_detached clients now s\<rparr> in
      (s, \<lparr>ds_detached = l_detached s, ds_size = vt_size vt (st_parser (s_emu s)),
           ds_title = take MAX_TITLE (emu_title (s_emu s)), ds_exited = s_exited s,
           ds_state = shell_state_of vt s\<rparr>))"

definition on_tick :: "nat \<Rightarrow> exit option \<Rightarrow> tty_modes option \<Rightarrow> 'p session \<Rightarrow> 'p session \<times> event list" where
  "on_tick now exit modes s =
     (let s = see_exit exit now s in if l_detached s = None then refresh_tty modes s else (s, []))"

section \<open>A turn, and runs of them\<close>

datatype arm =
    Chunk_Arm nat "byte list" "byte list list" "tty_modes option" activity bool
  | Output_End_Arm nat "exit option"
  | Deadline_Arm nat
  | Settle_Arm nat "tty_modes option"
  | Echo_Arm nat
  | Input_Arm nat to_session
  | Redraw_Arm "nat option"
  | Ended_Arm
  | Resize_Arm nat size
  | Describe_Arm nat nat
  | Text_Arm bool
  | Attach_Arm nat nat size nat bool
  | Control_Closed_Arm
  | Clients_Gone_Arm nat
  | Retry_Arm
  | Tick_Arm nat "exit option" "tty_modes option"
  | Report_Arm bool nat activity bool
  | Poll_Arm bool nat nat activity bool
  | Ttl_Arm nat

definition past :: "nat option \<Rightarrow> nat \<Rightarrow> bool" where
  "past at now \<longleftrightarrow> (case at of Some t \<Rightarrow> t \<le> now | None \<Rightarrow> False)"

text \<open>\<open>probing\<close>: output written before a report goes first. \<open>unread\<close>: output waits in the queue.\<close>

definition probing :: "bool \<Rightarrow> 'p session \<Rightarrow> bool" where
  "probing unread s \<longleftrightarrow>
     s_exited s = None \<and> l_held s = [] \<and> (\<not> unread \<or> e_output_ended (l_ending s) \<noteq> None)"

text \<open>The guards of \<open>select!\<close>, and that what the branch waits for is there.\<close>

definition arm_ready :: "nat \<Rightarrow> arm \<Rightarrow> 'p session \<Rightarrow> bool" where
  "arm_ready ttl arm s =
     (let running = (s_exited s = None) in
      case arm of
        Chunk_Arm _ _ _ _ _ _ \<Rightarrow> running \<and> e_output_ended (l_ending s) = None
      | Output_End_Arm _ _ \<Rightarrow> running \<and> e_output_ended (l_ending s) = None
      | Deadline_Arm now \<Rightarrow> running \<and> past (map_option fst (deadline (l_ending s))) now
      | Settle_Arm now _ \<Rightarrow> running \<and> past (map_option fst (l_settle s)) now
      | Echo_Arm now \<Rightarrow> l_held s = [] \<and> past (echo_next (s_echo s)) now
      | Input_Arm _ _ \<Rightarrow> pending_is_empty (l_pending s) \<or> \<not> running
      | Ended_Arm \<Rightarrow> \<not> running
      | Clients_Gone_Arm _ \<Rightarrow> l_detached s = None
      | Retry_Arm \<Rightarrow> \<not> pending_is_empty (l_pending s) \<and> running
      | Tick_Arm _ _ _ \<Rightarrow> running
      | Report_Arm unread now _ _ \<Rightarrow> probing unread s \<and> past (due (s_reports s) now) now
      | Poll_Arm _ clients _ _ _ \<Rightarrow> running \<and> 0 < clients
      | Ttl_Arm now \<Rightarrow> past (Option.bind (l_detached s) (\<lambda>since. instant_add since ttl)) now
      | _ \<Rightarrow> True)"

text \<open>The branches that end the loop. An \<open>Ask::Ended\<close> while the program runs is taken and changes
  nothing: it is no turn of the model.\<close>

definition arm_ends :: "arm \<Rightarrow> bool" where
  "arm_ends arm = (case arm of Ended_Arm \<Rightarrow> True | Control_Closed_Arm \<Rightarrow> True | Ttl_Arm _ \<Rightarrow> True | _ \<Rightarrow> False)"

definition arm_step ::
  "('p, 'r) vt \<Rightarrow> (vt_key \<Rightarrow> modifiers \<Rightarrow> key_press) \<Rightarrow> 'p redraw \<Rightarrow> arm \<Rightarrow> 'p session \<Rightarrow> 'p session \<times> event list" where
  "arm_step vt press redraw arm s =
     (case arm of
        Chunk_Arm now chunk also modes activity waiting \<Rightarrow> on_chunk vt now chunk also modes activity waiting s
      | Output_End_Arm now exit \<Rightarrow> (on_output_end now exit s, [])
      | Settle_Arm now modes \<Rightarrow> on_settle vt now modes s
      | Echo_Arm now \<Rightarrow> on_echo vt now s
      | Input_Arm attach input \<Rightarrow> (on_input vt press attach input s, [])
      | Redraw_Arm seen \<Rightarrow> session_release vt s
      | Resize_Arm attach sz \<Rightarrow> (on_resize vt attach sz s, [])
      | Describe_Arm clients now \<Rightarrow> (fst (describe_session vt clients now s), [])
      | Attach_Arm clients now sz history taken \<Rightarrow> on_attach vt redraw clients now sz history taken s
      | Clients_Gone_Arm now \<Rightarrow> (s\<lparr>l_detached := Some now\<rparr>, [])
      | Tick_Arm now exit modes \<Rightarrow> on_tick now exit modes s
      | Report_Arm _ now activity waiting \<Rightarrow> probe_session vt now Poll activity waiting s
      | Poll_Arm unread _ now activity waiting \<Rightarrow>
          if probing unread s then probe_session vt now Poll activity waiting s else (s, [])
      | _ \<Rightarrow> (s, []))"

record turn =
  tu_now :: nat
  tu_left :: "bool option"
  tu_write :: "byte list \<Rightarrow> write_error + unit"
  tu_arm :: arm

text \<open>What a run needs beside the session: the parser, the keys' constructor, the redraw, the TTL.\<close>

record ('p, 'r) world =
  wo_vt :: "('p, 'r) vt"
  wo_press :: "vt_key \<Rightarrow> modifiers \<Rightarrow> key_press"
  wo_redraw :: "'p redraw"
  wo_ttl :: nat

definition turn_step :: "('p, 'r) world \<Rightarrow> turn \<Rightarrow> 'p session \<Rightarrow> ('p session \<times> event list) option" where
  "turn_step w t s =
     (let (s, es) = loop_head (wo_vt w) (tu_now t) (tu_left t) (tu_write t) s in
      if arm_ready (wo_ttl w) (tu_arm t) s
      then Some (and_then (s, es) (arm_step (wo_vt w) (wo_press w) (wo_redraw w) (tu_arm t)))
      else None)"

text \<open>A run of turns, none after one that ends the loop; \<open>None\<close> if one of them cannot be taken.\<close>

fun session_run :: "('p, 'r) world \<Rightarrow> turn list \<Rightarrow> 'p session \<Rightarrow> ('p session \<times> event list) option" where
  "session_run w [] s = Some (s, [])"
| "session_run w (t # ts) s =
     (case turn_step w t s of
        None \<Rightarrow> None
      | Some (s1, es) \<Rightarrow>
          if arm_ends (tu_arm t) then (if ts = [] then Some (s1, es) else None)
          else map_option (\<lambda>(s2, es'). (s2, es @ es')) (session_run w ts s1))"

text \<open>A session as \<open>start\<close> makes it, before its first client.\<close>

definition session_new :: "nat \<Rightarrow> 'p server_terminal \<Rightarrow> policy \<Rightarrow> 'p session" where
  "session_new num emu policy =
     \<lparr>s_num = num, s_emu = emu, s_filter = filter_new policy,
      s_status = \<lparr>ws_state = \<lparr>sh_activity = None, sh_running = False, sh_finished = 0, sh_last_status = None\<rparr>,
                  ws_exited = None, ws_screen = 0\<rparr>,
      s_attaches = 0, s_reports = reports_new, s_tty = None, s_title = [], s_bells = 0, s_top = None,
      s_echo = bounded_new, s_seq = 0, s_screen_changes = 0, s_exited = None, s_typed_at = None,
      s_answered = False, l_detached = None, l_pending = pending_new, l_ending = ending_new,
      l_settle = None, l_held = []\<rparr>"

text \<open>The first client attaches as the session starts, then \<open>run\<close> reads the PTY's modes.\<close>

definition session_begin ::
  "('p, 'r) world \<Rightarrow> size \<Rightarrow> nat \<Rightarrow> tty_modes option \<Rightarrow> 'p session \<Rightarrow> 'p session \<times> event list" where
  "session_begin w sz history modes s =
     refresh_tty modes (fst (client (wo_vt w) (wo_redraw w) s sz history))"

end
