(* ===== verification/Koh_Session_Proofs.thy ===== *)
theory Koh_Session_Proofs
  imports Koh_Session
begin

text \<open>
  What a session's clients see of its program: every byte the filter passes, once, in order,
  whatever turns the loop takes; the end after all of it; and that a redraw's messages are whole
  characters within their bound.
\<close>

section \<open>What is relayed\<close>

text \<open>A relayed byte, or a relayed mark.\<close>

definition shown_toks :: "shown \<Rightarrow> (byte + mark_text) list" where
  "shown_toks s = (case s of Shown_Out b \<Rightarrow> map Inl b | Shown_Mark m \<Rightarrow> [Inr m] | _ \<Rightarrow> [])"

abbreviation held_toks :: "shown list \<Rightarrow> (byte + mark_text) list" where
  "held_toks held \<equiv> concat (map shown_toks held)"

definition event_toks :: "event \<Rightarrow> (byte + mark_text) list" where
  "event_toks e = (case e of Show s \<Rightarrow> shown_toks s | _ \<Rightarrow> [])"

abbreviation relayed :: "event list \<Rightarrow> (byte + mark_text) list" where
  "relayed es \<equiv> concat (map event_toks es)"

text \<open>What the filter's pieces come to on the wire.\<close>

definition piece_toks :: "piece list \<Rightarrow> (byte + mark_text) list" where
  "piece_toks ps = held_toks (List.map_filter shown_of ps)"

lemma piece_toks_append [simp]: "piece_toks (ps @ qs) = piece_toks ps @ piece_toks qs"
  by (simp add: piece_toks_def List.map_filter_def)

lemma piece_toks_Nil [simp]: "piece_toks [] = []"
  by (simp add: piece_toks_def List.map_filter_def)

lemma shown_toks_simps [simp]:
  "shown_toks (Shown_Out b) = map Inl b" "shown_toks (Shown_Mark m) = [Inr m]"
  "shown_toks (Title t) = []" "shown_toks (Bell n) = []" "shown_toks (Tty y) = []"
  "shown_toks (Report a i) = []" "shown_toks (Exit c r) = []"
  by (simp_all add: shown_toks_def)

lemma event_toks_simps [simp]:
  "event_toks (Show s) = shown_toks s" "event_toks (Echo_Event a i) = []" "event_toks (Top_Event t) = []"
  by (simp_all add: event_toks_def)

lemma event_toks_shows [simp]: "event_toks \<circ> Show = shown_toks"
  by (rule ext) simp

lemma coalesce_one_toks: "held_toks (coalesce_one joined s) = held_toks joined @ shown_toks s"
proof (cases "joined = []")
  case False
  then obtain front before where j: "joined = front @ [before]" by (metis append_butlast_last_id)
  show ?thesis
    by (cases before; cases s) (auto simp: j coalesce_one_def)
qed (simp add: coalesce_one_def)

lemma coalesce_toks [simp]: "held_toks (coalesce held) = held_toks held"
proof -
  have "held_toks (foldl coalesce_one joined held) = held_toks joined @ held_toks held" for joined
    by (induction held arbitrary: joined) (simp_all add: coalesce_one_toks)
  then show ?thesis by (simp add: coalesce_def)
qed

definition is_exit :: "event \<Rightarrow> bool" where
  "is_exit e \<longleftrightarrow> (\<exists>code read. e = Show (Exit code read))"

lemma is_exit_simps [simp]:
  "is_exit (Show (Exit c r))" "\<not> is_exit (Show (Title t))" "\<not> is_exit (Show (Bell n))" "\<not> is_exit (Show (Tty y))"
  "\<not> is_exit (Show (Report a i))" "\<not> is_exit (Echo_Event n i)" "\<not> is_exit (Top_Event n)"
  by (simp_all add: is_exit_def)

definition is_relayed :: "shown \<Rightarrow> bool" where
  "is_relayed s = (case s of Shown_Out _ \<Rightarrow> True | Shown_Mark _ \<Rightarrow> True | _ \<Rightarrow> False)"

lemma is_relayed_simps [simp]: "is_relayed (Shown_Out b)" "is_relayed (Shown_Mark m)"
  by (simp_all add: is_relayed_def)

lemma relayed_no_exit: "is_relayed s \<Longrightarrow> \<not> is_exit (Show s)"
  by (auto simp: is_relayed_def is_exit_def)

abbreviation no_exit :: "shown list \<Rightarrow> bool" where
  "no_exit \<equiv> list_all is_relayed"

lemma coalesce_one_cases:
  "coalesce_one joined s = joined @ [s] \<or> (\<exists>b. coalesce_one joined s = butlast joined @ [Shown_Out b])"
proof (cases "joined = []")
  case False
  then show ?thesis by (cases "last joined"; cases s) (simp_all add: coalesce_one_def)
qed (simp add: coalesce_one_def)

lemma coalesce_one_no_exit:
  "no_exit joined \<Longrightarrow> is_relayed s \<Longrightarrow> no_exit (coalesce_one joined s)"
  using coalesce_one_cases [of joined s] by (auto simp: list_all_iff) (meson in_set_butlastD)

lemma coalesce_no_exit: "no_exit held \<Longrightarrow> no_exit (coalesce held)"
proof -
  have "no_exit (foldl coalesce_one joined held)" if "no_exit joined" "no_exit held" for joined
    using that by (induction held arbitrary: joined) (simp_all add: coalesce_one_no_exit)
  then show "no_exit held \<Longrightarrow> no_exit (coalesce held)" by (simp add: coalesce_def)
qed

section \<open>Steps that read no output\<close>

text \<open>
  A step that reads no output and does not end the program: what it relays was held, what it does
  not relay is held still, and the filter is as it was.
\<close>

definition quiet :: "'p session \<Rightarrow> 'p session \<times> event list \<Rightarrow> bool" where
  "quiet s r \<longleftrightarrow>
     s_filter (fst r) = s_filter s \<and> s_exited (fst r) = s_exited s \<and>
     relayed (snd r) @ held_toks (l_held (fst r)) = held_toks (l_held s) \<and>
     (no_exit (l_held s) \<longrightarrow> no_exit (l_held (fst r)) \<and> list_all (\<lambda>e. \<not> is_exit e) (snd r))"

lemma quiet_same:
  "s_filter s' = s_filter s \<Longrightarrow> s_exited s' = s_exited s \<Longrightarrow> l_held s' = l_held s \<Longrightarrow> quiet s (s', [])"
  by (simp add: quiet_def)

lemma quiet_and_then:
  assumes "quiet s r" and "\<And>s'. quiet s' (f s')"
  shows "quiet s (and_then r f)"
proof -
  obtain s' es s'' es' where r: "r = (s', es)" and f: "f s' = (s'', es')" by (metis surj_pair)
  show ?thesis using assms(1) assms(2) [of s'] by (auto simp: and_then_def r f quiet_def)
qed

lemma quiet_then_same:
  assumes "quiet s r" and "\<And>s'. s_filter (g s') = s_filter s'" and "\<And>s'. s_exited (g s') = s_exited s'"
    and "\<And>s'. l_held (g s') = l_held s'"
  shows "quiet s (and_then r (\<lambda>s'. (g s', [])))"
  by (rule quiet_and_then [OF assms(1)]) (simp add: quiet_same assms(2-4))

lemma quiet_from:
  assumes "quiet s' r" and "s_filter s' = s_filter s" and "s_exited s' = s_exited s" and "l_held s' = l_held s"
  shows "quiet s r"
  using assms by (simp add: quiet_def)

lemma publish_status_fields [simp]:
  "s_filter (publish_status vt s) = s_filter s" "s_exited (publish_status vt s) = s_exited s"
  "l_held (publish_status vt s) = l_held s" "l_ending (publish_status vt s) = l_ending s"
  by (simp_all add: publish_status_def)

lemma quiet_refresh: "quiet s (refresh_tty modes s)"
  by (auto simp: refresh_tty_def quiet_def split: option.splits)

lemma quiet_probe: "quiet s (probe_session vt now why activity waiting s)"
  by (auto simp: probe_session_def quiet_def Let_def split: prod.splits option.splits)

lemma side_channels:
  "relayed (if b then [Show (Title t)] else []) = []"
  "relayed (if b then [Show (Bell n)] else []) = []"
  "relayed (if b then (case tp of Some t \<Rightarrow> [Top_Event t] | None \<Rightarrow> []) else []) = []"
  "list_all (\<lambda>e. \<not> is_exit e) (if b then [Show (Title t)] else [])"
  "list_all (\<lambda>e. \<not> is_exit e) (if b then [Show (Bell n)] else [])"
  "list_all (\<lambda>e. \<not> is_exit e) (if b then (case tp of Some t \<Rightarrow> [Top_Event t] | None \<Rightarrow> []) else [])"
  by (cases b; cases tp; simp)+

lemma quiet_release: "quiet s (session_release vt s)"
proof -
  have no_exits: "list_all (\<lambda>e. \<not> is_exit e) (map Show (coalesce (l_held s)))" if "no_exit (l_held s)"
    using coalesce_no_exit [OF that] relayed_no_exit by (auto simp: list_all_iff)
  have held: "relayed (map Show (coalesce (l_held s))) = held_toks (l_held s)"
    by (simp only: map_map event_toks_shows coalesce_toks)
  show ?thesis
    unfolding quiet_def session_release_def Let_def fst_conv snd_conv
  proof (intro conjI impI, goal_cases)
    case 3
    show ?case
      by (simp only: map_append concat_append side_channels held) simp
  next
    case 5
    then show ?case by (simp only: list_all_append side_channels no_exits)
  qed simp_all
qed

lemma release_holds_none: "l_held (fst (session_release vt s)) = []"
  by (simp add: session_release_def Let_def)

lemma see_exit_fields [simp]:
  "s_filter (see_exit e now s) = s_filter s" "s_exited (see_exit e now s) = s_exited s"
  "l_held (see_exit e now s) = l_held s"
  by (simp_all add: see_exit_def)

lemma quiet_settle: "quiet s (on_settle vt now modes s)"
  unfolding on_settle_def Let_def
  by (intro quiet_and_then quiet_release) (rule quiet_from [OF quiet_refresh]; simp)

lemma quiet_echo: "quiet s (on_echo vt now s)"
proof -
  have "quiet s (and_then (session_release vt (s\<lparr>s_echo := q\<rparr>)) (\<lambda>s. (s, [Echo_Event (s_attaches s) seq])))" for q seq
    by (rule quiet_and_then, rule quiet_from [OF quiet_release]) (auto simp: quiet_def)
  then show ?thesis by (auto simp: on_echo_def Let_def quiet_same split: prod.splits option.splits)
qed

lemma quiet_input: "quiet s (on_input vt press attach input s, [])"
  by (rule quiet_same)
    (auto simp: on_input_def host_apply_def Let_def split: to_session.splits prod.splits)

lemma quiet_resize: "quiet s (on_resize vt attach sz s, [])"
  by (rule quiet_same) (auto simp: on_resize_def Let_def split: prod.splits)

lemma client_fields [simp]:
  "s_filter (fst (client vt redraw s sz history)) = s_filter s"
  "s_exited (fst (client vt redraw s sz history)) = s_exited s"
  "l_held (fst (client vt redraw s sz history)) = l_held s"
  by (simp_all add: client_def Let_def split: prod.splits)

lemma quiet_attach: "quiet s (on_attach vt redraw clients now sz history taken s)"
  unfolding on_attach_def Let_def split_beta
  by (rule quiet_then_same [OF quiet_release]) simp_all

lemma quiet_tick: "quiet s (on_tick now exit modes s)"
  unfolding on_tick_def Let_def
  using quiet_from [OF quiet_refresh [of "see_exit exit now s" modes]] by (simp add: quiet_same)

definition reads_output :: "arm \<Rightarrow> bool" where
  "reads_output arm = (case arm of Chunk_Arm _ _ _ _ _ _ \<Rightarrow> True | _ \<Rightarrow> False)"

lemma quiet_arm:
  assumes "\<not> reads_output arm"
  shows "quiet s (arm_step vt press redraw arm s)"
  using assms
  by (cases arm)
    (auto simp: arm_step_def reads_output_def describe_session_def on_output_end_def Let_def
      intro: quiet_same quiet_refresh quiet_probe quiet_release quiet_settle quiet_echo quiet_input
        quiet_resize quiet_attach quiet_tick)

section \<open>Output\<close>

lemma output_spec:
  assumes "read_all feed (s_filter s) cs = (f, ps)"
  shows "s_filter (foldl (session_output vt) s cs) = f \<and>
    s_exited (foldl (session_output vt) s cs) = s_exited s \<and>
    held_toks (l_held (foldl (session_output vt) s cs)) = held_toks (l_held s) @ piece_toks ps \<and>
    (no_exit (l_held s) \<longrightarrow> no_exit (l_held (foldl (session_output vt) s cs)))"
  using assms
proof (induction cs arbitrary: s ps)
  case (Cons c cs)
  obtain f1 p1 where 1: "feed (s_filter s) c = (f1, p1)" by fastforce
  obtain p2 where 2: "read_all feed f1 cs = (f, p2)" "ps = p1 @ p2"
    using Cons.prems 1 by (auto split: prod.splits)
  let ?s = "session_output vt s c"
  have s: "s_filter ?s = f1" "s_exited ?s = s_exited s" "l_held ?s = l_held s @ List.map_filter shown_of p1"
    using 1 by (simp_all add: session_output_def)
  have "no_exit (List.map_filter shown_of p1)"
    by (auto simp: list_all_iff List.map_filter_def shown_of_def split: piece.splits option.splits)
  then show ?case using Cons.IH [of ?s p2] 2 s by (simp add: piece_toks_def [of p1, symmetric])
qed (simp add: piece_toks_def List.map_filter_def)

text \<open>What a step does with the output read in it: the pieces of \<open>cs\<close> follow what was held.\<close>

definition relays :: "byte list list \<Rightarrow> 'p session \<Rightarrow> 'p session \<times> event list \<Rightarrow> bool" where
  "relays cs s r \<longleftrightarrow>
     (\<exists>f ps. read_all feed (s_filter s) cs = (f, ps) \<and> s_filter (fst r) = f \<and>
        relayed (snd r) @ held_toks (l_held (fst r)) = held_toks (l_held s) @ piece_toks ps)"

lemma quiet_relays: "quiet s r \<Longrightarrow> relays [] s r"
  by (simp add: quiet_def relays_def piece_toks_def List.map_filter_def)

lemma read_all_append:
  "read_all read s (cs @ ds) =
     (let (s1, e1) = read_all read s cs; (s2, e2) = read_all read s1 ds in (s2, e1 @ e2))"
  by (induction cs arbitrary: s) (auto simp: Let_def split: prod.splits)

lemma relays_then:
  assumes "relays cs s (s1, es)" and "relays ds s1 (s2, es')"
  shows "relays (cs @ ds) s (s2, es @ es')"
proof -
  obtain f ps where 1: "read_all feed (s_filter s) cs = (f, ps)" "s_filter s1 = f"
    "relayed es @ held_toks (l_held s1) = held_toks (l_held s) @ piece_toks ps"
    using assms(1) by (auto simp: relays_def)
  obtain g qs where 2: "read_all feed (s_filter s1) ds = (g, qs)" "s_filter s2 = g"
    "relayed es' @ held_toks (l_held s2) = held_toks (l_held s1) @ piece_toks qs"
    using assms(2) by (auto simp: relays_def)
  have "relayed (es @ es') @ held_toks (l_held s2) = held_toks (l_held s) @ piece_toks (ps @ qs)"
    using 1(3) 2(3) by (metis append.assoc concat_append map_append piece_toks_append)
  then show ?thesis using 1 2 by (auto simp: relays_def read_all_append)
qed

text \<open>A turn's chunk, and after it.\<close>

lemma chunk_read_spec:
  assumes "read_all feed (s_filter s) (chunk # take OUTPUT_CHUNKS_AT_ONCE rest) = (f, ps)"
  shows "s_filter (chunk_read vt now chunk rest s) = f \<and> s_exited (chunk_read vt now chunk rest s) = s_exited s \<and>
    held_toks (l_held (chunk_read vt now chunk rest s)) = held_toks (l_held s) @ piece_toks ps \<and>
    (no_exit (l_held s) \<longrightarrow> no_exit (l_held (chunk_read vt now chunk rest s)))"
proof -
  let ?s = "s\<lparr>l_ending := (l_ending s)\<lparr>e_last_output := Some now\<rparr>\<rparr>"
  have "read_all feed (s_filter ?s) (chunk # take OUTPUT_CHUNKS_AT_ONCE rest) = (f, ps)" using assms by simp
  from output_spec [OF this, of vt] show ?thesis
    by (simp add: chunk_read_def Let_def take_host_replies_def del: foldl_Cons)
qed

lemma on_chunk_quiet: "quiet (chunk_read vt now chunk rest s) (on_chunk vt now chunk rest modes activity waiting s)"
proof -
  let ?s = "chunk_read vt now chunk rest s"
  have "quiet ?s (and_then (and_then (refresh_tty modes ?s) (session_release vt))
      (\<lambda>s. (s\<lparr>l_settle := settle_at now TTY_SETTLE\<rparr>, [])))"
    by (intro quiet_then_same quiet_and_then quiet_refresh quiet_release) simp_all
  moreover have "quiet ?s (if l_settle ?s = None then ?s\<lparr>l_settle := settle_at now TTY_SETTLE\<rparr> else ?s, [])"
    by (rule quiet_same) simp_all
  moreover have "quiet t (if b then probe_session vt now Marked activity waiting t else (publish_status vt t, []))" for t b
    by (simp add: quiet_probe quiet_same)
  moreover have "quiet ?s (if b then r else q)" if "quiet ?s r" "quiet ?s q" for b r q
    using that by simp
  ultimately show ?thesis
    unfolding on_chunk_def Let_def by (intro quiet_and_then)
qed

definition arm_chunks :: "arm \<Rightarrow> byte list list" where
  "arm_chunks arm =
     (case arm of Chunk_Arm _ chunk rest _ _ _ \<Rightarrow> chunk # take OUTPUT_CHUNKS_AT_ONCE rest | _ \<Rightarrow> [])"

text \<open>A branch relays what it reads, and neither ends the program nor tells its end.\<close>

definition keeps_exit :: "'p session \<Rightarrow> 'p session \<times> event list \<Rightarrow> bool" where
  "keeps_exit s r \<longleftrightarrow> s_exited (fst r) = s_exited s \<and>
     (no_exit (l_held s) \<longrightarrow> no_exit (l_held (fst r)) \<and> list_all (\<lambda>e. \<not> is_exit e) (snd r))"

lemma quiet_keeps: "quiet s r \<Longrightarrow> keeps_exit s r"
  by (simp add: quiet_def keeps_exit_def)

lemma arm_effect:
  "relays (arm_chunks arm) s (arm_step vt press redraw arm s) \<and> keeps_exit s (arm_step vt press redraw arm s)"
proof (cases "reads_output arm")
  case False
  then have "arm_chunks arm = []" by (cases arm) (auto simp: arm_chunks_def reads_output_def)
  then show ?thesis using quiet_arm [OF False, of s vt press redraw] by (simp add: quiet_relays quiet_keeps)
next
  case True
  then obtain now chunk rest modes activity waiting where arm: "arm = Chunk_Arm now chunk rest modes activity waiting"
    by (cases arm) (auto simp: reads_output_def)
  obtain f ps where r: "read_all feed (s_filter s) (chunk # take OUTPUT_CHUNKS_AT_ONCE rest) = (f, ps)" by fastforce
  show ?thesis
    using chunk_read_spec [OF r, of vt now] on_chunk_quiet [of vt now chunk rest s modes activity waiting] r
    by (auto simp: arm arm_chunks_def arm_step_def relays_def keeps_exit_def quiet_def)
qed

section \<open>The head of the loop\<close>

lemma quiet_flush: "quiet s (session_flush write now s, [])"
  by (rule quiet_same) (auto simp: session_flush_def Let_def split: prod.splits option.splits)

text \<open>The head ends the program at most once: everything held goes first, and the end is told.\<close>

lemma head_cases:
  obtains (quiet) "quiet s (loop_head vt now left write s)"
  | (exit) exit read es where "s_exited s = None" "ended (l_ending s) now = Some exit"
      "snd (loop_head vt now left write s) = es @ [Show (Exit (exit_code exit) read)]"
      "relayed es = held_toks (l_held s)" "l_held (fst (loop_head vt now left write s)) = []"
      "s_exited (fst (loop_head vt now left write s)) = Some (exit_code exit)"
      "s_filter (fst (loop_head vt now left write s)) = s_filter s"
      "no_exit (l_held s) \<Longrightarrow> list_all (\<lambda>e. \<not> is_exit e) es"
proof (cases "if s_exited s = None then ended (l_ending s) now else None")
  case None
  then have "session_ended vt now left s = (s, [])" by (simp add: session_ended_def)
  then have "loop_head vt now left write s = (session_flush write now s, [])"
    by (simp add: loop_head_def and_then_def)
  then show thesis using quiet quiet_flush by metis
next
  case (Some exit)
  then have live: "s_exited s = None" "ended (l_ending s) now = Some exit" by (auto split: if_splits)
  obtain s1 es where r: "session_release vt s = (s1, es)" by fastforce
  let ?read = "if pending_is_empty (l_pending s1) \<and> left = Some False then Some (s_seq s1) else None"
  let ?s2 = "publish_status vt (s1\<lparr>s_exited := Some (exit_code exit), l_pending := pending_new\<rparr>)"
  have "loop_head vt now left write s = (session_flush write now ?s2, es @ [Show (Exit (exit_code exit) ?read)])"
    using Some r by (simp add: loop_head_def session_ended_def and_then_def Let_def)
  moreover have "session_flush write now ?s2 = ?s2" by (simp add: session_flush_def)
  ultimately have h: "loop_head vt now left write s = (?s2, es @ [Show (Exit (exit_code exit) ?read)])" by simp
  show thesis
    using exit [OF live] h r quiet_release [of s vt] release_holds_none [of vt s]
    by (simp add: quiet_def)
qed

lemma head_relays: "relays [] s (loop_head vt now left write s)"
proof (cases rule: head_cases [of s vt now left "write"])
  case (exit exit read es)
  then show ?thesis by (simp add: relays_def piece_toks_def List.map_filter_def)
qed (rule quiet_relays)

section \<open>Runs\<close>

definition chunks_of :: "turn list \<Rightarrow> byte list list" where
  "chunks_of ts = concat (map (\<lambda>t. arm_chunks (tu_arm t)) ts)"

lemma chunks_of_simps [simp]: "chunks_of [] = []" "chunks_of (t # ts) = arm_chunks (tu_arm t) @ chunks_of ts"
  by (simp_all add: chunks_of_def)

lemma turn_cases:
  assumes "turn_step w t s = Some (s1, es)"
  obtains sh eh ea where "loop_head (wo_vt w) (tu_now t) (tu_left t) (tu_write t) s = (sh, eh)"
    "arm_ready (wo_ttl w) (tu_arm t) sh"
    "arm_step (wo_vt w) (wo_press w) (wo_redraw w) (tu_arm t) sh = (s1, ea)" "es = eh @ ea"
proof -
  obtain sh eh where h: "loop_head (wo_vt w) (tu_now t) (tu_left t) (tu_write t) s = (sh, eh)" by fastforce
  obtain s2 ea where a: "arm_step (wo_vt w) (wo_press w) (wo_redraw w) (tu_arm t) sh = (s2, ea)" by fastforce
  have "arm_ready (wo_ttl w) (tu_arm t) sh \<and> s2 = s1 \<and> es = eh @ ea"
    using assms h a by (auto simp: turn_step_def and_then_def Let_def split: if_splits)
  then show thesis using that h a by metis
qed

lemma run_cases:
  assumes "session_run w (t # ts) s = Some (s', es)"
  obtains s1 e1 e2 where "turn_step w t s = Some (s1, e1)" "session_run w ts s1 = Some (s', e2)" "es = e1 @ e2"
  using assms by (auto split: option.splits prod.splits if_splits)

lemma turn_relays:
  assumes "turn_step w t s = Some (s1, es)"
  shows "relays (arm_chunks (tu_arm t)) s (s1, es)"
proof -
  from assms obtain sh eh ea where
    h: "loop_head (wo_vt w) (tu_now t) (tu_left t) (tu_write t) s = (sh, eh)"
    and a: "arm_step (wo_vt w) (wo_press w) (wo_redraw w) (tu_arm t) sh = (s1, ea)" and es: "es = eh @ ea"
    by (rule turn_cases)
  have "relays [] s (sh, eh)" using head_relays h by metis
  moreover have "relays (arm_chunks (tu_arm t)) sh (s1, ea)" using arm_effect a by metis
  ultimately show ?thesis using relays_then [of "[]" s sh eh] es by simp
qed

lemma run_relays:
  "session_run w ts s = Some (s', es) \<Longrightarrow> relays (chunks_of ts) s (s', es)"
proof (induction ts arbitrary: s es)
  case Nil
  then show ?case by (simp add: quiet_relays quiet_same)
next
  case (Cons t ts)
  from Cons.prems obtain s1 e1 e2 where "turn_step w t s = Some (s1, e1)" "session_run w ts s1 = Some (s', e2)" "es = e1 @ e2"
    by (rule run_cases)
  then show ?case using relays_then turn_relays Cons.IH by (metis chunks_of_simps(2))
qed

lemma begin_holds_none:
  assumes "session_begin w sz history modes (session_new num emu policy) = (s0, e0)"
  shows "s_filter s0 = filter_new policy" "l_held s0 = []" "s_exited s0 = None" "relayed e0 = []"
    "list_all (\<lambda>e. \<not> is_exit e) e0"
proof -
  let ?s = "fst (client (wo_vt w) (wo_redraw w) (session_new num emu policy) sz history)"
  have s: "s_filter ?s = filter_new policy" "l_held ?s = []" "s_exited ?s = None"
    by (simp_all add: session_new_def)
  have "quiet ?s (s0, e0)" using assms quiet_refresh [of ?s modes] by (simp add: session_begin_def)
  moreover have "l_held s0 = l_held ?s"
    using assms by (auto simp: session_begin_def refresh_tty_def split: option.splits if_splits)
  ultimately show "s_filter s0 = filter_new policy" "l_held s0 = []" "s_exited s0 = None" "relayed e0 = []"
    "list_all (\<lambda>e. \<not> is_exit e) e0" using s by (auto simp: quiet_def simp del: concat_eq_Nil_conv)
qed

text \<open>C21: nothing a program writes is lost, doubled or reordered on its way to the clients, whatever
  turns the session's loop takes (held for the modes, joined, released by an attach, an echo or
  the end): what was published, followed by what is held, is exactly what the filter makes of the
  output read, with the marks no terminal reads left out.\<close>

theorem session_relays_the_filter:
  assumes "session_begin w sz history modes (session_new num emu policy) = (s0, e0)"
    and "session_run w ts s0 = Some (s, es)" and "fed policy (chunks_of ts) = (f, ps)"
  shows "relayed es @ held_toks (l_held s) = piece_toks ps \<and> s_filter s = f"
  using run_relays [OF assms(2)] begin_holds_none [OF assms(1)] assms(3)
  by (auto simp: relays_def fed_def)

section \<open>The end is last\<close>

definition over :: "'p session \<Rightarrow> bool" where
  "over s \<longleftrightarrow> s_exited s \<noteq> None \<and> held_toks (l_held s) = [] \<and> no_exit (l_held s)"

definition silent :: "event list \<Rightarrow> bool" where
  "silent es \<longleftrightarrow> relayed es = [] \<and> list_all (\<lambda>e. \<not> is_exit e) es"

lemma silent_append [simp]: "silent (xs @ ys) \<longleftrightarrow> silent xs \<and> silent ys"
  by (auto simp: silent_def)

lemma over_quiet: "over s \<Longrightarrow> quiet s (s', es) \<Longrightarrow> over s' \<and> s_exited s' = s_exited s \<and> silent es"
  by (auto simp: over_def quiet_def silent_def simp del: concat_eq_Nil_conv)

lemma over_turn:
  assumes "over s" and "turn_step w t s = Some (s1, es)"
  shows "over s1 \<and> s_exited s1 = s_exited s \<and> silent es \<and> arm_chunks (tu_arm t) = []"
proof -
  from assms(2) obtain sh eh ea where
    h: "loop_head (wo_vt w) (tu_now t) (tu_left t) (tu_write t) s = (sh, eh)"
    and ready: "arm_ready (wo_ttl w) (tu_arm t) sh"
    and a: "arm_step (wo_vt w) (wo_press w) (wo_redraw w) (tu_arm t) sh = (s1, ea)" and es: "es = eh @ ea"
    by (rule turn_cases)
  have "quiet s (sh, eh)"
    using assms(1) h by (cases rule: head_cases [of s "wo_vt w" "tu_now t" "tu_left t" "tu_write t"])
      (auto simp: over_def)
  then have sh: "over sh" "s_exited sh = s_exited s" "silent eh" using over_quiet [OF assms(1)] by auto
  then have "\<not> reads_output (tu_arm t)"
    using ready by (cases "tu_arm t") (auto simp: over_def arm_ready_def reads_output_def)
  moreover from this have "arm_chunks (tu_arm t) = []"
    by (cases "tu_arm t") (auto simp: arm_chunks_def reads_output_def)
  ultimately show ?thesis using quiet_arm [of "tu_arm t" sh] a over_quiet [OF sh(1)] sh es
    by (metis silent_append)
qed

lemma over_run:
  "over s \<Longrightarrow> session_run w ts s = Some (s', es) \<Longrightarrow>
     over s' \<and> s_exited s' = s_exited s \<and> silent es \<and> chunks_of ts = []"
proof (induction ts arbitrary: s es)
  case Nil
  then show ?case by (simp add: silent_def)
next
  case (Cons t ts)
  from Cons.prems(2) obtain s1 e1 e2 where
    1: "turn_step w t s = Some (s1, e1)" "session_run w ts s1 = Some (s', e2)" "es = e1 @ e2"
    by (rule run_cases)
  from over_turn [OF Cons.prems(1) 1(1)] Cons.IH [OF _ 1(2)] show ?case by (simp add: 1(3))
qed

text \<open>Not ended: no end was told. Ended: it was told once, with the exit's code, and silence after.\<close>

definition told :: "'p session \<Rightarrow> event list \<Rightarrow> bool" where
  "told s es \<longleftrightarrow>
     (s_exited s = None \<and> no_exit (l_held s) \<and> list_all (\<lambda>e. \<not> is_exit e) es) \<or>
     (over s \<and> (\<exists>pre code read post. es = pre @ Show (Exit code read) # post \<and> s_exited s = Some code \<and>
        list_all (\<lambda>e. \<not> is_exit e) pre \<and> silent post))"

lemma run_told:
  "s_exited s = None \<Longrightarrow> no_exit (l_held s) \<Longrightarrow> session_run w ts s = Some (s', es) \<Longrightarrow> told s' es"
proof (induction ts arbitrary: s es)
  case Nil
  then show ?case by (simp add: told_def)
next
  case (Cons t ts)
  from Cons.prems(3) obtain s1 e1 e2 where
    1: "turn_step w t s = Some (s1, e1)" "session_run w ts s1 = Some (s', e2)" "es = e1 @ e2"
    by (rule run_cases)
  from 1(1) obtain sh eh ea where
    h: "loop_head (wo_vt w) (tu_now t) (tu_left t) (tu_write t) s = (sh, eh)"
    and ready: "arm_ready (wo_ttl w) (tu_arm t) sh"
    and a: "arm_step (wo_vt w) (wo_press w) (wo_redraw w) (tu_arm t) sh = (s1, ea)" and e1: "e1 = eh @ ea"
    by (rule turn_cases)
  have keeps: "keeps_exit sh (s1, ea)" using arm_effect a by metis
  show ?case
  proof (cases rule: head_cases [of s "wo_vt w" "tu_now t" "tu_left t" "tu_write t"])
    case quiet
    then have "s_exited sh = None" "no_exit (l_held sh)" "list_all (\<lambda>e. \<not> is_exit e) eh"
      using h Cons.prems by (auto simp: quiet_def)
    then have s1: "s_exited s1 = None" "no_exit (l_held s1)" "list_all (\<lambda>e. \<not> is_exit e) e1"
      using keeps e1 by (auto simp: keeps_exit_def)
    from Cons.IH [OF s1(1,2) 1(2)] have "told s' e2" .
    then show ?thesis
    proof (unfold told_def, elim disjE conjE exE, goal_cases)
      case 1
      then show ?case using s1(3) \<open>es = e1 @ e2\<close> by simp
    next
      case (2 pre code read post)
      then show ?case using s1(3) \<open>es = e1 @ e2\<close>
        by (intro disjI2 conjI exI [of _ "e1 @ pre"] exI [of _ code] exI [of _ read] exI [of _ post]) simp_all
    qed
  next
    case (exit x read es')
    have sh: "over sh" "s_exited sh = Some (exit_code x)" "eh = es' @ [Show (Exit (exit_code x) read)]"
      "list_all (\<lambda>e. \<not> is_exit e) es'"
      using exit h Cons.prems(2) by (auto simp: over_def)
    then have "\<not> reads_output (tu_arm t)"
      using ready by (cases "tu_arm t") (auto simp: over_def arm_ready_def reads_output_def)
    then have "quiet sh (s1, ea)" using quiet_arm [of "tu_arm t" sh] a by metis
    then have s1: "over s1" "s_exited s1 = s_exited sh" "silent ea" using over_quiet [OF sh(1)] by auto
    from over_run [OF s1(1) 1(2)] have "over s'" "s_exited s' = s_exited s1" "silent e2" by simp_all
    then show ?thesis
      unfolding told_def using sh s1 1(3) e1
      by (intro disjI2 conjI exI [of _ es'] exI [of _ "exit_code x"] exI [of _ read] exI [of _ "ea @ e2"]) simp_all
  qed
qed

text \<open>C22: a client is told the program's end once, and last: all the output read was published before
  it, and no output, mark or other end after it; the status told is the session's; and until it
  is told, the session has none.\<close>

theorem the_end_is_told_last:
  assumes "session_begin w sz history modes (session_new num emu policy) = (s0, e0)"
    and "session_run w ts s0 = Some (s, es)" and "fed policy (chunks_of ts) = (f, ps)"
  shows "(s_exited s = None \<and> list_all (\<lambda>e. \<not> is_exit e) es) \<or>
    (\<exists>pre code read post. es = pre @ Show (Exit code read) # post \<and> s_exited s = Some code \<and>
       list_all (\<lambda>e. \<not> is_exit e) (pre @ post) \<and> relayed pre = piece_toks ps \<and> relayed post = [])"
proof -
  note b = begin_holds_none [OF assms(1)]
  have t: "told s es" by (rule run_told [OF b(3) _ assms(2)]) (simp add: b(2))
  have r: "relayed es @ held_toks (l_held s) = piece_toks ps"
    using run_relays [OF assms(2)] b assms(3) by (auto simp: relays_def fed_def)
  from t show ?thesis
  proof (unfold told_def, elim disjE conjE exE, goal_cases)
    case (2 pre code read post)
    then show ?case using r
      by (intro disjI2 exI [of _ pre] exI [of _ code] exI [of _ read] exI [of _ post])
        (simp add: over_def silent_def del: concat_eq_Nil_conv)
  qed simp
qed

section \<open>A redraw's messages\<close>

lemma back_to_start_boundary:
  "is_char_boundary bs p \<Longrightarrow> p \<le> n \<Longrightarrow> n \<le> length bs \<Longrightarrow>
     p \<le> back_to_start bs n \<and> is_char_boundary bs (back_to_start bs n)"
proof (induction n)
  case (Suc n)
  show ?case
  proof (cases "Suc n < length bs \<and> cont_byte (bs ! Suc n)")
    case True
    then have "p \<noteq> Suc n" using Suc.prems(1) by (auto simp: is_char_boundary_def)
    then show ?thesis using True Suc by simp
  next
    case False
    then show ?thesis using Suc.prems by (auto simp: is_char_boundary_def)
  qed
qed simp

text \<open>Within the first four bytes of a text a second character starts, or it ends.\<close>

lemma second_boundary:
  assumes "list_all is_scalar cs" and "cs \<noteq> []"
  shows "\<exists>p. 1 \<le> p \<and> p \<le> 4 \<and> p \<le> length (utf8 cs) \<and> is_char_boundary (utf8 cs) p"
proof -
  obtain c ds where cs: "cs = c # ds" using assms(2) by (cases cs) auto
  obtain b :: byte and conts where c: "map of_nat (utf8_char c) = b # conts" "length conts \<le> 3"
    using utf8_char_conts [of c] assms(1) cs by auto
  have u: "utf8 cs = (b # conts) @ utf8 ds" by (simp add: cs utf8_Cons c(1))
  have "is_char_boundary (utf8 ds) 0" using start_is_boundary [of ds] assms(1) cs by simp
  then have "is_char_boundary (utf8 cs) (Suc (length conts))"
    by (auto simp: u is_char_boundary_def nth_append)
  then show ?thesis using c(2) u by (intro exI [of _ "Suc (length conts)"]) auto
qed

lemma redrawn_loop_Cons:
  "rest \<noteq> [] \<Longrightarrow> redrawn_loop rest =
     (let at = max 1 (back_to_start rest (min (length rest) MAX_OUT)) in
      Shown_Out (take at rest) # redrawn_loop (drop at rest))"
  by (subst redrawn_loop.simps) simp

lemma redrawn_loop_any:
  "held_toks (redrawn_loop bs) = map Inl bs \<and>
     (\<forall>s\<in>set (redrawn_loop bs). \<exists>b. s = Shown_Out b \<and> b \<noteq> [] \<and> length b \<le> MAX_OUT)"
proof (induction bs rule: redrawn_loop.induct)
  case (1 bs)
  show ?case
  proof (cases "bs = []")
    case False
    define n where "n = max 1 (back_to_start bs (min (length bs) MAX_OUT))"
    have n: "1 \<le> n" "n \<le> MAX_OUT"
      using back_to_start_le [of bs "min (length bs) MAX_OUT"] by (auto simp: n_def MAX_OUT_def)
    have r: "redrawn_loop bs = Shown_Out (take n bs) # redrawn_loop (drop n bs)"
      using False by (simp add: redrawn_loop_Cons n_def Let_def)
    have "map Inl (take n bs) @ map Inl (drop n bs) = (map Inl bs :: (byte + mark_text) list)"
      by (metis append_take_drop_id map_append)
    then show ?thesis using 1 [OF False] n False r unfolding n_def by auto
  qed (simp add: redrawn_loop.simps)
qed

lemma redrawn_loop_text:
  "list_all is_scalar cs \<Longrightarrow> bs = utf8 cs \<Longrightarrow>
     (\<forall>b. Shown_Out b \<in> set (redrawn_loop bs) \<longrightarrow> (\<exists>ds. list_all is_scalar ds \<and> b = utf8 ds))"
proof (induction bs arbitrary: cs rule: redrawn_loop.induct)
  case (1 bs)
  show ?case
  proof (cases "bs = []")
    case False
    then have ne: "cs \<noteq> []" using 1(3) by auto
    define m where "m = min (length bs) MAX_OUT"
    define n where "n = max 1 (back_to_start bs m)"
    obtain p where p: "1 \<le> p" "p \<le> 4" "p \<le> length bs" "is_char_boundary bs p"
      using second_boundary [OF 1(2) ne] 1(3) by auto
    have "p \<le> m" using p by (simp add: m_def MAX_OUT_def)
    then have "p \<le> back_to_start bs m \<and> is_char_boundary bs (back_to_start bs m)"
      using back_to_start_boundary [OF p(4)] by (simp add: m_def)
    then have b: "is_char_boundary bs n" using p(1) by (simp add: n_def max_def)
    then obtain k where k: "take n bs = utf8 (take k cs)" "drop n bs = utf8 (drop k cs)"
      using take_utf8 [OF 1(2)] 1(3) by auto
    have scal: "list_all is_scalar (take k cs)" "list_all is_scalar (drop k cs)"
      using 1(2) by (auto simp: list_all_iff dest: in_set_takeD in_set_dropD)
    have r: "redrawn_loop bs = Shown_Out (take n bs) # redrawn_loop (drop n bs)"
      using False by (simp add: redrawn_loop_Cons n_def m_def Let_def)
    show ?thesis
    proof (intro allI impI)
      fix b assume "Shown_Out b \<in> set (redrawn_loop bs)"
      then consider "b = take n bs" | "Shown_Out b \<in> set (redrawn_loop (drop n bs))" by (auto simp: r)
      then show "\<exists>ds. list_all is_scalar ds \<and> b = utf8 ds"
      proof cases
        case 1
        then show ?thesis using k(1) scal(1) by auto
      next
        case 2
        then show ?thesis
          using "1.IH" [OF False n_def [unfolded m_def] scal(2)] k(2) by auto
      qed
    qed
  qed (simp add: redrawn_loop.simps)
qed

text \<open>A redraw of any size goes out in messages, each nonempty and within what a message holds,
  that together are the redraw's bytes; and if it is text, each is whole characters. The loop
  ends on any bytes, text or not.\<close>

theorem redraw_is_cut_at_characters:
  assumes "list_all is_scalar cs"
  shows "held_toks (redrawn (Out (utf8 cs))) = map Inl (utf8 cs) \<and>
    (\<forall>s\<in>set (redrawn (Out (utf8 cs))). \<exists>ds. list_all is_scalar ds \<and> ds \<noteq> [] \<and> s = Shown_Out (utf8 ds) \<and>
       length (utf8 ds) \<le> MAX_OUT)"
proof -
  note a = redrawn_loop_any [of "utf8 cs"] and t = redrawn_loop_text [OF assms refl]
  have "\<exists>ds. list_all is_scalar ds \<and> ds \<noteq> [] \<and> s = Shown_Out (utf8 ds) \<and> length (utf8 ds) \<le> MAX_OUT"
    if "s \<in> set (redrawn_loop (utf8 cs))" for s
  proof -
    obtain b where b: "s = Shown_Out b" "b \<noteq> []" "length b \<le> MAX_OUT" using a \<open>s \<in> _\<close> by blast
    then obtain ds where "list_all is_scalar ds" "b = utf8 ds" using t \<open>s \<in> _\<close> by blast
    then show ?thesis using b by (intro exI [of _ ds]) auto
  qed
  then show ?thesis using a by (simp add: redrawn_def)
qed

theorem redraw_is_cut_at_characters_witness:
  "held_toks (redrawn (Out (utf8 [104, 233]))) = map Inl (utf8 [104, 233])"
  using redraw_is_cut_at_characters [of "[104, 233]"] by (simp add: is_scalar_def)

section \<open>Witnesses\<close>

definition plain_world :: "(nat list list, nat list) world" where
  "plain_world =
     \<lparr>wo_vt = plain_vt, wo_press = (\<lambda>k m. \<lparr>kp_key = k, kp_mods = m\<rparr>), wo_redraw = (\<lambda>_ _ _. []), wo_ttl = 9\<rparr>"

definition plain_policy :: policy where
  "plain_policy = \<lparr>p_marks = All_Marks, p_clipboard = False, p_links = True\<rparr>"

definition plain_session :: "nat list list session" where
  "plain_session = session_new 1 \<lparr>st_parser = [], st_observed = observed_new\<rparr> plain_policy"

definition plain_turn :: "nat \<Rightarrow> arm \<Rightarrow> turn" where
  "plain_turn now arm = \<lparr>tu_now = now, tu_left = Some False, tu_write = (\<lambda>_. Inr ()), tu_arm = arm\<rparr>"

lemma plain_begin:
  "session_begin plain_world \<lparr>rows = 24, cols = 80\<rparr> 0 None plain_session = (plain_session\<lparr>s_attaches := 1\<rparr>, [])"
  by (simp add: session_begin_def client_def host_resize_def emu_resize_def refresh_tty_def plain_world_def
      plain_vt_def plain_session_def session_new_def host_size_def clamp_dims_def clamp_def MIN_DIM_def
      MAX_DIM_def u64_max_def Let_def)

lemma idle_head:
  "s_exited s = None \<Longrightarrow> l_ending s = ending_new \<Longrightarrow> l_pending s = pending_new \<Longrightarrow>
     loop_head vt now left w s = (s, [])"
  by (simp add: loop_head_def session_ended_def ended_def deadline_def ending_new_def and_then_def
      session_flush_def pending_flush_def pending_is_empty_def pending_new_def Let_def)

theorem session_relays_the_filter_witness:
  "\<exists>s es f ps. session_run plain_world [plain_turn 5 (Chunk_Arm 5 (ascii ''hi'') [] None Busy False)]
       (plain_session\<lparr>s_attaches := 1\<rparr>) = Some (s, es) \<and>
     fed plain_policy [ascii ''hi''] = (f, ps) \<and> relayed es @ held_toks (l_held s) = piece_toks ps"
proof -
  let ?t = "plain_turn 5 (Chunk_Arm 5 (ascii ''hi'') [] None Busy False)" and ?s = "plain_session\<lparr>s_attaches := 1\<rparr>"
  have "session_run plain_world [?t] ?s \<noteq> None"
    by (simp add: turn_step_def idle_head plain_turn_def arm_ready_def arm_ends_def plain_session_def
        session_new_def ending_new_def and_then_def Let_def split: prod.splits)
  then obtain s es where r: "session_run plain_world [?t] ?s = Some (s, es)" by auto
  have c: "chunks_of [?t] = [ascii ''hi'']" by (simp add: plain_turn_def arm_chunks_def)
  obtain f ps where f: "fed plain_policy (chunks_of [?t]) = (f, ps)" by fastforce
  show ?thesis
    using session_relays_the_filter [OF plain_begin [unfolded plain_session_def] r [unfolded plain_session_def] f]
      r f c by auto
qed

theorem the_end_is_told_last_witness:
  "\<exists>s es. session_run plain_world [plain_turn 5 (Output_End_Arm 5 (Some (Exit_Status 3))), plain_turn 6 (Text_Arm True)]
       (plain_session\<lparr>s_attaches := 1\<rparr>) = Some (s, es) \<and>
     (\<exists>pre read. es = pre @ [Show (Exit 3 read)] \<and> relayed pre = [])"
proof -
  let ?ts = "[plain_turn 5 (Output_End_Arm 5 (Some (Exit_Status 3))), plain_turn 6 (Text_Arm True)]"
    and ?s = "plain_session\<lparr>s_attaches := 1\<rparr>"
  let ?s1 = "?s\<lparr>l_ending := \<lparr>e_exit = Some (Exit_Status 3, 5), e_output_ended = Some 5, e_last_output = None\<rparr>\<rparr>"
  have "turn_step plain_world (hd ?ts) ?s = Some (?s1, [])"
    by (simp add: turn_step_def idle_head plain_turn_def arm_ready_def arm_step_def on_output_end_def see_exit_def
        plain_session_def session_new_def ending_new_def and_then_def Let_def)
  moreover have "\<exists>s2. turn_step plain_world (hd (tl ?ts)) ?s1 = Some (s2, [Show (Exit 3 (Some 0))])"
    by (simp add: turn_step_def loop_head_def session_ended_def ended_def deadline_def session_release_def
        coalesce_def emu_title_def bell_count_def observed_new_def top_row_def kept_rows_def plain_vt_def
        plain_world_def plain_turn_def arm_ready_def arm_step_def plain_session_def session_new_def exit_code_def
        session_flush_def and_then_def pending_is_empty_def pending_new_def Let_def)
  ultimately obtain s where r: "session_run plain_world ?ts ?s = Some (s, [Show (Exit 3 (Some 0))])"
    by (auto simp: arm_ends_def plain_turn_def)
  obtain f ps where f: "fed plain_policy (chunks_of ?ts) = (f, ps)" by fastforce
  from the_end_is_told_last [OF plain_begin [unfolded plain_session_def] r [unfolded plain_session_def] f]
  show ?thesis using r by (intro exI [of _ s]) (auto simp: append_eq_Cons_conv Cons_eq_append_conv)
qed

end
