(* ===== verification/Koh_Names.thy ===== *)
theory Koh_Names
  imports Koh_Terminal
begin

text \<open>
  \<open>src/src/names.rs\<close>: the lists of saved servers and clients, as their files hold them. A file's
  text is its characters (code points). Endpoint ids, socket addresses and relay URLs are parsed
  and shown by libraries: an id is of any type \<open>'i\<close>, an address \<open>'a\<close>, a URL \<open>'u\<close>, with the record
  \<open>id_codec\<close> of the parsers and printers the code calls. The locking and writing of the file
  (\<open>KeyFile\<close>) and what is said on the terminal are not modelled; an error is its kind and its line.
\<close>

type_synonym chars = "nat list"

definition MAX_NAME :: nat where "MAX_NAME = 32"

datatype names_list = Servers | Clients

record ('i, 'a, 'u) id_codec =
  id_parse :: "chars \<Rightarrow> 'i option"
  id_show :: "'i \<Rightarrow> chars"
  addr_parse :: "chars \<Rightarrow> 'a option"
  addr_show :: "'a \<Rightarrow> chars"
  url_parse :: "chars \<Rightarrow> 'u option"
  url_show :: "'u \<Rightarrow> chars"

definition chars_of :: "string \<Rightarrow> chars" where
  "chars_of s = map of_char s"

section \<open>Routes, scopes and entries\<close>

datatype ('a, 'u) route = Direct 'a | Relay_Route 'u

datatype names_error =
    Expected nat | Not_A_Name nat | Bad_Id nat | Bad_Route nat | Bad_Scope nat | Named_Twice nat

text \<open>\<open>str::split_once\<close>.\<close>

definition split_once :: "'a \<Rightarrow> 'a list \<Rightarrow> ('a list \<times> 'a list) option" where
  "split_once c s =
     (case position (\<lambda>x. x = c) s of None \<Rightarrow> None | Some n \<Rightarrow> Some (take n s, drop (Suc n) s))"

abbreviation EQUALS :: nat where "EQUALS \<equiv> 61"

definition route_parse :: "('i, 'a, 'u) id_codec \<Rightarrow> chars \<Rightarrow> ('a, 'u) route option" where
  "route_parse c word =
     (case split_once EQUALS word of
        Some (key, rest) \<Rightarrow>
          if key = chars_of ''direct'' then map_option Direct (addr_parse c rest)
          else if key = chars_of ''relay'' then map_option Relay_Route (url_parse c rest)
          else None
      | None \<Rightarrow> None)"

definition route_show :: "('i, 'a, 'u) id_codec \<Rightarrow> ('a, 'u) route \<Rightarrow> chars" where
  "route_show c r =
     (case r of
        Direct a \<Rightarrow> chars_of ''direct='' @ addr_show c a
      | Relay_Route u \<Rightarrow> chars_of ''relay='' @ url_show c u)"

record scope =
  sc_cp :: "chars option"
  sc_exec :: "chars option"

definition scope_full :: scope where
  "scope_full = \<lparr>sc_cp = None, sc_exec = None\<rparr>"

definition is_full_scope :: "scope \<Rightarrow> bool" where
  "is_full_scope s \<longleftrightarrow> sc_cp s = None \<and> sc_exec s = None"

definition scope_dir :: "chars \<Rightarrow> chars option" where
  "scope_dir text =
     (if starts_with [47] text \<and> \<not> list_ex is_whitespace text \<and> [46, 46] \<notin> set (split_on 47 text)
      then Some text else None)"

definition scope_take :: "scope \<Rightarrow> chars \<Rightarrow> scope option" where
  "scope_take s word =
     (case split_once EQUALS word of
        Some (key, dir) \<Rightarrow>
          if key = chars_of ''cp'' then
            (if sc_cp s \<noteq> None then None else map_option (\<lambda>d. s\<lparr>sc_cp := Some d\<rparr>) (scope_dir dir))
          else if key = chars_of ''exec'' then
            (if sc_exec s \<noteq> None then None else map_option (\<lambda>d. s\<lparr>sc_exec := Some d\<rparr>) (scope_dir dir))
          else None
      | None \<Rightarrow> None)"

definition scope_show :: "scope \<Rightarrow> chars" where
  "scope_show s =
     (case sc_cp s of Some d \<Rightarrow> chars_of '' cp='' @ d | None \<Rightarrow> []) @
     (case sc_exec s of Some d \<Rightarrow> chars_of '' exec='' @ d | None \<Rightarrow> [])"

record ('i, 'a, 'u) entry =
  en_name :: chars
  en_id :: 'i
  en_route :: "('a, 'u) route option"
  en_scope :: scope

definition entry_show :: "('i, 'a, 'u) id_codec \<Rightarrow> ('i, 'a, 'u) entry \<Rightarrow> chars" where
  "entry_show c e =
     en_name e @ 32 # id_show c (en_id e) @
     (case en_route e of Some r \<Rightarrow> 32 # route_show c r | None \<Rightarrow> []) @ scope_show (en_scope e)"

datatype ('i, 'a, 'u) line = Entry "('i, 'a, 'u) entry" | Other chars

type_synonym ('i, 'a, 'u) names = "('i, 'a, 'u) line list"

definition entries :: "('i, 'a, 'u) names \<Rightarrow> ('i, 'a, 'u) entry list" where
  "entries ns = List.map_filter (\<lambda>l. case l of Entry e \<Rightarrow> Some e | Other _ \<Rightarrow> None) ns"

definition names_get :: "('i, 'a, 'u) names \<Rightarrow> chars \<Rightarrow> ('i, 'a, 'u) entry option" where
  "names_get ns name = List.find (\<lambda>e. en_name e = name) (entries ns)"

definition name_of :: "('i, 'a, 'u) names \<Rightarrow> 'i \<Rightarrow> chars option" where
  "name_of ns i = map_option en_name (List.find (\<lambda>e. en_id e = i) (entries ns))"

definition name_char :: "nat \<Rightarrow> bool" where
  "name_char c \<longleftrightarrow>
     48 \<le> c \<and> c \<le> 57 \<or> 65 \<le> c \<and> c \<le> 90 \<or> 97 \<le> c \<and> c \<le> 122 \<or> c \<in> {45, 95, 46}"

definition check_name :: "('i, 'a, 'u) id_codec \<Rightarrow> chars \<Rightarrow> bool" where
  "check_name c name \<longleftrightarrow>
     name \<noteq> [] \<and> length (utf8 name) \<le> MAX_NAME \<and> \<not> starts_with [45] name \<and>
     list_all name_char name \<and> id_parse c name = None"

section \<open>Parsing and rendering\<close>

text \<open>\<open>str::lines\<close>: a line's \<open>\n\<close>, and a \<open>\r\<close> before it, are no part of it.\<close>

definition strip_cr :: "chars \<Rightarrow> chars" where
  "strip_cr l = (if l \<noteq> [] \<and> last l = 13 then butlast l else l)"

definition lines_of :: "chars \<Rightarrow> chars list" where
  "lines_of text =
     (let ps = split_on 10 text in
      map strip_cr (butlast ps) @ (if last ps = [] then [] else [last ps]))"

definition trim :: "chars \<Rightarrow> chars" where
  "trim s = trim_end (dropWhile is_whitespace s)"

text \<open>\<open>str::split_whitespace\<close>: the pieces between whitespace that are not empty.\<close>

fun split_blank :: "chars \<Rightarrow> chars list" where
  "split_blank [] = [[]]"
| "split_blank (c # s) =
     (if is_whitespace c then [] # split_blank s
      else (case split_blank s of [] \<Rightarrow> [[c]] | w # ws \<Rightarrow> (c # w) # ws))"

definition words :: "chars \<Rightarrow> chars list" where
  "words s = filter (\<lambda>w. w \<noteq> []) (split_blank s)"

text \<open>The words after the name and the id: a server's route, a client's scope.\<close>

fun parse_rest ::
  "('i, 'a, 'u) id_codec \<Rightarrow> names_list \<Rightarrow> nat \<Rightarrow> ('a, 'u) route option \<Rightarrow> scope \<Rightarrow> chars list \<Rightarrow>
     names_error + ('a, 'u) route option \<times> scope" where
  "parse_rest c l n route scope [] = Inr (route, scope)"
| "parse_rest c l n route scope (w # ws) =
     (case l of
        Servers \<Rightarrow>
          if route = None then
            (case route_parse c w of
               None \<Rightarrow> Inl (Bad_Route n)
             | Some r \<Rightarrow> parse_rest c l n (Some r) scope ws)
          else Inl (Expected n)
      | Clients \<Rightarrow>
          (case scope_take scope w of
             None \<Rightarrow> Inl (Bad_Scope n)
           | Some s \<Rightarrow> parse_rest c l n route s ws))"

definition parse_entry ::
  "('i, 'a, 'u) id_codec \<Rightarrow> names_list \<Rightarrow> nat \<Rightarrow> chars \<Rightarrow> names_error + ('i, 'a, 'u) entry" where
  "parse_entry c l n trimmed =
     (case words trimmed of
        name # i # ws \<Rightarrow>
          if \<not> check_name c name then Inl (Not_A_Name n)
          else
            (case id_parse c i of
               None \<Rightarrow> Inl (Bad_Id n)
             | Some key \<Rightarrow>
                 bindE (parse_rest c l n None scope_full ws)
                   (\<lambda>(route, scope). Inr \<lparr>en_name = name, en_id = key, en_route = route, en_scope = scope\<rparr>))
      | _ \<Rightarrow> Inl (Expected n))"

fun parse_lines ::
  "('i, 'a, 'u) id_codec \<Rightarrow> names_list \<Rightarrow> nat \<Rightarrow> ('i, 'a, 'u) names \<Rightarrow> chars list \<Rightarrow>
     names_error + ('i, 'a, 'u) names" where
  "parse_lines c l n ns [] = Inr ns"
| "parse_lines c l n ns (line # rest) =
     (let trimmed = trim line in
      if trimmed = [] \<or> starts_with [35] trimmed then parse_lines c l (n + 1) (ns @ [Other line]) rest
      else
        bindE (parse_entry c l n trimmed) (\<lambda>e.
          if names_get ns (en_name e) \<noteq> None then Inl (Named_Twice n)
          else parse_lines c l (n + 1) (ns @ [Entry e]) rest))"

definition names_parse ::
  "('i, 'a, 'u) id_codec \<Rightarrow> names_list \<Rightarrow> chars \<Rightarrow> names_error + ('i, 'a, 'u) names" where
  "names_parse c l text = parse_lines c l 1 [] (lines_of text)"

definition line_show :: "('i, 'a, 'u) id_codec \<Rightarrow> ('i, 'a, 'u) line \<Rightarrow> chars" where
  "line_show c x = (case x of Entry e \<Rightarrow> entry_show c e | Other s \<Rightarrow> s)"

definition names_render :: "('i, 'a, 'u) id_codec \<Rightarrow> ('i, 'a, 'u) names \<Rightarrow> chars" where
  "names_render c ns = concat (map (\<lambda>x. line_show c x @ [10]) ns)"

section \<open>Changes\<close>

datatype change_error = Bad_Name | Already_Saved | Saved_As chars | Unknown_Name "chars list"

definition names_add ::
  "('i, 'a, 'u) id_codec \<Rightarrow> ('i, 'a, 'u) names \<Rightarrow> chars \<Rightarrow> 'i \<Rightarrow> ('a, 'u) route option \<Rightarrow> scope \<Rightarrow>
     change_error + ('i, 'a, 'u) names" where
  "names_add c ns name i route scope =
     (if \<not> check_name c name then Inl Bad_Name
      else if names_get ns name \<noteq> None then Inl Already_Saved
      else
        (case name_of ns i of
           Some other \<Rightarrow> Inl (Saved_As other)
         | None \<Rightarrow>
             Inr (ns @ [Entry \<lparr>en_name = name, en_id = i, en_route = route, en_scope = scope\<rparr>])))"

definition unknown :: "('i, 'a, 'u) names \<Rightarrow> change_error" where
  "unknown ns = Unknown_Name (map en_name (entries ns))"

definition names_remove :: "('i, 'a, 'u) names \<Rightarrow> chars \<Rightarrow> change_error + ('i, 'a, 'u) names \<times> 'i" where
  "names_remove ns name =
     (case names_get ns name of
        None \<Rightarrow> Inl (unknown ns)
      | Some e \<Rightarrow>
          Inr (filter (\<lambda>l. case l of Entry e \<Rightarrow> en_name e \<noteq> name | Other _ \<Rightarrow> True) ns, en_id e))"

text \<open>\<open>find_map\<close> to the first entry of that name, whose name is written over.\<close>

fun rename_first :: "('i, 'a, 'u) names \<Rightarrow> chars \<Rightarrow> chars \<Rightarrow> ('i, 'a, 'u) names option" where
  "rename_first [] old to = None"
| "rename_first (Other s # ns) old to = map_option ((#) (Other s)) (rename_first ns old to)"
| "rename_first (Entry e # ns) old to =
     (if en_name e = old then Some (Entry (e\<lparr>en_name := to\<rparr>) # ns)
      else map_option ((#) (Entry e)) (rename_first ns old to))"

definition names_rename ::
  "('i, 'a, 'u) id_codec \<Rightarrow> ('i, 'a, 'u) names \<Rightarrow> chars \<Rightarrow> chars \<Rightarrow> change_error + ('i, 'a, 'u) names" where
  "names_rename c ns old to =
     (if \<not> check_name c to then Inl Bad_Name
      else if names_get ns to \<noteq> None then Inl Already_Saved
      else (case rename_first ns old to of None \<Rightarrow> Inl (unknown ns) | Some ns' \<Rightarrow> Inr ns'))"

text \<open>\<open>short\<close>: an id's first and last four characters, an ellipsis between.\<close>

definition short :: "('i, 'a, 'u) id_codec \<Rightarrow> 'i \<Rightarrow> chars" where
  "short c i =
     (let s = id_show c i in
      (if 4 \<le> length s then take 4 s else []) @ 0x2026 # drop (length s - 4) s)"

text \<open>\<open>update\<close>'s change of the file's text, none as empty: the new text and what the change returns.\<close>

definition names_update ::
  "('i, 'a, 'u) id_codec \<Rightarrow> names_list \<Rightarrow> (('i, 'a, 'u) names \<Rightarrow> change_error + ('i, 'a, 'u) names \<times> 't) \<Rightarrow>
     chars option \<Rightarrow> (names_error + change_error) + chars \<times> 't" where
  "names_update c l change text =
     (case names_parse c l (case text of Some t \<Rightarrow> t | None \<Rightarrow> []) of
        Inl e \<Rightarrow> Inl (Inl e)
      | Inr ns \<Rightarrow> (case change ns of Inl e \<Rightarrow> Inl (Inr e) | Inr (ns', out) \<Rightarrow> Inr (names_render c ns', out)))"

definition unit_result :: "'e + 'b \<Rightarrow> 'e + 'b \<times> unit" where
  "unit_result r = (case r of Inl e \<Rightarrow> Inl e | Inr ns \<Rightarrow> Inr (ns, ()))"

section \<open>The commands\<close>

datatype ('i, 'a, 'u) names_op =
    List_Op
  | Add_Op chars 'i "('a, 'u) route option" scope
  | Remove_Op chars
  | Rename_Op chars chars

definition list_file :: "names_list \<Rightarrow> chars" where
  "list_file l = (case l of Servers \<Rightarrow> chars_of ''servers'' | Clients \<Rightarrow> chars_of ''clients'')"

definition list_noun :: "names_list \<Rightarrow> chars" where
  "list_noun l = (case l of Servers \<Rightarrow> chars_of ''server'' | Clients \<Rightarrow> chars_of ''client'')"

text \<open>\<open>run\<close>: the file's text afterwards and what is said; \<open>shown\<close> is the file's path for messages.\<close>

definition said_added ::
  "('i, 'a, 'u) id_codec \<Rightarrow> names_list \<Rightarrow> chars \<Rightarrow> chars \<Rightarrow> 'i \<Rightarrow> ('a, 'u) route option \<Rightarrow> scope \<Rightarrow> chars" where
  "said_added c l shown name i route scope =
     chars_of ''saved '' @ list_noun l @ [32] @ name @ chars_of '' ('' @ short c i @
     (case route of Some r \<Rightarrow> chars_of '', '' @ route_show c r | None \<Rightarrow> []) @
     (if scope_show scope = [] then [] else chars_of '', scoped to'' @ scope_show scope) @
     chars_of '') in '' @ shown @ [10]"

definition names_run ::
  "('i, 'a, 'u) id_codec \<Rightarrow> names_list \<Rightarrow> chars \<Rightarrow> ('i, 'a, 'u) names_op \<Rightarrow> chars option \<Rightarrow>
     (names_error + change_error) + chars option \<times> chars" where
  "names_run c l shown op text =
     (case op of
        List_Op \<Rightarrow>
          (case names_parse c l (case text of Some t \<Rightarrow> t | None \<Rightarrow> []) of
             Inl e \<Rightarrow> Inl (Inl e)
           | Inr ns \<Rightarrow>
               Inr (text,
                 (if entries ns = [] then
                    chars_of ''no '' @ list_noun l @ chars_of ''s saved in '' @ shown @
                    chars_of ''; add one with `koh '' @ list_file l @ chars_of '' add <name> <id>`'' @ [10]
                  else []) @
                 concat (map (\<lambda>e. entry_show c e @ [10]) (entries ns))))
      | Add_Op name i route scope \<Rightarrow>
          bindE (names_update c l (\<lambda>ns. unit_result (names_add c ns name i route scope)) text)
            (\<lambda>(t, _). Inr (Some t, said_added c l shown name i route scope))
      | Remove_Op name \<Rightarrow>
          bindE (names_update c l (\<lambda>ns. names_remove ns name) text)
            (\<lambda>(t, i). Inr (Some t,
               chars_of ''removed '' @ list_noun l @ [32] @ name @ chars_of '' ('' @ short c i @
               chars_of '') from '' @ shown @ [10]))
      | Rename_Op old to \<Rightarrow>
          bindE (names_update c l (\<lambda>ns. unit_result (names_rename c ns old to)) text)
            (\<lambda>(t, _). Inr (Some t,
               chars_of ''renamed '' @ list_noun l @ [32] @ old @ chars_of '' to '' @ to @
               chars_of '' in '' @ shown @ [10])))"

section \<open>Words and lines\<close>

definition word_ok :: "chars \<Rightarrow> bool" where
  "word_ok w \<longleftrightarrow> w \<noteq> [] \<and> \<not> list_ex is_whitespace w"

lemma whitespace_simps [simp]: "is_whitespace 32" "is_whitespace 10" "is_whitespace 13"
  by (simp_all add: is_whitespace_def)

lemma split_blank_word:
  "\<not> list_ex is_whitespace w \<Longrightarrow> split_blank w = [w]"
  by (induction w) auto

lemma split_blank_append:
  "\<not> list_ex is_whitespace w \<Longrightarrow> split_blank (w @ 32 # s) = w # split_blank s"
  by (induction w) auto

lemma words_join:
  "list_all word_ok ws \<Longrightarrow> words (join_with 32 ws) = ws"
proof (induction ws)
  case (Cons w ws)
  then show ?case
    by (cases "ws = []")
       (auto simp: words_def word_ok_def split_blank_word split_blank_append join_with_Cons)
qed (simp add: words_def)

lemma join_ends:
  "\<lbrakk>ws \<noteq> []; list_all word_ok ws\<rbrakk> \<Longrightarrow>
     join_with 32 ws \<noteq> [] \<and> \<not> is_whitespace (hd (join_with 32 ws)) \<and>
     \<not> is_whitespace (last (join_with 32 ws))"
proof (induction ws)
  case (Cons w ws)
  have w: "w \<noteq> []" "\<not> is_whitespace (hd w)" "\<not> is_whitespace (last w)"
    using Cons.prems by (auto simp: word_ok_def list_ex_iff)
  show ?case
    using Cons w by (cases "ws = []") (auto simp: join_with_Cons)
qed simp

lemma trim_id: "\<lbrakk>s \<noteq> []; \<not> is_whitespace (hd s); \<not> is_whitespace (last s)\<rbrakk> \<Longrightarrow> trim s = s"
proof -
  assume s: "s \<noteq> []" "\<not> is_whitespace (hd s)" "\<not> is_whitespace (last s)"
  have "dropWhile is_whitespace s = s"
    using s by (cases s) auto
  moreover have "dropWhile is_whitespace (rev s) = rev s"
    using s by (cases "rev s") (auto simp: hd_rev [symmetric])
  ultimately show ?thesis
    by (simp add: trim_def trim_end_def)
qed

lemma trim_end_snoc: "is_whitespace x \<Longrightarrow> trim_end (s @ [x]) = trim_end s"
  by (simp add: trim_end_def)

lemma trim_strip_cr: "trim (strip_cr s) = trim s"
proof (cases "s \<noteq> [] \<and> last s = 13")
  case True
  then obtain t where t: "s = t @ [13]"
    by (metis append_butlast_last_id)
  have "trim (t @ [13]) = trim t"
    by (cases "\<exists>x\<in>set t. \<not> is_whitespace x")
       (auto simp: trim_def dropWhile_append dropWhile_append3 trim_end_snoc dropWhile_eq_Nil_conv [THEN iffD2])
  then show ?thesis by (simp add: t strip_cr_def)
qed (auto simp: strip_cr_def)

lemma split_on_lines:
  "(\<And>x. x \<in> set ls \<Longrightarrow> 10 \<notin> set x) \<Longrightarrow> split_on 10 (concat (map (\<lambda>x. x @ [10]) ls)) = ls @ [[]]"
  for ls :: "chars list"
  by (induction ls) (auto simp: split_on_append)

lemma lines_of_concat:
  "(\<And>x. x \<in> set ls \<Longrightarrow> 10 \<notin> set x) \<Longrightarrow>
     lines_of (concat (map (\<lambda>x. x @ [10]) ls)) = map strip_cr ls"
  by (simp add: lines_of_def split_on_lines Let_def)

lemma strip_cr_subset: "set (strip_cr y) \<subseteq> set y"
  by (auto simp: strip_cr_def dest: in_set_butlastD)

lemma lines_of_piece:
  assumes "x \<in> set (lines_of text)"
  obtains y where "y \<in> set (split_on 10 text)" "set x \<subseteq> set y"
proof -
  let ?ps = "split_on 10 text"
  have "x \<in> strip_cr ` set ?ps \<or> x \<in> set ?ps"
    using assms last_in_set [of ?ps] unfolding lines_of_def Let_def
    by (auto simp del: last_in_set split: if_splits dest: in_set_butlastD)
  then show thesis
    using strip_cr_subset that by blast
qed

lemma lines_of_no_newline: "x \<in> set (lines_of text) \<Longrightarrow> 10 \<notin> set x"
  by (elim lines_of_piece) (meson split_on_no_sep subsetD)

lemma lines_of_subset: "x \<in> set (lines_of text) \<Longrightarrow> set x \<subseteq> set text"
  by (elim lines_of_piece) (meson split_on_subset subset_trans)

end
