(* ===== verification/Koh_Sync.thy ===== *)
theory Koh_Sync
  imports Koh_Request Koh_Glob
begin

text \<open>
  \<open>src/src/sync/mod.rs\<close>: the messages of a copy, what their types refuse, a copy's summary and
  failure, and the blocking reader of what a channel brings. A hash is 32 bytes of any kind
  (BLAKE3's are a library's), a path is its bytes, an \<open>io::Error\<close> is its kind. The tasks that join
  an end to its stream are not modelled, nor is \<open>hash_of\<close>.
\<close>

section \<open>Bounds\<close>

definition MAX_ITEM :: nat where "MAX_ITEM = 8 * 1024"
definition MAX_REPLY_ITEM :: nat where "MAX_REPLY_ITEM = 512 * 1024"
definition CHUNK :: nat where "CHUNK = 64 * 1024"
definition MAX_DEPTH :: nat where "MAX_DEPTH = 128"
definition WINDOW :: nat where "WINDOW = 64"
definition MAX_FILE_NAME :: nat where "MAX_FILE_NAME = 1024"
definition MAX_LINK :: nat where "MAX_LINK = MAX_PATH - 1"
definition CHANGES_SHOWN :: nat where "CHANGES_SHOWN = 1000"
definition CHANGES_SHOWN_BYTES :: nat where "CHANGES_SHOWN_BYTES = 256 * 1024"
definition PIPE_DEPTH :: nat where "PIPE_DEPTH = 8"
definition REPLY_DEPTH :: nat where "REPLY_DEPTH = WINDOW + 8"

section \<open>Names, links, modes and times\<close>

datatype fname = Name (name_bytes: "byte list")

definition name_new :: "byte list \<Rightarrow> string + fname" where
  "name_new bytes =
     (if bytes = [] \<or> bytes = [0x2e] \<or> bytes = [0x2e, 0x2e] then Inl ''a name that names no entry''
      else if MAX_FILE_NAME < length bytes then Inl ''a name over 1024 bytes''
      else if 0x2f \<in> set bytes \<or> 0 \<in> set bytes then Inl ''a name holding a / or NUL''
      else Inr (Name bytes))"

datatype link_target = LinkTarget (link_bytes: "byte list")

definition link_target_new :: "byte list \<Rightarrow> string + link_target" where
  "link_target_new bytes =
     (if bytes = [] \<or> 0 \<in> set bytes \<or> MAX_LINK < length bytes
      then Inl ''a symlink target empty, too long or holding a NUL''
      else Inr (LinkTarget bytes))"

datatype mode = Mode (mode_bits: "32 word")

definition mode_new :: "32 word \<Rightarrow> mode option" where
  "mode_new bits = (if 0xFFF < bits then None else Some (Mode bits))"

definition mode_landed :: "mode \<Rightarrow> 32 word" where
  "mode_landed m = and (mode_bits m) 0x3FF"

record time =
  t_secs :: nat
  t_nanos :: nat

definition time_new :: "nat \<Rightarrow> nat \<Rightarrow> time option" where
  "time_new secs nanos =
     (if 1000000000 \<le> nanos then None else Some \<lparr>t_secs = secs, t_nanos = nanos\<rparr>)"

datatype data_len = DataLen (data_len: nat)

definition data_len_new :: "nat \<Rightarrow> data_len option" where
  "data_len_new len = (if 1 \<le> len \<and> len \<le> CHUNK then Some (DataLen len) else None)"

datatype source_count = SourceCount (source_count: nat)

definition source_count_new :: "nat \<Rightarrow> source_count option" where
  "source_count_new count =
     (if 1 \<le> count \<and> count \<le> MAX_SOURCES then Some (SourceCount count) else None)"

section \<open>The messages\<close>

type_synonym file_id = "32 word"
type_synonym hash = "byte list"

record opts =
  o_keep_times :: bool
  o_delete :: bool
  o_dry_run :: bool
  o_excludes :: Koh_Glob.excludes

datatype copy = Get sources opts | Put remote_path source_count opts

record file_header =
  h_id :: file_id
  h_name :: fname
  h_mode :: mode
  h_mtime :: "time option"
  h_size :: nat

datatype fail_kind =
    F_NotFound | F_PermissionDenied | F_NotADirectory | F_IsADirectory | F_IsASymlink | F_NoSpace
  | F_ReadOnly | F_NameTooLong | F_TooDeep | F_NotCopyable | F_NoName | F_SeveralIntoOne | F_NoHome
  | F_OutOfScope | F_TooMany | F_Truncated | F_Malformed | F_Other

record failure =
  fl_kind :: fail_kind
  fl_path :: "byte list"

datatype item =
    Dir fname mode "time option"
  | Contents mode "time option"
  | File file_header
  | Symlink fname link_target
  | End_Dir
  | Skipped fname
  | Data_From file_id nat
  | Chunk_Of data_len
  | Sent_All
  | Same file_id
  | Gave_Up failure
  | All_Done
  | Differs file_id nat

datatype copy_answer = Want file_id nat "hash option" | Check file_id hash

datatype change_kind = New_File | Replaced_File | Deleted_Entry | Made_Dir | Made_Link

record change =
  c_kind :: change_kind
  c_path :: "byte list"
  c_size :: "nat option"
  c_was :: "nat option"

record summary =
  s_new :: nat
  s_replaced :: nat
  s_unchanged :: nat
  s_resumed :: nat
  s_sent_bytes :: nat
  s_dirs :: nat
  s_links :: nat
  s_deleted :: nat
  s_skipped :: nat
  s_changes :: "change list"
  s_unshown :: nat

datatype copy_reply = Answer copy_answer | End_Copy "failure + summary"

definition summary_none :: summary where
  "summary_none = \<lparr>s_new = 0, s_replaced = 0, s_unchanged = 0, s_resumed = 0, s_sent_bytes = 0, s_dirs = 0,
     s_links = 0, s_deleted = 0, s_skipped = 0, s_changes = [], s_unshown = 0\<rparr>"

definition change_kind_name :: "change_kind \<Rightarrow> string" where
  "change_kind_name k =
     (case k of New_File \<Rightarrow> ''new'' | Replaced_File \<Rightarrow> ''replaced'' | Deleted_Entry \<Rightarrow> ''deleted''
      | Made_Dir \<Rightarrow> ''dir'' | Made_Link \<Rightarrow> ''link'')"

definition files_written :: "summary \<Rightarrow> nat" where
  "files_written s = sat_add64 (s_new s) (s_replaced s)"

text \<open>\<open>to_string_lossy\<close>, as UTF-8.\<close>

definition lossy_bytes :: "byte list \<Rightarrow> byte list" where
  "lossy_bytes path = utf8 (utf8_lossy path)"

definition note_change :: "summary \<Rightarrow> change_kind \<Rightarrow> byte list \<Rightarrow> nat option \<Rightarrow> nat option \<Rightarrow> summary" where
  "note_change s kind path sz was =
     (let shown_bytes = sum_list (map (\<lambda>c. length (c_path c)) (s_changes s)) in
      if CHANGES_SHOWN \<le> length (s_changes s) \<or> CHANGES_SHOWN_BYTES \<le> shown_bytes
      then s\<lparr>s_unshown := sat_add64 (s_unshown s) 1\<rparr>
      else s\<lparr>s_changes := s_changes s @
             [\<lparr>c_kind = kind, c_path = cut_str MAX_PATH (lossy_bytes path), c_size = sz, c_was = was\<rparr>]\<rparr>)"

section \<open>Failures\<close>

definition failure_new :: "fail_kind \<Rightarrow> byte list \<Rightarrow> failure" where
  "failure_new kind path = \<lparr>fl_kind = kind, fl_path = take MAX_PATH path\<rparr>"

definition copy_cut :: failure where "copy_cut = failure_new F_Truncated []"
definition copy_malformed :: failure where "copy_malformed = failure_new F_Malformed []"

definition fail_kind_name :: "fail_kind \<Rightarrow> string" where
  "fail_kind_name k =
     (case k of
        F_NotFound \<Rightarrow> ''not_found'' | F_PermissionDenied \<Rightarrow> ''permission_denied''
      | F_NotADirectory \<Rightarrow> ''not_a_directory'' | F_IsADirectory \<Rightarrow> ''is_a_directory''
      | F_IsASymlink \<Rightarrow> ''is_a_symlink'' | F_NoSpace \<Rightarrow> ''no_space'' | F_ReadOnly \<Rightarrow> ''read_only''
      | F_NameTooLong \<Rightarrow> ''name_too_long'' | F_TooDeep \<Rightarrow> ''too_deep''
      | F_NotCopyable \<Rightarrow> ''not_copyable'' | F_NoName \<Rightarrow> ''no_name''
      | F_SeveralIntoOne \<Rightarrow> ''several_into_one'' | F_NoHome \<Rightarrow> ''no_home''
      | F_OutOfScope \<Rightarrow> ''out_of_scope'' | F_TooMany \<Rightarrow> ''too_many''
      | F_Truncated \<Rightarrow> ''truncated'' | F_Malformed \<Rightarrow> ''malformed'' | F_Other \<Rightarrow> ''failed'')"

text \<open>The kinds of an \<open>io::Error\<close> the code tells apart.\<close>

datatype io_kind =
    E_NotFound | E_PermissionDenied | E_NotADirectory | E_IsADirectory | E_StorageFull
  | E_QuotaExceeded | E_ReadOnlyFilesystem | E_InvalidFilename | E_AlreadyExists | E_UnexpectedEof
  | E_Else

definition fail_kind_of :: "io_kind \<Rightarrow> fail_kind" where
  "fail_kind_of e =
     (case map_of
        [(E_NotFound, F_NotFound), (E_PermissionDenied, F_PermissionDenied),
         (E_NotADirectory, F_NotADirectory), (E_IsADirectory, F_IsADirectory),
         (E_StorageFull, F_NoSpace), (E_QuotaExceeded, F_NoSpace),
         (E_ReadOnlyFilesystem, F_ReadOnly), (E_InvalidFilename, F_NameTooLong)] e of
        Some kind \<Rightarrow> kind | None \<Rightarrow> F_Other)"

definition failure_io :: "byte list \<Rightarrow> io_kind \<Rightarrow> failure" where
  "failure_io path e = failure_new (fail_kind_of e) path"

section \<open>Reading what a channel brings\<close>

text \<open>
  \<open>ChannelReader\<close>: the chunk being read, how far, and what the channel still brings before it
  closes. A read of at most \<open>n\<close> bytes gives none only if the channel closed, or \<open>n\<close> is 0.
\<close>

record channel_reader =
  rd_rx :: "byte list list"
  rd_chunk :: "byte list option"
  rd_at :: nat

definition channel_reader_new :: "byte list list \<Rightarrow> channel_reader" where
  "channel_reader_new rx = \<lparr>rd_rx = rx, rd_chunk = None, rd_at = 0\<rparr>"

definition chunk_rest :: "channel_reader \<Rightarrow> byte list" where
  "chunk_rest r = (case rd_chunk r of None \<Rightarrow> [] | Some c \<Rightarrow> drop (rd_at r) c)"

function channel_read :: "channel_reader \<Rightarrow> nat \<Rightarrow> channel_reader \<times> byte list" where
  "channel_read r n =
     (let rest = chunk_rest r in
      if rest \<noteq> [] then
        (let k = min (length rest) n in (r\<lparr>rd_at := sat_add64 (rd_at r) k\<rparr>, take k rest))
      else
        (case rd_rx r of
           [] \<Rightarrow> (r, [])
         | c # cs \<Rightarrow> channel_read (r\<lparr>rd_rx := cs, rd_chunk := Some c, rd_at := 0\<rparr>) n))"
  by pat_completeness auto
termination
  by (relation "measure (\<lambda>(r, _). length (rd_rx r))") auto

declare channel_read.simps [simp del]

section \<open>Properties\<close>

lemma name_new_Inr:
  "name_new bytes = Inr n \<longleftrightarrow>
     n = Name bytes \<and> bytes \<noteq> [] \<and> bytes \<noteq> [0x2e] \<and> bytes \<noteq> [0x2e, 0x2e] \<and>
     length bytes \<le> MAX_FILE_NAME \<and> 0x2f \<notin> set bytes \<and> 0 \<notin> set bytes"
  by (auto simp: name_new_def)

text \<open>What a dry run lists of its changes: all noted one after the other.\<close>

definition noted :: "(change_kind \<times> byte list \<times> nat option \<times> nat option) list \<Rightarrow> summary" where
  "noted cs = fold (\<lambda>(k, p, sz, was) s. note_change s k p sz was) cs summary_none"

definition shown_bytes :: "summary \<Rightarrow> nat" where
  "shown_bytes s = sum_list (map (\<lambda>c. length (c_path c)) (s_changes s))"

lemma note_change_bounds:
  assumes "length (s_changes s) \<le> CHANGES_SHOWN"
    and "shown_bytes s < CHANGES_SHOWN_BYTES + MAX_PATH"
    and "length (s_changes s) + s_unshown s = n" and "n < u64_max"
  shows "length (s_changes (note_change s k p sz was)) \<le> CHANGES_SHOWN \<and>
    shown_bytes (note_change s k p sz was) < CHANGES_SHOWN_BYTES + MAX_PATH \<and>
    length (s_changes (note_change s k p sz was)) + s_unshown (note_change s k p sz was) = Suc n"
  using assms length_cut_str [of MAX_PATH "lossy_bytes p"]
  by (auto simp: note_change_def shown_bytes_def Let_def)

lemma noted_snoc: "noted (cs @ [(k, p, sz, was)]) = note_change (noted cs) k p sz was"
  by (simp add: noted_def)

lemma noted_invariant:
  "length cs \<le> u64_max \<Longrightarrow>
     length (s_changes (noted cs)) \<le> CHANGES_SHOWN \<and>
     shown_bytes (noted cs) < CHANGES_SHOWN_BYTES + MAX_PATH \<and>
     length (s_changes (noted cs)) + s_unshown (noted cs) = length cs"
proof (induction cs rule: rev_induct)
  case Nil
  show ?case
    by (simp add: noted_def summary_none_def shown_bytes_def CHANGES_SHOWN_BYTES_def)
next
  case (snoc c cs)
  obtain k p sz was where c: "c = (k, p, sz, was)" by (cases c)
  show ?case
    using note_change_bounds [of "noted cs" "length cs" k p sz was] snoc
    by (simp add: c noted_snoc)
qed

text \<open>What a reader has still to give.\<close>

definition unread :: "channel_reader \<Rightarrow> byte list" where
  "unread r = chunk_rest r @ concat (rd_rx r)"

definition reader_ok :: "channel_reader \<Rightarrow> bool" where
  "reader_ok r \<longleftrightarrow>
     (case rd_chunk r of None \<Rightarrow> True | Some c \<Rightarrow> length c \<le> u64_max) \<and> (\<forall>c\<in>set (rd_rx r). length c \<le> u64_max)"

lemma channel_read_spec:
  "reader_ok r \<Longrightarrow>
     reader_ok (fst (channel_read r n)) \<and>
     unread r = snd (channel_read r n) @ unread (fst (channel_read r n)) \<and>
     length (snd (channel_read r n)) \<le> n \<and>
     (0 < n \<longrightarrow> snd (channel_read r n) = [] \<longrightarrow> unread r = [])"
proof (induction r n rule: channel_read.induct)
  case (1 r n)
  show ?case
  proof (cases "chunk_rest r = []")
    case False
    then obtain c where c: "rd_chunk r = Some c" "drop (rd_at r) c \<noteq> []"
      by (auto simp: chunk_rest_def split: option.splits)
    let ?k = "min (length (drop (rd_at r) c)) n"
    have k: "rd_at r + ?k \<le> u64_max"
      using c "1.prems" by (auto simp: reader_ok_def)
    have "channel_read r n = (r\<lparr>rd_at := rd_at r + ?k\<rparr>, take ?k (drop (rd_at r) c))"
      using c k by (subst channel_read.simps) (simp add: chunk_rest_def Let_def)
    moreover have "unread (r\<lparr>rd_at := rd_at r + ?k\<rparr>) = drop ?k (drop (rd_at r) c) @ concat (rd_rx r)"
      using c by (simp add: unread_def chunk_rest_def add.commute)
    moreover have "unread r = drop (rd_at r) c @ concat (rd_rx r)"
      using c by (simp add: unread_def chunk_rest_def)
    moreover have "n = 0 \<or> ?k \<noteq> 0"
      using c by auto
    ultimately show ?thesis
      using "1.prems" c by (auto simp: reader_ok_def simp del: drop_drop)
  next
    case True
    show ?thesis
    proof (cases "rd_rx r")
      case Nil
      then have "channel_read r n = (r, [])"
        using True by (subst channel_read.simps) (simp add: Let_def)
      then show ?thesis
        using Nil True "1.prems" by (simp add: unread_def)
    next
      case (Cons c cs)
      let ?r = "r\<lparr>rd_rx := cs, rd_chunk := Some c, rd_at := 0\<rparr>"
      have e: "channel_read r n = channel_read ?r n"
        using True Cons by (subst channel_read.simps) (simp add: Let_def)
      have u: "unread r = unread ?r" and ok: "reader_ok ?r"
        using True Cons "1.prems" by (auto simp: unread_def chunk_rest_def reader_ok_def)
      show ?thesis
        unfolding e u using "1.IH" [OF refl _ Cons] True ok by blast
    qed
  qed
qed

end
