(* ===== verification/Koh_Place.thy ===== *)
theory Koh_Place
  imports Koh_Sync
begin

text \<open>
  \<open>src/src/server/place.rs\<close>: where a request's paths are. The standard library's paths are
  modelled as far as the code uses them, on Unix: their components, joining and prefixes. What
  the file system says (\<open>is_dir\<close>, \<open>canonicalize\<close>) is a record of functions.
\<close>

section \<open>Paths\<close>

type_synonym path = "byte list"

abbreviation SEP :: byte where "SEP \<equiv> 0x2f"

datatype component = Root_Dir | Cur_Dir | Parent_Dir | Normal "byte list"

definition is_absolute :: "path \<Rightarrow> bool" where
  "is_absolute p \<longleftrightarrow> starts_with [SEP] p"

text \<open>\<open>Path::components\<close>: empty pieces and \<open>.\<close> go, but for a \<open>.\<close> that begins a relative path.\<close>

definition component_of :: "byte list \<Rightarrow> component option" where
  "component_of piece =
     (if piece = [] \<or> piece = [0x2e] then None
      else if piece = [0x2e, 0x2e] then Some Parent_Dir
      else Some (Normal piece))"

definition components :: "path \<Rightarrow> component list" where
  "components p =
     (let pieces = split_on SEP p in
      (if is_absolute p then [Root_Dir] else if hd pieces = [0x2e] then [Cur_Dir] else []) @
      List.map_filter component_of pieces)"

text \<open>\<open>Path::join\<close>: an absolute path replaces what it is joined to.\<close>

definition path_join :: "path \<Rightarrow> path \<Rightarrow> path" where
  "path_join a b =
     (if is_absolute b then b
      else if a \<noteq> [] \<and> last a \<noteq> SEP then a @ SEP # b
      else a @ b)"

text \<open>\<open>Path::starts_with\<close>, by components.\<close>

definition path_starts_with :: "path \<Rightarrow> path \<Rightarrow> bool" where
  "path_starts_with p base \<longleftrightarrow> starts_with (components base) (components p)"

text \<open>\<open>Path::strip_prefix\<close>, as the components that are left: a \<open>.\<close> among them never begins one.\<close>

definition path_strip_prefix :: "path \<Rightarrow> path \<Rightarrow> component list option" where
  "path_strip_prefix p base = strip_prefix (components base) (components p)"

section \<open>Where a path is\<close>

record place =
  pl_home :: "path option"
  pl_root :: "path option"

datatype resolved = Plain_Path path | Beneath path "fname list"

definition resolved_path :: "resolved \<Rightarrow> path" where
  "resolved_path r =
     (case r of
        Plain_Path p \<Rightarrow> p
      | Beneath root names \<Rightarrow> fold (\<lambda>n at. path_join at (name_bytes n)) names root)"

definition place_start :: "place \<Rightarrow> path option" where
  "place_start pl = (case pl_root pl of Some r \<Rightarrow> Some r | None \<Rightarrow> pl_home pl)"

abbreviation TILDE :: byte where "TILDE \<equiv> 0x7e"

text \<open>A component of a scoped key's path: a name, or none.\<close>

definition scoped_name :: "component \<Rightarrow> fname option" where
  "scoped_name c =
     (case c of Normal name \<Rightarrow> (case name_new name of Inr n \<Rightarrow> Some n | Inl _ \<Rightarrow> None) | _ \<Rightarrow> None)"

text \<open>\<open>collect\<close> into an \<open>Option\<close>.\<close>

fun collect :: "'a option list \<Rightarrow> 'a list option" where
  "collect [] = Some []"
| "collect (None # xs) = None"
| "collect (Some x # xs) = map_option ((#) x) (collect xs)"

definition resolve_home :: "path option \<Rightarrow> byte list \<Rightarrow> problem + resolved" where
  "resolve_home home bytes =
     (if starts_with [SEP] bytes then Inr (Plain_Path bytes)
      else
        let in_home =
              (if bytes = [] \<or> bytes = [TILDE] then []
               else (case strip_prefix [TILDE, SEP] bytes of Some r \<Rightarrow> r | None \<Rightarrow> bytes))
        in case home of
             None \<Rightarrow> Inl (problem_new NoHome (lossy_bytes bytes))
           | Some h \<Rightarrow> Inr (Plain_Path (if in_home = [] then h else path_join h in_home)))"

definition resolve_scoped :: "path \<Rightarrow> byte list \<Rightarrow> problem + resolved" where
  "resolve_scoped root bytes =
     (let out = Inl (problem_new OutOfScope (lossy_bytes bytes));
          rel = (if starts_with [SEP] bytes then path_strip_prefix bytes root
                 else if starts_with [TILDE] bytes then None
                 else Some (components bytes))
      in case rel of
           None \<Rightarrow> out
         | Some cs \<Rightarrow>
             (case collect (map scoped_name (filter (\<lambda>c. c \<noteq> Cur_Dir) cs)) of
                None \<Rightarrow> out
              | Some names \<Rightarrow> Inr (Beneath root names)))"

definition resolve :: "place \<Rightarrow> remote_path \<Rightarrow> problem + resolved" where
  "resolve pl path =
     (case pl_root pl of
        None \<Rightarrow> resolve_home (pl_home pl) (path_bytes path)
      | Some root \<Rightarrow> resolve_scoped root (path_bytes path))"

text \<open>What the file system says: whether a path is a directory, and the real path of one, its
  symlinks followed, or the error's text.\<close>

record fs =
  fs_is_dir :: "path \<Rightarrow> bool"
  fs_canonical :: "path \<Rightarrow> byte list + path"

definition place_cwd :: "fs \<Rightarrow> place \<Rightarrow> remote_path option \<Rightarrow> problem + path option" where
  "place_cwd fs pl cwd =
     (case cwd of
        None \<Rightarrow> Inr (place_start pl)
      | Some c \<Rightarrow>
          bindE (resolve pl c) (\<lambda>r.
            let dir = resolved_path r in
            if \<not> fs_is_dir fs dir then Inl (problem_new NoSuchDir (lossy_bytes dir))
            else case pl_root pl of
              None \<Rightarrow> Inr (Some dir)
            | Some root \<Rightarrow>
                (case fs_canonical fs dir of
                   Inl _ \<Rightarrow> Inl (problem_new NoSuchDir (lossy_bytes dir))
                 | Inr real \<Rightarrow>
                     (case fs_canonical fs root of
                        Inl e \<Rightarrow> Inl (problem_new NotFound (lossy_bytes root @ ascii '': '' @ e))
                      | Inr real_root \<Rightarrow>
                          if path_starts_with real real_root then Inr (Some dir)
                          else Inl (problem_new OutOfScope (lossy_bytes dir))))))"

section \<open>Paths by their components\<close>

lemma is_absolute_Cons: "is_absolute p \<longleftrightarrow> p \<noteq> [] \<and> hd p = SEP"
  by (cases p) (auto simp: is_absolute_def starts_with_def)

lemma map_filter_append: "List.map_filter f (xs @ ys) = List.map_filter f xs @ List.map_filter f ys"
  by (simp add: List.map_filter_def)

text \<open>A name adds its own component at the end, whatever it is joined to.\<close>

lemma components_snoc:
  assumes a: "a \<noteq> []" and n: "name_new b = Inr n"
  shows "components (path_join a b) = components a @ [Normal b]"
proof -
  have b: "b \<noteq> []" "b \<noteq> [0x2e]" "b \<noteq> [0x2e, 0x2e]" "SEP \<notin> set b"
    using n by (auto simp: name_new_Inr)
  have piece: "split_on SEP b = [b]" "component_of b = Some (Normal b)"
    using b by (simp_all add: split_on_sep_free component_of_def)
  have rel: "\<not> is_absolute b"
    using b by (auto simp: is_absolute_Cons dest: hd_in_set)
  have sep: "split_on SEP (x @ SEP # y) = split_on SEP x @ split_on SEP y" for x y
    by (induction x) (auto split: list.splits)
  show ?thesis
  proof (cases "last a = SEP")
    case False
    have e: "path_join a b = a @ SEP # b"
      using a rel False by (simp add: path_join_def)
    have "is_absolute (a @ SEP # b) = is_absolute a" "hd (split_on SEP a @ [b]) = hd (split_on SEP a)"
      using a by (simp_all add: is_absolute_Cons)
    then show ?thesis
      unfolding e components_def Let_def sep piece(1)
      by (simp add: map_filter_append map_filter_simps piece(2))
  next
    case True
    then obtain x where x: "a = x @ [SEP]"
      using a by (metis append_butlast_last_id)
    have e: "path_join a b = x @ SEP # b"
      using a rel True by (simp add: path_join_def x)
    have "is_absolute (x @ SEP # b) = is_absolute (x @ [SEP])"
      by (cases x) (simp_all add: is_absolute_Cons)
    moreover have "split_on SEP (x @ [SEP]) = split_on SEP x @ [[]]"
      using sep [of x "[]"] by simp
    moreover have nil: "component_of [] = None"
      by (simp add: component_of_def)
    ultimately show ?thesis
      unfolding e unfolding x components_def Let_def sep piece(1)
      using nil by (simp add: map_filter_append map_filter_simps piece(2))
  qed
qed

lemma path_join_nonempty: "a \<noteq> [] \<Longrightarrow> path_join a b \<noteq> []"
  by (simp add: path_join_def is_absolute_Cons)

lemma components_beneath:
  assumes "root \<noteq> []" and "\<forall>n\<in>set names. name_new (name_bytes n) = Inr n"
  shows "components (resolved_path (Beneath root names)) =
    components root @ map (\<lambda>n. Normal (name_bytes n)) names"
  using assms
proof (induction names rule: rev_induct)
  case (snoc n ns)
  let ?at = "resolved_path (Beneath root ns)"
  have "?at \<noteq> []"
    using snoc.prems(1) by (induction ns rule: rev_induct) (simp_all add: resolved_path_def path_join_nonempty)
  then show ?case
    using snoc components_snoc [of ?at "name_bytes n" n] by (simp add: resolved_path_def)
qed (simp add: resolved_path_def)

lemma collect_Some: "collect xs = Some ys \<longleftrightarrow> xs = map Some ys"
  by (induction xs arbitrary: ys rule: collect.induct) auto

lemma map_Some_inv:
  "\<lbrakk>map f ds = map Some ns; \<And>c n. f c = Some n \<Longrightarrow> c = g n\<rbrakk> \<Longrightarrow> ds = map g ns"
proof (induction ns arbitrary: ds)
  case (Cons n ns)
  then show ?case by (cases ds) auto
qed simp

lemma collect_None: "collect xs = None \<longleftrightarrow> None \<in> set xs"
  by (induction xs rule: collect.induct) auto

lemma scoped_name_Some:
  "scoped_name c = Some n \<longleftrightarrow> c = Normal (name_bytes n) \<and> name_new (name_bytes n) = Inr n"
  by (cases c; cases n) (auto simp: scoped_name_def name_new_def split: sum.splits if_splits)

lemma resolve_scoped_names:
  "resolve_scoped root bytes = Inr r \<Longrightarrow>
     \<exists>names. r = Beneath root names \<and> (\<forall>n\<in>set names. name_new (name_bytes n) = Inr n)"
proof -
  assume r: "resolve_scoped root bytes = Inr r"
  then obtain cs names where
    "collect (map scoped_name (filter (\<lambda>c. c \<noteq> Cur_Dir) cs)) = Some names" "r = Beneath root names"
    by (auto simp: resolve_scoped_def Let_def split: option.splits if_splits)
  then have "map scoped_name (filter (\<lambda>c. c \<noteq> Cur_Dir) cs) = map Some names"
    by (simp add: collect_Some)
  then have "n \<in> set names \<Longrightarrow> \<exists>c. scoped_name c = Some n" for n
    by (metis (no_types, lifting) in_set_conv_nth length_map nth_map)
  then show ?thesis
    using \<open>r = Beneath root names\<close> by (auto simp: scoped_name_Some)
qed

lemma resolve_beneath:
  assumes "pl_root pl = Some root" and "is_absolute root" and "resolve pl path = Inr r"
  shows "path_starts_with (resolved_path r) root"
proof -
  obtain names where "r = Beneath root names" "\<forall>n\<in>set names. name_new (name_bytes n) = Inr n"
    using assms resolve_scoped_names [of root "path_bytes path" r] by (auto simp: resolve_def)
  then show ?thesis
    using components_beneath [of root names] assms(2)
    by (simp add: path_starts_with_def starts_with_iff is_absolute_Cons)
qed

section \<open>Properties\<close>

text \<open>What a scoped path's components are: from the scope's directory.\<close>

definition scoped_components :: "path \<Rightarrow> byte list \<Rightarrow> component list option" where
  "scoped_components root bytes =
     (if is_absolute bytes then path_strip_prefix bytes root
      else if starts_with [TILDE] bytes then None
      else Some (components bytes))"

text \<open>C27: For a scoped key a path is taken or refused and nothing else: it is refused as out of
  scope when it is absolute and not under the scope's directory, when it begins with a tilde, or
  when any component of it is \<open>..\<close> or no name of an entry. Taken, it is under the scope's directory
  by its components, which are the ones asked for, with no \<open>..\<close> among them.\<close>

theorem scoped_paths_stay_beneath:
  assumes root: "pl_root pl = Some root" "is_absolute root"
  shows "case resolve pl path of
      Inl e \<Rightarrow> p_kind e = OutOfScope \<and>
        (case scoped_components root (path_bytes path) of
           None \<Rightarrow> True
         | Some cs \<Rightarrow> list_ex (\<lambda>c. c \<noteq> Cur_Dir \<and> scoped_name c = None) cs)
    | Inr r \<Rightarrow>
        \<exists>cs. scoped_components root (path_bytes path) = Some cs \<and>
          components (resolved_path r) = components root @ filter (\<lambda>c. c \<noteq> Cur_Dir) cs \<and>
          (\<forall>c\<in>set (drop (length (components root)) (components (resolved_path r))).
             \<exists>name. c = Normal name \<and> name_new name = Inr (Name name)) \<and>
          path_starts_with (resolved_path r) root"
proof (cases "resolve pl path")
  case (Inl e)
  then have e: "resolve_scoped root (path_bytes path) = Inl e"
    using root by (simp add: resolve_def)
  then have "p_kind e = OutOfScope"
    by (auto simp: resolve_scoped_def problem_new_def Let_def split: option.splits if_splits)
  moreover have "list_ex (\<lambda>c. c \<noteq> Cur_Dir \<and> scoped_name c = None) cs"
    if "scoped_components root (path_bytes path) = Some cs" for cs
  proof -
    have "collect (map scoped_name (filter (\<lambda>c. c \<noteq> Cur_Dir) cs)) = None"
      using e that by (auto simp: resolve_scoped_def scoped_components_def is_absolute_def Let_def
          split: option.splits if_splits)
    then show ?thesis
      by (auto simp: collect_None list_ex_iff)
  qed
  ultimately show ?thesis
    using Inl by (simp split: option.split)
next
  case (Inr r)
  then have res: "resolve_scoped root (path_bytes path) = Inr r"
    using root by (simp add: resolve_def)
  then obtain cs names where cs: "scoped_components root (path_bytes path) = Some cs"
    and names: "collect (map scoped_name (filter (\<lambda>c. c \<noteq> Cur_Dir) cs)) = Some names" "r = Beneath root names"
    by (auto simp: resolve_scoped_def scoped_components_def is_absolute_def Let_def
        split: option.splits if_splits)
  let ?cs = "filter (\<lambda>c. c \<noteq> Cur_Dir) cs"
  have m: "map scoped_name ?cs = map Some names"
    using names(1) by (simp add: collect_Some)
  have at: "?cs = map (\<lambda>n. Normal (name_bytes n)) names"
    by (rule map_Some_inv [OF m]) (simp add: scoped_name_Some)
  have ok: "\<forall>n\<in>set names. name_new (name_bytes n) = Inr n"
    using resolve_scoped_names [OF res] names(2) by auto
  have "root \<noteq> []"
    using root(2) by (simp add: is_absolute_Cons)
  then have comps: "components (resolved_path r) = components root @ ?cs"
    using components_beneath [OF _ ok] by (simp add: names(2) at)
  moreover have "\<forall>c\<in>set ?cs. \<exists>name. c = Normal name \<and> name_new name = Inr (Name name)"
    using ok by (auto simp: at name_new_Inr)
  ultimately show ?thesis
    using Inr cs by (simp add: path_starts_with_def starts_with_iff)
qed

lemma scoped_paths_stay_beneath_witness:
  "(case resolve \<lparr>pl_home = None, pl_root = Some (ascii ''/srv'')\<rparr> (RemotePath (ascii ''a/../b'')) of
      Inl e \<Rightarrow> p_kind e = OutOfScope | Inr r \<Rightarrow> False) \<and>
   (\<exists>r. resolve \<lparr>pl_home = None, pl_root = Some (ascii ''/srv'')\<rparr> (RemotePath (ascii ''./a'')) = Inr r \<and>
      path_starts_with (resolved_path r) (ascii ''/srv''))"
proof -
  let ?pl = "\<lparr>pl_home = None, pl_root = Some (ascii ''/srv'')\<rparr>"
  have abs: "is_absolute (ascii ''/srv'')"
    by (simp add: is_absolute_def starts_with_def ascii_def)
  have out: "\<not> okay (resolve ?pl (RemotePath (ascii ''a/../b'')))"
    and inside: "okay (resolve ?pl (RemotePath (ascii ''./a'')))"
    by (simp_all add: resolve_def resolve_scoped_def starts_with_def ascii_def components_def is_absolute_def
        component_of_def scoped_name_def name_new_def MAX_FILE_NAME_def Let_def List.map_filter_def)
  show ?thesis
    using scoped_paths_stay_beneath [of ?pl "ascii ''/srv''" "RemotePath (ascii ''a/../b'')"]
      scoped_paths_stay_beneath [of ?pl "ascii ''/srv''" "RemotePath (ascii ''./a'')"] abs out inside
    by (auto split: sum.splits)
qed

text \<open>C28: Where a scoped key's commands start: in the scope's directory, or in one that is beneath
  it by its name and, its symlinks followed, beneath it as the system finds it; else they are
  refused. What is given to start in is a directory.\<close>

theorem scoped_commands_start_beneath:
  assumes root: "pl_root pl = Some root" "is_absolute root"
    and cwd: "place_cwd fs pl cwd = Inr at"
  shows "\<exists>dir. at = Some dir \<and> path_starts_with dir root \<and>
    (dir = root \<and> cwd = None \<or>
     fs_is_dir fs dir \<and>
       (\<exists>real real_root. fs_canonical fs dir = Inr real \<and> fs_canonical fs root = Inr real_root \<and>
          path_starts_with real real_root))"
proof (cases cwd)
  case None
  then show ?thesis
    using cwd root by (auto simp: place_cwd_def place_start_def path_starts_with_def starts_with_iff)
next
  case (Some c)
  then obtain r where r: "resolve pl c = Inr r"
    using cwd by (auto simp: place_cwd_def bindE_Inr_iff)
  have "path_starts_with (resolved_path r) root"
    by (rule resolve_beneath [OF root r])
  then show ?thesis
    using cwd root Some r
    by (auto simp: place_cwd_def Let_def split: if_splits sum.splits)
qed

definition plain_fs :: fs where
  "plain_fs = \<lparr>fs_is_dir = (\<lambda>p. p = ascii ''/srv/a''), fs_canonical = Inr\<rparr>"

lemma scoped_commands_start_beneath_witness:
  "\<exists>dir. place_cwd plain_fs \<lparr>pl_home = None, pl_root = Some (ascii ''/srv'')\<rparr> (Some (RemotePath (ascii ''a''))) =
     Inr (Some dir) \<and> path_starts_with dir (ascii ''/srv'')"
proof -
  let ?pl = "\<lparr>pl_home = None, pl_root = Some (ascii ''/srv'')\<rparr>"
  have abs: "is_absolute (ascii ''/srv'')"
    by (simp add: is_absolute_def starts_with_def ascii_def)
  have "okay (place_cwd plain_fs ?pl (Some (RemotePath (ascii ''a''))))"
    by (simp add: place_cwd_def plain_fs_def resolve_def resolve_scoped_def starts_with_def ascii_def components_def
        is_absolute_def component_of_def scoped_name_def name_new_def MAX_FILE_NAME_def resolved_path_def
        path_join_def path_starts_with_def Let_def List.map_filter_def)
  then obtain at where at: "place_cwd plain_fs ?pl (Some (RemotePath (ascii ''a''))) = Inr at"
    by (cases "place_cwd plain_fs ?pl (Some (RemotePath (ascii ''a'')))") auto
  show ?thesis
    using scoped_commands_start_beneath [OF _ abs at] at by auto
qed

text \<open>A path for a full key that begins \<open>~//\<close> is not in the home: what is left after \<open>~/\<close> is
  absolute, and joining replaces the home by it.\<close>

lemma tilde_slash_slash:
  "resolve \<lparr>pl_home = Some h, pl_root = None\<rparr> (RemotePath (TILDE # SEP # SEP # p)) = Inr (Plain_Path (SEP # p))"
  by (simp add: resolve_def resolve_home_def starts_with_def strip_prefix_def path_join_def is_absolute_def)

end
