(* ===== verification/Koh_Gate.thy ===== *)
theory Koh_Gate
  imports Koh_Names Koh_Place Koh_Sessions Koh_Jobs
begin

text \<open>
  \<open>src/src/server/cli.rs\<close>: who is let in. The allowlist and its settling, whose reads are
  arguments; the handshakes under way and which is given up; the permits of connections and of
  those waiting, each event of the runtime a step; and what a request may do for its key's scope.
  A hash map of clients is its entries by key, its iteration order an argument where it matters.
  Binding the endpoint, the handshake's own exchange and the logging are not modelled.
\<close>

definition ACCEPT_HANDSHAKE_TIMEOUT :: nat where "ACCEPT_HANDSHAKE_TIMEOUT = millis 10000"
definition QUEUED_FOR :: nat where "QUEUED_FOR = ACCEPT_HANDSHAKE_TIMEOUT"
definition REQUEST_TIMEOUT :: nat where "REQUEST_TIMEOUT = ACCEPT_HANDSHAKE_TIMEOUT"
definition REVOKE_CHECK :: nat where "REVOKE_CHECK = millis 2000"
definition CONFIRM :: nat where "CONFIRM = millis 500"
definition MOST_PENDING :: nat where "MOST_PENDING = 256"
definition MAX_SCROLLBACK_BYTES :: nat where "MAX_SCROLLBACK_BYTES = 2 ^ 30"
definition MAX_JOB_LOG_BYTES :: nat where "MAX_JOB_LOG_BYTES = 64 * 2 ^ 20"

section \<open>The allowlist\<close>

type_synonym 'p clients = "('p, scope) btree"

text \<open>\<open>HashMap::extend\<close>: a later entry of a key replaces an earlier one.\<close>

definition extend_clients :: "('p::linorder) clients \<Rightarrow> ('p \<times> scope) list \<Rightarrow> 'p clients" where
  "extend_clients t kvs = fold (\<lambda>(k, v) t. bt_insert k v t) kvs t"

text \<open>\<open>Allowlist::read\<close>: \<open>saved\<close> is what reading the saved clients gives, if any are kept.\<close>

definition allowlist_read ::
  "('p::linorder) clients \<Rightarrow> ('e + ('p, 'a, 'u) names) option \<Rightarrow> 'e + 'p clients" where
  "allowlist_read given saved =
     (case saved of
        None \<Rightarrow> Inr (extend_clients [] given)
      | Some (Inl e) \<Rightarrow> Inl e
      | Some (Inr names) \<Rightarrow>
          Inr (extend_clients (extend_clients [] (map (\<lambda>e. (en_id e, en_scope e)) (entries names))) given))"

record 'p settling =
  sl_dropping :: "'p clients option"
  sl_failing :: bool

definition settling_new :: "'p settling" where
  "settling_new = \<lparr>sl_dropping = None, sl_failing = False\<rparr>"

text \<open>Who of \<open>now\<close> is not in \<open>next\<close> with the same scope.\<close>

definition rescoped :: "'p clients \<Rightarrow> 'p clients \<Rightarrow> ('p \<times> scope) \<Rightarrow> bool" where
  "rescoped now new e = (bt_get new (fst e) \<noteq> Some (snd e))"

text \<open>\<open>Settling::settle\<close>: whether it warned, and the list to publish, if any. A read that failed
  returns before what waits for agreement is taken.\<close>

definition settle :: "'p clients \<Rightarrow> 'e + 'p clients \<Rightarrow> 'p settling \<Rightarrow> 'p settling \<times> bool \<times> 'p clients option" where
  "settle now read s =
     (case read of
        Inl e \<Rightarrow> (s\<lparr>sl_failing := True\<rparr>, \<not> sl_failing s, None)
      | Inr r \<Rightarrow>
          (let dropping = sl_dropping s; s = s\<lparr>sl_failing := False, sl_dropping := None\<rparr>;
               drops = list_ex (rescoped now r) now
           in if drops \<and> dropping \<noteq> Some r then (s\<lparr>sl_dropping := Some r\<rparr>, False, None)
              else (s, False, if now \<noteq> r then Some r else None)))"

record 'p host =
  h_allowed :: "'p clients"
  h_settling :: "'p settling"
  h_registry :: "'p registry"
  h_jobs :: "'p jobs"

definition watch_wait :: "'p settling \<Rightarrow> nat" where
  "watch_wait s = (if sl_dropping s \<noteq> None then CONFIRM else REVOKE_CHECK - CONFIRM)"

text \<open>A turn of \<open>watch_allowlist\<close>: what is read is settled; a change is published, then each peer it
  drops or rescopes loses its sessions and jobs.\<close>

definition watch_turn :: "'e + ('p::linorder) clients \<Rightarrow> 'p host \<Rightarrow> 'p host" where
  "watch_turn read h =
     (let (s, _, changed) = settle (h_allowed h) read (h_settling h); h = h\<lparr>h_settling := s\<rparr> in
      case changed of
        None \<Rightarrow> h
      | Some new \<Rightarrow>
          let gone = map fst (filter (rescoped (h_allowed h) new) (h_allowed h)) in
          fold (\<lambda>peer h. h\<lparr>h_registry := registry_end (h_registry h) peer,
                          h_jobs := fst (jobs_end (h_jobs h) peer)\<rparr>) gone
            (h\<lparr>h_allowed := new\<rparr>))"

text \<open>Whether \<open>revoked\<close> returns: what the peer is allowed is not the scope it came with.\<close>

definition revoked :: "'p clients \<Rightarrow> 'p \<Rightarrow> scope \<Rightarrow> bool" where
  "revoked allowed peer scope = (bt_get allowed peer \<noteq> Some scope)"

text \<open>The registry's own check: only a key that may do everything gets a session.\<close>

definition allows :: "'p clients \<Rightarrow> 'p \<Rightarrow> bool" where
  "allows allowed peer = (case bt_get allowed peer of Some s \<Rightarrow> is_full_scope s | None \<Rightarrow> False)"

section \<open>Hosting\<close>

datatype 'e hosting_error = Scrollback_Over nat | Job_Log_Over nat | Unread 'e | No_Clients

record serve_config =
  sc_scrollback :: nat
  sc_job_log :: nat

definition hosting_from_config ::
  "serve_config \<Rightarrow> 'e + 'p clients \<Rightarrow> 'e hosting_error + 'p clients" where
  "hosting_from_config args read =
     (if MAX_SCROLLBACK_BYTES < sc_scrollback args then Inl (Scrollback_Over (sc_scrollback args))
      else if MAX_JOB_LOG_BYTES < sc_job_log args then Inl (Job_Log_Over (sc_job_log args))
      else (case read of
              Inl e \<Rightarrow> Inl (Unread e)
            | Inr allowed \<Rightarrow> if allowed = [] then Inl No_Clients else Inr allowed))"

section \<open>Handshakes under way\<close>

datatype ip = V4 "32 word" | V6 "128 word"

datatype incoming_addr = Ip ip | Relayed

datatype source_key = SourceKey ip

definition source_key_of :: "incoming_addr \<Rightarrow> source_key option" where
  "source_key_of addr =
     (case addr of
        Relayed \<Rightarrow> None
      | Ip (V6 v6) \<Rightarrow> Some (SourceKey (V6 (and v6 (not (drop_bit 48 (- 1))))))
      | Ip (V4 v4) \<Rightarrow> Some (SourceKey (V4 v4)))"

type_synonym 'h handshakes = "(source_key option \<times> 'h) bounded"

definition crowded :: "nat \<Rightarrow> ('h \<Rightarrow> bool) \<Rightarrow> 'h handshakes \<Rightarrow> 'h handshakes \<times> bool" where
  "crowded n finished q =
     (let q = retain (\<lambda>(_, h). \<not> finished h) q in (q, is_full n q))"

text \<open>How many each source holds, in the order they were first seen.\<close>

fun count_up :: "'s \<Rightarrow> ('s \<times> nat) list \<Rightarrow> ('s \<times> nat) list" where
  "count_up s [] = [(s, 1)]"
| "count_up s ((t, n) # r) = (if s = t then (t, sat_add64 n 1) # r else (t, n) # count_up s r)"

definition held_by :: "'h handshakes \<Rightarrow> (source_key option \<times> nat) list" where
  "held_by q = fold (\<lambda>(s, _). count_up s) (items q) []"

text \<open>\<open>max_by_key\<close>: the last of the most.\<close>

fun max_by_count :: "('s \<times> nat) list \<Rightarrow> ('s \<times> nat) option" where
  "max_by_count [] = None"
| "max_by_count ((s, n) # r) =
     (case max_by_count r of
        None \<Rightarrow> Some (s, n)
      | Some (t, m) \<Rightarrow> if n \<le> m then Some (t, m) else Some (s, n))"

text \<open>\<open>Pending::room\<close>: \<open>order\<close> is the order the hash map gives its entries in.\<close>

definition room ::
  "nat \<Rightarrow> ((source_key option \<times> nat) list \<Rightarrow> (source_key option \<times> nat) list) \<Rightarrow> 'h handshakes \<Rightarrow>
     'h handshakes \<times> 'h option" where
  "room n order q =
     (if \<not> is_full n q then (q, None)
      else
        (case max_by_count (order (held_by q)) of
           None \<Rightarrow> (q, None)
         | Some (most, _) \<Rightarrow>
             (let (taken, q) = take_first (\<lambda>(s, _). s = most) q in (q, map_option snd taken))))"

datatype arrival = Retried | Begun

text \<open>A turn of \<open>serve_endpoint\<close>'s loop: those done forgotten; a retry asked of an address not shown
  to be real when the room is taken (\<open>retry\<close>: whether it could be); else room made, and the
  handshake under way.\<close>

definition incoming_turn ::
  "((source_key option \<times> nat) list \<Rightarrow> (source_key option \<times> nat) list) \<Rightarrow> ('h \<Rightarrow> bool) \<Rightarrow>
     incoming_addr \<Rightarrow> bool \<Rightarrow> bool \<Rightarrow> 'h \<Rightarrow> 'h handshakes \<Rightarrow> 'h handshakes \<times> arrival \<times> 'h option" where
  "incoming_turn order finished addr validated retry h q =
     (let source = source_key_of addr; (q, full) = crowded MOST_PENDING finished q in
      if full \<and> source \<noteq> None \<and> \<not> validated \<and> retry then (q, Retried, None)
      else
        (let (q, given_up) = room MOST_PENDING order q in
         (push_evicting MOST_PENDING q (source, h), Begun, given_up)))"

section \<open>A warning now and then\<close>

definition throttle_ready :: "nat \<Rightarrow> nat option \<Rightarrow> bool \<times> nat option" where
  "throttle_ready now said =
     (let ready = (case said of None \<Rightarrow> True | Some at \<Rightarrow> 10 \<le> (now - at) div NANOS) in
      (ready, if ready then Some now else said))"

section \<open>Connections\<close>

text \<open>
  The gate's semaphores: permits free, peers served, peers waiting in order, and those given a
  permit as another ended, not woken yet; and the places free among those waiting.
\<close>

record 'p gate =
  gt_free :: nat
  gt_places :: nat
  gt_serving :: "('p \<times> scope) list"
  gt_queue :: "('p \<times> scope) list"
  gt_granted :: "('p \<times> scope) list"

definition gate_new :: "nat \<Rightarrow> 'p gate" where
  "gate_new max_connections =
     \<lparr>gt_free = max_connections, gt_places = max_connections, gt_serving = [], gt_queue = [], gt_granted = []\<rparr>"

datatype admitted = Turned_Away close | Served | Queued

definition admit :: "'p clients \<Rightarrow> 'p \<Rightarrow> 'p gate \<Rightarrow> 'p gate \<times> admitted" where
  "admit allowed peer g =
     (case bt_get allowed peer of
        None \<Rightarrow> (g, Turned_Away NotAuthorized)
      | Some scope \<Rightarrow>
          if 0 < gt_free g then
            (g\<lparr>gt_free := gt_free g - 1, gt_serving := gt_serving g @ [(peer, scope)]\<rparr>, Served)
          else if 0 < gt_places g then
            (g\<lparr>gt_places := gt_places g - 1, gt_queue := gt_queue g @ [(peer, scope)]\<rparr>, Queued)
          else (g, Turned_Away Server_Busy))"

text \<open>The steps after: a wait that ran out, a permit taken up, a connection done (its permit goes to
  the first of those waiting, as the runtime's semaphore does).\<close>

definition wait_ran_out :: "'p \<times> scope \<Rightarrow> 'p gate \<Rightarrow> 'p gate" where
  "wait_ran_out c g = g\<lparr>gt_queue := remove1 c (gt_queue g), gt_places := gt_places g + 1\<rparr>"

definition permit_taken_up :: "'p \<times> scope \<Rightarrow> 'p gate \<Rightarrow> 'p gate" where
  "permit_taken_up c g =
     g\<lparr>gt_granted := remove1 c (gt_granted g), gt_places := gt_places g + 1, gt_serving := gt_serving g @ [c]\<rparr>"

definition connection_done :: "'p \<times> scope \<Rightarrow> 'p gate \<Rightarrow> 'p gate" where
  "connection_done c g =
     (let g = g\<lparr>gt_serving := remove1 c (gt_serving g)\<rparr> in
      case gt_queue g of
        [] \<Rightarrow> g\<lparr>gt_free := gt_free g + 1\<rparr>
      | w # ws \<Rightarrow> g\<lparr>gt_queue := ws, gt_granted := gt_granted g @ [w]\<rparr>)"

inductive gate_step :: "'p gate \<Rightarrow> 'p gate \<Rightarrow> bool" where
  admit_step: "gate_step g (fst (admit allowed peer g))"
| ran_out_step: "c \<in> set (gt_queue g) \<Longrightarrow> gate_step g (wait_ran_out c g)"
| taken_up_step: "c \<in> set (gt_granted g) \<Longrightarrow> gate_step g (permit_taken_up c g)"
| done_step: "c \<in> set (gt_serving g) \<Longrightarrow> gate_step g (connection_done c g)"

inductive_cases gate_stepE: "gate_step g g'"

section \<open>What a request may do\<close>

text \<open>\<open>permitted\<close>: the place of its paths, if the scope allows the request at all.\<close>

definition permitted :: "'c request \<Rightarrow> scope \<Rightarrow> byte list option \<Rightarrow> place option" where
  "permitted req scope home =
     (if is_full_scope scope then Some \<lparr>pl_home = home, pl_root = None\<rparr>
      else
        (let root = (case req of
            Exec _ _ \<Rightarrow> sc_exec scope
          | Start _ _ \<Rightarrow> sc_exec scope
          | Jobs _ \<Rightarrow> sc_exec scope
          | Logs _ _ _ \<Rightarrow> sc_exec scope
          | Kill_Job _ _ \<Rightarrow> sc_exec scope
          | Wait_For w \<Rightarrow>
              (case (wait_on w, wait_until w) of
                 (Some (On_Job _), _) \<Rightarrow> sc_exec scope
               | (None, Until_File _) \<Rightarrow>
                   (case sc_exec scope of Some d \<Rightarrow> Some d | None \<Rightarrow> sc_cp scope)
               | _ \<Rightarrow> None)
          | Copy _ \<Rightarrow> sc_cp scope
          | _ \<Rightarrow> None)
         in map_option (\<lambda>d. \<lparr>pl_home = home, pl_root = Some (utf8 d)\<rparr>) root))"

text \<open>\<open>dispatch\<close>'s shell request up to the attach: where the session starts and what it runs.\<close>

definition is_utf8 :: "byte list \<Rightarrow> bool" where
  "is_utf8 b \<longleftrightarrow> utf8 (utf8_lossy b) = b"

definition shell_launch ::
  "fs \<Rightarrow> place \<Rightarrow> argv option \<Rightarrow> remote_path option \<Rightarrow> close + launch" where
  "shell_launch fs pl program cwd =
     (case (case cwd of None \<Rightarrow> Inr None | Some c \<Rightarrow> place_cwd fs pl (Some c)) of
        Inl problem \<Rightarrow> Inl (if p_kind problem = NoSuchDir then No_Such_Dir else Could_Not_Start)
      | Inr dir \<Rightarrow>
          (case program of
             None \<Rightarrow> Inr \<lparr>la_program = None, la_cwd = dir\<rparr>
           | Some argv \<Rightarrow>
               if list_all is_utf8 (argv_words argv)
               then Inr \<lparr>la_program = Some (argv_words argv), la_cwd = dir\<rparr>
               else Inl Could_Not_Start))"

end
