(* ===== verification/Koh_Names_Proofs.thy ===== *)
theory Koh_Names_Proofs
  imports Koh_Names
begin

text \<open>
  What the lists of names promise: a list that was read is written so that it is read back the
  same, and what a command says it did is what the next read finds.
\<close>

section \<open>Well-formed entries and lines\<close>

text \<open>
  What the code relies on of the libraries' parsers and printers: each reads what it wrote, and
  what it writes is one word.
\<close>

definition codec_ok :: "('i, 'a, 'u) id_codec \<Rightarrow> bool" where
  "codec_ok c \<longleftrightarrow>
     (\<forall>i. id_parse c (id_show c i) = Some i \<and> word_ok (id_show c i)) \<and>
     (\<forall>a. addr_parse c (addr_show c a) = Some a \<and> word_ok (addr_show c a)) \<and>
     (\<forall>u. url_parse c (url_show c u) = Some u \<and> word_ok (url_show c u))"

definition dir_ok :: "chars option \<Rightarrow> bool" where
  "dir_ok d = (case d of None \<Rightarrow> True | Some x \<Rightarrow> scope_dir x = Some x)"

definition words_ok :: "names_list \<Rightarrow> ('a, 'u) route option \<Rightarrow> scope \<Rightarrow> bool" where
  "words_ok l route scope \<longleftrightarrow>
     (case l of
        Servers \<Rightarrow> scope = scope_full
      | Clients \<Rightarrow> route = None \<and> dir_ok (sc_cp scope) \<and> dir_ok (sc_exec scope))"

definition entry_ok :: "('i, 'a, 'u) id_codec \<Rightarrow> names_list \<Rightarrow> ('i, 'a, 'u) entry \<Rightarrow> bool" where
  "entry_ok c l e \<longleftrightarrow> check_name c (en_name e) \<and> words_ok l (en_route e) (en_scope e)"

definition line_ok :: "('i, 'a, 'u) id_codec \<Rightarrow> names_list \<Rightarrow> ('i, 'a, 'u) line \<Rightarrow> bool" where
  "line_ok c l x \<longleftrightarrow>
     (case x of
        Entry e \<Rightarrow> entry_ok c l e
      | Other s \<Rightarrow> (trim s = [] \<or> starts_with [35] (trim s)) \<and> 10 \<notin> set s)"

definition names_wf :: "('i, 'a, 'u) id_codec \<Rightarrow> names_list \<Rightarrow> ('i, 'a, 'u) names \<Rightarrow> bool" where
  "names_wf c l ns \<longleftrightarrow> list_all (line_ok c l) ns \<and> distinct (map en_name (entries ns))"

lemma entries_simps [simp]:
  "entries [] = []"
  "entries (Entry e # ns) = e # entries ns"
  "entries (Other s # ns) = entries ns"
  "entries (ns @ ms) = entries ns @ entries ms"
  by (simp_all add: entries_def List.map_filter_def)

lemma names_get_None: "names_get ns name = None \<longleftrightarrow> name \<notin> en_name ` set (entries ns)"
  by (auto simp: names_get_def find_None_iff)

lemma names_get_mem:
  "distinct (map en_name (entries ns)) \<Longrightarrow> e \<in> set (entries ns) \<Longrightarrow> names_get ns (en_name e) = Some e"
proof (induction ns)
  case (Cons x ns)
  then show ?case
    by (cases x) (auto simp: names_get_def)
qed simp

lemma names_get_SomeD: "names_get ns name = Some e \<Longrightarrow> e \<in> set (entries ns) \<and> en_name e = name"
  by (auto simp: names_get_def find_Some_iff)

section \<open>An entry is read back\<close>

lemma split_once_key:
  "c \<notin> set k \<Longrightarrow> split_once c (k @ c # r) = Some (k, r)"
proof -
  assume c: "c \<notin> set k"
  then have "position (\<lambda>x. x = c) (k @ c # r) = Some (length k)"
    by (induction k) auto
  then show ?thesis by (simp add: split_once_def)
qed

lemma key_chars:
  "chars_of ''direct='' = chars_of ''direct'' @ [61]" "61 \<notin> set (chars_of ''direct'')"
  "chars_of ''relay='' = chars_of ''relay'' @ [61]" "61 \<notin> set (chars_of ''relay'')"
  "chars_of ''relay'' \<noteq> chars_of ''direct''"
  "chars_of '' cp='' = 32 # chars_of ''cp'' @ [61]" "61 \<notin> set (chars_of ''cp'')"
  "chars_of '' exec='' = 32 # chars_of ''exec'' @ [61]" "61 \<notin> set (chars_of ''exec'')"
  "chars_of ''exec'' \<noteq> chars_of ''cp''"
  "\<not> list_ex is_whitespace (chars_of ''direct'')" "\<not> list_ex is_whitespace (chars_of ''relay'')"
  "\<not> list_ex is_whitespace (chars_of ''cp'')" "\<not> list_ex is_whitespace (chars_of ''exec'')"
  "\<not> is_whitespace 61"
  by (simp_all add: chars_of_def is_whitespace_def)

lemma route_parse_show: "codec_ok c \<Longrightarrow> route_parse c (route_show c r) = Some r"
  by (cases r) (simp_all add: route_parse_def route_show_def key_chars split_once_key codec_ok_def)

lemma route_show_word: "codec_ok c \<Longrightarrow> word_ok (route_show c r)"
  by (cases r) (simp_all add: route_show_def word_ok_def key_chars codec_ok_def)

text \<open>The words a scope is written as.\<close>

definition scope_words :: "scope \<Rightarrow> chars list" where
  "scope_words s =
     (case sc_cp s of Some d \<Rightarrow> [chars_of ''cp'' @ [61] @ d] | None \<Rightarrow> []) @
     (case sc_exec s of Some d \<Rightarrow> [chars_of ''exec'' @ [61] @ d] | None \<Rightarrow> [])"

lemma scope_dir_word: "scope_dir x = Some y \<Longrightarrow> y = x \<and> x \<noteq> [] \<and> \<not> list_ex is_whitespace x"
  by (auto simp: scope_dir_def starts_with_def split: if_splits)

lemma scope_dir_same: "scope_dir x = Some y \<Longrightarrow> scope_dir y = Some y"
  by (auto simp: scope_dir_def split: if_splits)

lemma scope_words_ok:
  "dir_ok (sc_cp s) \<Longrightarrow> dir_ok (sc_exec s) \<Longrightarrow> list_all word_ok (scope_words s)"
  by (auto simp: scope_words_def word_ok_def key_chars dir_ok_def dest!: scope_dir_word
      split: option.splits)

lemma scope_take_cp:
  "\<lbrakk>sc_cp s = None; scope_dir d = Some d\<rbrakk> \<Longrightarrow>
     scope_take s (chars_of ''cp'' @ 61 # d) = Some (s\<lparr>sc_cp := Some d\<rparr>)"
  by (simp add: scope_take_def split_once_key key_chars)

lemma scope_take_exec:
  "\<lbrakk>sc_exec s = None; scope_dir d = Some d\<rbrakk> \<Longrightarrow>
     scope_take s (chars_of ''exec'' @ 61 # d) = Some (s\<lparr>sc_exec := Some d\<rparr>)"
  by (simp add: scope_take_def split_once_key key_chars)

lemma parse_rest_scope:
  "\<lbrakk>dir_ok (sc_cp s); dir_ok (sc_exec s)\<rbrakk> \<Longrightarrow>
     parse_rest c Clients n r scope_full (scope_words s) = Inr (r, s)"
  by (cases s; cases "sc_cp s"; cases "sc_exec s")
     (simp_all add: scope_words_def scope_full_def scope_take_cp scope_take_exec dir_ok_def)

definition entry_words :: "('i, 'a, 'u) id_codec \<Rightarrow> ('i, 'a, 'u) entry \<Rightarrow> chars list" where
  "entry_words c e =
     en_name e # id_show c (en_id e) #
       (case en_route e of Some r \<Rightarrow> [route_show c r] | None \<Rightarrow> []) @ scope_words (en_scope e)"

lemma entry_show_words: "entry_show c e = join_with 32 (entry_words c e)"
  by (simp add: entry_show_def entry_words_def scope_show_def scope_words_def key_chars
      split: option.split)

lemma name_word: "check_name c name \<Longrightarrow> word_ok name"
  by (auto simp: check_name_def word_ok_def name_char_def is_whitespace_def list_all_iff list_ex_iff)

lemma entry_words_ok: "codec_ok c \<Longrightarrow> entry_ok c l e \<Longrightarrow> list_all word_ok (entry_words c e)"
  using scope_words_ok [of "en_scope e"]
  by (cases l)
     (auto simp: entry_words_def entry_ok_def words_ok_def name_word route_show_word codec_ok_def
       scope_words_def scope_full_def split: option.split)

lemma parse_rest_words:
  assumes "codec_ok c" and "words_ok l r s"
  shows "parse_rest c l n None scope_full
           ((case r of Some r \<Rightarrow> [route_show c r] | None \<Rightarrow> []) @ scope_words s) = Inr (r, s)"
proof (cases l)
  case Servers
  then show ?thesis
    using assms by (cases r) (simp_all add: words_ok_def scope_words_def scope_full_def route_parse_show)
next
  case Clients
  then show ?thesis
    using assms by (simp add: words_ok_def parse_rest_scope)
qed

lemma parse_entry_show:
  assumes "codec_ok c" and "entry_ok c l e"
  shows "parse_entry c l n (entry_show c e) = Inr e"
  using assms parse_rest_words [of c l "en_route e" "en_scope e" n]
  by (simp add: parse_entry_def entry_show_words words_join [OF entry_words_ok])
     (simp add: entry_words_def entry_ok_def codec_ok_def)

lemma entry_show_line:
  assumes "codec_ok c" and "entry_ok c l e"
  shows "trim (entry_show c e) = entry_show c e" and "entry_show c e \<noteq> []"
    and "\<not> starts_with [35] (entry_show c e)" and "10 \<notin> set (entry_show c e)"
    and "strip_cr (entry_show c e) = entry_show c e"
proof -
  let ?ws = "entry_words c e"
  have ws: "list_all word_ok ?ws" "?ws \<noteq> []"
    using entry_words_ok [OF assms] by (simp_all add: entry_words_def)
  note ends = join_ends [OF ws(2,1), folded entry_show_words]
  then show "trim (entry_show c e) = entry_show c e" "entry_show c e \<noteq> []"
    "strip_cr (entry_show c e) = entry_show c e"
    by (auto simp: trim_id strip_cr_def)
  have "hd (entry_show c e) = hd (en_name e)" "name_char (hd (en_name e))"
    using assms(2) by (auto simp: entry_show_def entry_ok_def check_name_def list_all_iff)
  then show "\<not> starts_with [35] (entry_show c e)"
    by (auto simp: starts_with_iff name_char_def)
  have "10 \<notin> set w" if "w \<in> set ?ws" for w
    using ws(1) that whitespace_simps(2) by (fastforce simp: list_all_iff word_ok_def list_ex_iff)
  then show "10 \<notin> set (entry_show c e)"
    using set_join_with [of 32 ?ws] by (auto simp: entry_show_words)
qed

section \<open>What was read is well formed\<close>

lemma scope_take_ok:
  "\<lbrakk>scope_take s w = Some s'; dir_ok (sc_cp s); dir_ok (sc_exec s)\<rbrakk> \<Longrightarrow>
     dir_ok (sc_cp s') \<and> dir_ok (sc_exec s')"
  by (auto simp: scope_take_def dir_ok_def split: option.splits if_splits)
     (rule scope_dir_same, assumption)+

lemma parse_rest_ok:
  "\<lbrakk>parse_rest c l n r s ws = Inr (r', s'); words_ok l r s\<rbrakk> \<Longrightarrow> words_ok l r' s'"
proof (induction ws arbitrary: r s)
  case (Cons w ws)
  show ?case
  proof (cases l)
    case Servers
    then show ?thesis
      using Cons by (auto simp: words_ok_def split: if_splits option.splits)
  next
    case Clients
    then obtain s1 where s1: "scope_take s w = Some s1"
      using Cons.prems by (auto split: option.splits)
    have "words_ok l r s1"
      using Clients Cons.prems(2) scope_take_ok [OF s1] by (simp add: words_ok_def)
    then show ?thesis
      using Cons.IH [of r s1] Cons.prems(1) Clients s1 by simp
  qed
qed simp

lemma words_ok_none: "words_ok l None scope_full"
  by (cases l) (simp_all add: words_ok_def scope_full_def dir_ok_def)

lemma parse_entry_ok: "parse_entry c l n t = Inr e \<Longrightarrow> entry_ok c l e"
  by (auto simp: parse_entry_def entry_ok_def bindE_Inr_iff words_ok_none
      split: list.splits if_splits option.splits intro: parse_rest_ok)

lemma parse_lines_wf:
  "\<lbrakk>parse_lines c l n ns ls = Inr ns'; names_wf c l ns; \<And>x. x \<in> set ls \<Longrightarrow> 10 \<notin> set x\<rbrakk> \<Longrightarrow>
     names_wf c l ns'"
proof (induction ls arbitrary: n ns)
  case (Cons x ls)
  show ?case
  proof (cases "trim x = [] \<or> starts_with [35] (trim x)")
    case True
    then have "names_wf c l (ns @ [Other x])"
      using Cons.prems(2,3) by (simp add: names_wf_def line_ok_def)
    then show ?thesis
      using Cons.IH [of "n + 1" "ns @ [Other x]"] Cons.prems True by simp
  next
    case False
    then obtain e where e: "parse_entry c l n (trim x) = Inr e" "names_get ns (en_name e) = None"
      "parse_lines c l (n + 1) (ns @ [Entry e]) ls = Inr ns'"
      using Cons.prems(1) by (auto simp: bindE_Inr_iff Let_def split: if_splits)
    have "names_wf c l (ns @ [Entry e])"
      using Cons.prems(2) parse_entry_ok [OF e(1)] e(2)
      by (auto simp: names_wf_def line_ok_def names_get_None)
    then show ?thesis
      using Cons.IH [OF e(3)] Cons.prems(3) by simp
  qed
qed simp

lemma names_parse_wf: "names_parse c l text = Inr ns \<Longrightarrow> names_wf c l ns"
  unfolding names_parse_def
  by (erule parse_lines_wf) (auto simp: names_wf_def dest: lines_of_no_newline)

section \<open>A list is read back\<close>

text \<open>A comment's or blank line's trailing \<open>\r\<close> is lost: \<open>lines\<close> takes it as the line's end.\<close>

definition settled :: "('i, 'a, 'u) line \<Rightarrow> ('i, 'a, 'u) line" where
  "settled x = (case x of Entry e \<Rightarrow> Entry e | Other s \<Rightarrow> Other (strip_cr s))"

lemma parse_lines_settled:
  "\<lbrakk>parse_lines c l n ns ls = Inr ns'; map settled ns = ns; \<And>x. x \<in> set ls \<Longrightarrow> 13 \<notin> set x\<rbrakk> \<Longrightarrow>
     map settled ns' = ns'"
proof (induction ls arbitrary: n ns)
  case (Cons x ls)
  have "strip_cr x = x"
    using Cons.prems(3) [of x] last_in_set [of x] unfolding strip_cr_def by fastforce
  then show ?case
    using Cons.IH [of "n + 1" "ns @ [Other x]"] Cons.IH [of "n + 1"] Cons.prems
    by (auto simp: settled_def bindE_Inr_iff Let_def split: if_splits)
qed simp

lemma entries_settled [simp]: "entries (map settled ns) = entries ns"
proof (induction ns)
  case (Cons x ns)
  then show ?case by (cases x) (simp_all add: settled_def)
qed simp

lemma parse_lines_show:
  assumes c: "codec_ok c"
  shows "\<lbrakk>list_all (line_ok c l) ms; distinct (map en_name (entries (ns @ ms)))\<rbrakk> \<Longrightarrow>
     parse_lines c l n ns (map strip_cr (map (line_show c) ms)) = Inr (ns @ map settled ms)"
proof (induction ms arbitrary: n ns)
  case (Cons x ms)
  show ?case
  proof (cases x)
    case (Entry e)
    then have e: "entry_ok c l e"
      using Cons.prems(1) by (simp add: line_ok_def)
    have "names_get ns (en_name e) = None"
      using Cons.prems(2) Entry by (auto simp: names_get_None)
    then show ?thesis
      using Cons.IH [of "ns @ [Entry e]" "n + 1"] Cons.prems Entry entry_show_line [OF c e]
        parse_entry_show [OF c e]
      by (simp add: line_show_def settled_def)
  next
    case (Other s)
    then show ?thesis
      using Cons.IH [of "ns @ [Other (strip_cr s)]" "n + 1"] Cons.prems
      by (auto simp: line_show_def settled_def line_ok_def trim_strip_cr)
  qed
qed simp

lemma names_render_lines:
  "names_render c ns = concat (map (\<lambda>x. x @ [10]) (map (line_show c) ns))"
  by (simp add: names_render_def comp_def)

lemma parse_render:
  assumes c: "codec_ok c" and wf: "names_wf c l ns"
  shows "names_parse c l (names_render c ns) = Inr (map settled ns)"
proof -
  have "10 \<notin> set (line_show c x)" if "x \<in> set ns" for x
    using that wf entry_show_line(4) [OF c]
    by (auto simp: names_wf_def list_all_iff line_ok_def line_show_def split: line.splits)
  then have "lines_of (names_render c ns) = map strip_cr (map (line_show c) ns)"
    unfolding names_render_lines by (intro lines_of_concat) auto
  then show ?thesis
    using parse_lines_show [OF c, of l ns "[]"] wf by (simp add: names_parse_def names_wf_def)
qed

section \<open>The commands\<close>

lemma distinct_names_filter:
  "distinct (map en_name es) \<Longrightarrow> distinct (map en_name (filter P es))"
  by (simp add: distinct_map inj_on_def)

lemma entries_filter:
  "entries (filter (\<lambda>l. case l of Entry e \<Rightarrow> P e | Other _ \<Rightarrow> True) ns) = filter P (entries ns)"
proof (induction ns)
  case (Cons x ns)
  then show ?case by (cases x) simp_all
qed simp

lemma rename_first_wf:
  "\<lbrakk>rename_first ns old to = Some ns'; list_all (line_ok c l) ns; check_name c to\<rbrakk> \<Longrightarrow>
     list_all (line_ok c l) ns'"
  by (induction ns old to arbitrary: ns' rule: rename_first.induct)
     (auto simp: line_ok_def entry_ok_def split: if_splits)

text \<open>The first entry of the name has it written over; its place and all else stay.\<close>

lemma rename_first_entries:
  "rename_first ns old to = Some ns' \<Longrightarrow>
     \<exists>a e b. entries ns = a @ e # b \<and> entries ns' = a @ e\<lparr>en_name := to\<rparr> # b \<and>
       en_name e = old \<and> old \<notin> en_name ` set a"
proof (induction ns old to arbitrary: ns' rule: rename_first.induct)
  case (3 e ns old to)
  show ?case
  proof (cases "en_name e = old")
    case True
    then show ?thesis using "3.prems" by force
  next
    case False
    then obtain ms where ms: "rename_first ns old to = Some ms" "ns' = Entry e # ms"
      using "3.prems" by auto
    then obtain a f b where "entries ns = a @ f # b" "entries ms = a @ f\<lparr>en_name := to\<rparr> # b"
      "en_name f = old" "old \<notin> en_name ` set a"
      using "3.IH" [OF False ms(1)] by blast
    then show ?thesis
      using ms False by (intro exI [of _ "e # a"] exI [of _ f] exI [of _ b]) auto
  qed
qed auto

text \<open>What a command that changed the list changed.\<close>

definition op_ok :: "names_list \<Rightarrow> ('i, 'a, 'u) names_op \<Rightarrow> bool" where
  "op_ok l op = (case op of Add_Op name i r s \<Rightarrow> words_ok l r s | _ \<Rightarrow> True)"

definition op_done ::
  "('i, 'a, 'u) names_op \<Rightarrow> ('i, 'a, 'u) entry list \<Rightarrow> ('i, 'a, 'u) entry list \<Rightarrow> bool" where
  "op_done op es es' =
     (case op of
        List_Op \<Rightarrow> es' = es
      | Add_Op name i r s \<Rightarrow>
          name \<notin> en_name ` set es \<and> i \<notin> en_id ` set es \<and>
          es' = es @ [\<lparr>en_name = name, en_id = i, en_route = r, en_scope = s\<rparr>]
      | Remove_Op name \<Rightarrow>
          name \<in> en_name ` set es \<and> es' = filter (\<lambda>e. en_name e \<noteq> name) es
      | Rename_Op old to \<Rightarrow>
          to \<notin> en_name ` set es \<and>
          (\<exists>a e b. es = a @ e # b \<and> es' = a @ e\<lparr>en_name := to\<rparr> # b \<and> en_name e = old))"

lemma names_add_done:
  assumes "names_add c ns name i r s = Inr ns'" and "names_wf c l ns" and "words_ok l r s"
  shows "names_wf c l ns' \<and> op_done (Add_Op name i r s) (entries ns) (entries ns')"
proof -
  let ?e = "\<lparr>en_name = name, en_id = i, en_route = r, en_scope = s\<rparr>"
  have h: "check_name c name" "names_get ns name = None" "name_of ns i = None" "ns' = ns @ [Entry ?e]"
    using assms(1) by (auto simp: names_add_def split: if_splits option.splits)
  have n: "name \<notin> en_name ` set (entries ns)"
    using h(2) by (simp add: names_get_None)
  have i: "i \<notin> en_id ` set (entries ns)"
    using h(3) by (auto simp: name_of_def find_None_iff)
  show ?thesis
    using assms(2,3) h(1,4) n i
    by (simp add: names_wf_def line_ok_def entry_ok_def op_done_def)
qed

lemma names_remove_done:
  assumes "names_remove ns name = Inr (ns', i)" and "names_wf c l ns"
  shows "names_wf c l ns' \<and> op_done (Remove_Op name) (entries ns) (entries ns')"
proof -
  obtain e where e: "names_get ns name = Some e"
    and ns': "ns' = filter (\<lambda>l. case l of Entry e \<Rightarrow> en_name e \<noteq> name | Other _ \<Rightarrow> True) ns"
    using assms(1) by (auto simp: names_remove_def split: option.splits)
  have "list_all (line_ok c l) ns'"
    using assms(2) ns' by (auto simp: names_wf_def list_all_iff)
  then show ?thesis
    using assms(2) names_get_SomeD [OF e]
    by (force simp: names_wf_def op_done_def ns' entries_filter distinct_names_filter)
qed

lemma names_rename_done:
  assumes "names_rename c ns old to = Inr ns'" and "names_wf c l ns"
  shows "names_wf c l ns' \<and> op_done (Rename_Op old to) (entries ns) (entries ns')"
proof -
  have h: "check_name c to" "names_get ns to = None" "rename_first ns old to = Some ns'"
    using assms(1) by (auto simp: names_rename_def split: if_splits option.splits)
  obtain a e b where s: "entries ns = a @ e # b" "entries ns' = a @ e\<lparr>en_name := to\<rparr> # b"
    "en_name e = old"
    using rename_first_entries [OF h(3)] by blast
  have n: "to \<notin> en_name ` set (entries ns)"
    using h(2) by (simp add: names_get_None)
  have "list_all (line_ok c l) ns'"
    using rename_first_wf [OF h(3) _ h(1)] assms(2) by (simp add: names_wf_def)
  moreover have "distinct (map en_name (entries ns'))"
    using assms(2) n by (auto simp: names_wf_def s)
  ultimately show ?thesis
    using n s unfolding names_wf_def op_done_def by auto
qed

lemma names_update_done:
  assumes "names_update c l change text = Inr (t, x)"
    and "\<And>ns ns'. change ns = Inr (ns', x) \<Longrightarrow> names_wf c l ns \<Longrightarrow>
          names_wf c l ns' \<and> op_done op (entries ns) (entries ns')"
    and c: "codec_ok c"
  shows "\<exists>ns ns'. names_parse c l (case text of Some t \<Rightarrow> t | None \<Rightarrow> []) = Inr ns \<and>
           names_parse c l t = Inr ns' \<and> op_done op (entries ns) (entries ns')"
proof -
  obtain ns ns' where ns: "names_parse c l (case text of Some t \<Rightarrow> t | None \<Rightarrow> []) = Inr ns"
    "change ns = Inr (ns', x)" "t = names_render c ns'"
    using assms(1) unfolding names_update_def
    by (cases "names_parse c l (case text of Some t \<Rightarrow> t | None \<Rightarrow> [])") (auto split: sum.splits)
  have "names_wf c l ns'" "op_done op (entries ns) (entries ns')"
    using assms(2) [OF ns(2) names_parse_wf [OF ns(1)]] by auto
  then show ?thesis
    using parse_render [OF c] ns by (intro exI [of _ ns] exI [of _ "map settled ns'"]) simp
qed

lemma unit_result_Inr: "unit_result r = Inr (ns, u) \<longleftrightarrow> r = Inr ns"
  by (cases r) (auto simp: unit_result_def)

text \<open>A codec for the witnesses: one id, one address and one URL.\<close>

definition plain_codec :: "(unit, unit, unit) id_codec" where
  "plain_codec =
     \<lparr>id_parse = (\<lambda>w. if w = chars_of ''#id'' then Some () else None), id_show = (\<lambda>_. chars_of ''#id''),
      addr_parse = (\<lambda>w. if w = chars_of ''[::1]:4433'' then Some () else None),
      addr_show = (\<lambda>_. chars_of ''[::1]:4433''),
      url_parse = (\<lambda>w. if w = chars_of ''https://r/'' then Some () else None),
      url_show = (\<lambda>_. chars_of ''https://r/'')\<rparr>"

lemma plain_codec_ok: "codec_ok plain_codec"
  by (simp add: codec_ok_def plain_codec_def word_ok_def chars_of_def is_whitespace_def)

section \<open>Properties\<close>

text \<open>C25: A list that was read and is written again is read back as it was: the same entries in
  the same order, and the same comments and blank lines but for a \<open>\r\<close> at a line's end; a text
  without any \<open>\r\<close> gives exactly the same list.\<close>

theorem names_are_read_back:
  assumes "codec_ok c" and "names_parse c l text = Inr ns"
  shows "names_parse c l (names_render c ns) = Inr (map settled ns) \<and>
    entries (map settled ns) = entries ns \<and>
    (13 \<notin> set text \<longrightarrow> names_parse c l (names_render c ns) = Inr ns)"
proof -
  have read: "names_parse c l (names_render c ns) = Inr (map settled ns)"
    by (rule parse_render [OF assms(1) names_parse_wf [OF assms(2)]])
  have "map settled ns = ns" if "13 \<notin> set text"
  proof (rule parse_lines_settled [OF assms(2) [unfolded names_parse_def]])
    show "13 \<notin> set x" if "x \<in> set (lines_of text)" for x
      using lines_of_subset [OF that] \<open>13 \<notin> set text\<close> by blast
  qed simp
  then show ?thesis
    using read by simp
qed

lemma names_are_read_back_witness:
  "\<exists>ns. names_parse plain_codec Servers (chars_of ''# home'' @ [10] @ chars_of ''nas  #id relay=https://r/'' @ [10]) = Inr ns \<and>
     names_parse plain_codec Servers (names_render plain_codec ns) = Inr ns \<and> length (entries ns) = 1"
proof -
  let ?t = "chars_of ''# home'' @ [10] @ chars_of ''nas  #id relay=https://r/'' @ [10]"
  have "(case names_parse plain_codec Servers ?t of Inr ns \<Rightarrow> length (entries ns) | Inl _ \<Rightarrow> 0) = 1"
    by (simp add: names_parse_def lines_of_def chars_of_def Let_def strip_cr_def trim_def trim_end_def is_whitespace_def
        starts_with_def parse_entry_def words_def check_name_def name_char_def plain_codec_def utf8_def utf8_char_def MAX_NAME_def
        route_parse_def split_once_def names_get_def)
  then obtain ns where ns: "names_parse plain_codec Servers ?t = Inr ns" "length (entries ns) = 1"
    by (cases "names_parse plain_codec Servers ?t") auto
  moreover have "13 \<notin> set ?t"
    by (simp add: chars_of_def)
  ultimately show ?thesis
    using names_are_read_back [OF plain_codec_ok ns(1)] by blast
qed



end
