(* ===== verification/Koh_Gate_Proofs.thy ===== *)
theory Koh_Gate_Proofs
  imports Koh_Gate Koh_Names_Proofs "HOL-Library.Multiset"
begin

text \<open>
  What the gate promises: a client is dropped only once two reads agree, and then loses its
  sessions and jobs; a flood of handshakes gives up only its own; no more connections than there
  are permits are served, none that is not allowed; and a scoped key stays in its directory.
\<close>

section \<open>The allowlist\<close>

lemma extend_clients_simps [simp]:
  "extend_clients t [] = t"
  "extend_clients t ((k, v) # kvs) = extend_clients (bt_insert k v t) kvs"
  by (simp_all add: extend_clients_def)

lemma bt_ok_extend: "bt_ok t \<Longrightarrow> bt_ok (extend_clients t kvs)"
  by (induction kvs arbitrary: t) (auto simp: bt_ok_insert)

lemma allowlist_read_ok: "allowlist_read given saved = Inr t \<Longrightarrow> bt_ok t"
  by (auto simp: allowlist_read_def bt_ok_extend split: option.splits sum.splits)

lemma bt_get_extend:
  "bt_get (extend_clients t kvs) k = (case map_of (rev kvs) k of Some v \<Rightarrow> Some v | None \<Rightarrow> bt_get t k)"
proof (induction kvs arbitrary: t)
  case (Cons e kvs)
  obtain k' v where e: "e = (k', v)" by (cases e)
  show ?case
    using Cons.IH [of "bt_insert k' v t"]
    by (auto simp: e bt_get_insert map_add_def split: option.split)
qed simp

text \<open>The ends of the peers that are gone.\<close>

lemma ends_of_gone:
  "fold (\<lambda>peer h. h\<lparr>h_registry := registry_end (h_registry h) peer,
      h_jobs := fst (jobs_end (h_jobs h) peer)\<rparr>) gone h =
   h\<lparr>h_registry := (h_registry h)\<lparr>g_live := filter (\<lambda>(_, l). lv_peer l \<notin> set gone) (g_live (h_registry h))\<rparr>,
     h_jobs := (h_jobs h)\<lparr>t_table := filter (\<lambda>((owner, _), _). owner \<notin> set gone) (t_table (h_jobs h))\<rparr>\<rparr>"
proof (induction gone arbitrary: h)
  case Nil
  show ?case by simp
next
  case (Cons p gone)
  have "filter (\<lambda>(_, l). lv_peer l \<notin> set gone) (filter (\<lambda>(_, l). lv_peer l \<noteq> p) xs) =
      filter (\<lambda>(_, l). lv_peer l \<notin> set (p # gone)) xs" for xs :: "(nat \<times> 'a live) list"
    by (auto intro!: filter_cong)
  moreover have "filter (\<lambda>((owner, _), _). owner \<notin> set gone) (filter (\<lambda>((owner, _), _). owner \<noteq> p) xs) =
      filter (\<lambda>((owner, _), _). owner \<notin> set (p # gone)) xs" for xs :: "(('a \<times> job_name) \<times> job) list"
    by (auto intro!: filter_cong)
  ultimately show ?case
    using Cons.IH by (simp add: registry_end_def jobs_end_def bt_retain_def)
qed

definition gone_peers :: "'p clients \<Rightarrow> 'p clients \<Rightarrow> 'p list" where
  "gone_peers now new = map fst (filter (rescoped now new) now)"

lemma watch_turn_simps:
  "h_settling (watch_turn read h) = fst (settle (h_allowed h) read (h_settling h))"
  "h_allowed (watch_turn read h) =
     (case snd (snd (settle (h_allowed h) read (h_settling h))) of None \<Rightarrow> h_allowed h | Some new \<Rightarrow> new)"
  "h_registry (watch_turn read h) =
     (case snd (snd (settle (h_allowed h) read (h_settling h))) of None \<Rightarrow> h_registry h
      | Some new \<Rightarrow> (h_registry h)\<lparr>g_live :=
          filter (\<lambda>(_, l). lv_peer l \<notin> set (gone_peers (h_allowed h) new)) (g_live (h_registry h))\<rparr>)"
  "h_jobs (watch_turn read h) =
     (case snd (snd (settle (h_allowed h) read (h_settling h))) of None \<Rightarrow> h_jobs h
      | Some new \<Rightarrow> (h_jobs h)\<lparr>t_table :=
          filter (\<lambda>((owner, _), _). owner \<notin> set (gone_peers (h_allowed h) new)) (t_table (h_jobs h))\<rparr>)"
  by (simp_all add: watch_turn_def ends_of_gone gone_peers_def Let_def split: prod.split option.split)

lemma settle_published:
  "snd (snd (settle now read s)) = Some new \<Longrightarrow>
     read = Inr new \<and> (list_ex (rescoped now new) now \<longrightarrow> sl_dropping s = Some new)"
  by (auto simp: settle_def Let_def split: sum.splits if_splits)

lemma settle_dropping:
  "sl_dropping (fst (settle now read s)) = Some d \<Longrightarrow>
     read = Inr d \<or> (\<exists>e. read = Inl e) \<and> sl_dropping s = Some d"
  by (auto simp: settle_def Let_def split: sum.splits if_splits)

text \<open>The reads that did not fail.\<close>

definition good_reads :: "('e + 'a) list \<Rightarrow> 'a list" where
  "good_reads rs = List.map_filter (\<lambda>r. case r of Inl _ \<Rightarrow> None | Inr t \<Rightarrow> Some t) rs"

lemma good_reads_simps [simp]:
  "good_reads [] = []"
  "good_reads (rs @ [Inl e]) = good_reads rs"
  "good_reads (rs @ [Inr t]) = good_reads rs @ [t]"
  by (simp_all add: good_reads_def List.map_filter_def)

definition watch_run :: "('e + ('p::linorder) clients) list \<Rightarrow> 'p host \<Rightarrow> 'p host" where
  "watch_run rs h = fold watch_turn rs h"

lemma watch_run_snoc [simp]: "watch_run (rs @ [r]) h = watch_turn r (watch_run rs h)"
  by (simp add: watch_run_def)

lemma dropping_was_read:
  "\<lbrakk>h_settling h = settling_new; sl_dropping (h_settling (watch_run rs h)) = Some d\<rbrakk> \<Longrightarrow>
     good_reads rs \<noteq> [] \<and> last (good_reads rs) = d"
proof (induction rs arbitrary: d rule: rev_induct)
  case Nil
  then show ?case by (simp add: watch_run_def settling_new_def)
next
  case (snoc r rs)
  have "r = Inr d \<or> (\<exists>e. r = Inl e) \<and> sl_dropping (h_settling (watch_run rs h)) = Some d"
    using snoc.prems(2) settle_dropping by (simp add: watch_turn_simps)
  then show ?case
    using snoc.IH snoc.prems(1) by auto
qed

lemma rescoped_ex:
  "\<lbrakk>bt_get now p = Some sc; bt_get new p \<noteq> Some sc\<rbrakk> \<Longrightarrow>
     list_ex (rescoped now new) now \<and> p \<in> set (gone_peers now new)"
proof -
  assume p: "bt_get now p = Some sc" "bt_get new p \<noteq> Some sc"
  then have "(p, sc) \<in> set now"
    by (auto simp: bt_get_def dest: map_of_SomeD)
  then show ?thesis
    using p(2) by (force simp: list_ex_iff rescoped_def gone_peers_def)
qed

lemma gone_peers_iff:
  "bt_ok now \<Longrightarrow> p \<in> set (gone_peers now new) \<longleftrightarrow> bt_get now p \<noteq> None \<and> bt_get new p \<noteq> bt_get now p"
  by (auto simp: gone_peers_def rescoped_def bt_get_iff [symmetric] image_iff)


section \<open>Handshakes\<close>

lemma position_split:
  "position p xs = Some n \<Longrightarrow> xs = take n xs @ xs ! n # drop (Suc n) xs \<and> p (xs ! n) \<and> (\<forall>x\<in>set (take n xs). \<not> p x)"
  using position_SomeD [of p xs n] by (simp add: id_take_nth_drop)

lemma take_first_split:
  "take_first p q = (Some x, q') \<Longrightarrow>
     \<exists>a b. items q = a @ x # b \<and> items q' = a @ b \<and> p x \<and> (\<forall>y\<in>set a. \<not> p y)"
  using position_split [of p "items q"] by (force simp: take_first_def split: option.splits)

lemma take_first_misses: "take_first p q = (None, q') \<Longrightarrow> q' = q \<and> (\<forall>y\<in>set (items q). \<not> p y)"
  by (auto simp: take_first_def position_None_iff split: option.splits)

text \<open>How many of the handshakes are a source's.\<close>

definition held_count :: "(source_key option \<times> 'h) list \<Rightarrow> source_key option \<Rightarrow> nat" where
  "held_count xs s = length (filter (\<lambda>(t, _). t = s) xs)"

lemma held_count_simps [simp]:
  "held_count [] s = 0"
  "held_count (xs @ ys) s = held_count xs s + held_count ys s"
  "held_count ((t, h) # xs) s = (if t = s then 1 else 0) + held_count xs s"
  by (simp_all add: held_count_def)

definition counts_of :: "(source_key option \<times> nat) list \<Rightarrow> (source_key option \<times> 'h) list \<Rightarrow> bool" where
  "counts_of c xs \<longleftrightarrow>
     distinct (map fst c) \<and>
     (\<forall>s. map_of c s = (if held_count xs s = 0 then None else Some (held_count xs s)))"

lemma map_of_count_up:
  "map_of (count_up s c) = (map_of c)(s \<mapsto> (case map_of c s of None \<Rightarrow> 1 | Some k \<Rightarrow> sat_add64 k 1))"
  by (induction s c rule: count_up.induct) auto

lemma fst_count_up: "fst ` set (count_up s c) = insert s (fst ` set c)"
  by (induction s c rule: count_up.induct) auto

lemma distinct_count_up: "distinct (map fst c) \<Longrightarrow> distinct (map fst (count_up s c))"
  by (induction s c rule: count_up.induct) (auto simp: fst_count_up)

lemma count_up_ok:
  assumes c: "counts_of c xs" and l: "length xs < u64_max"
  shows "counts_of (count_up s c) (xs @ [(s, h)])"
proof -
  have "held_count xs s < u64_max"
    using l by (simp add: held_count_def le_less_trans [OF length_filter_le])
  then show ?thesis
    using c by (auto simp: counts_of_def distinct_count_up map_of_count_up)
qed

lemma held_by_ok: "length (items q) \<le> u64_max \<Longrightarrow> counts_of (held_by q) (items q)"
proof -
  have "counts_of (fold (\<lambda>(s, _). count_up s) xs []) xs" if "length xs \<le> u64_max" for xs :: "(source_key option \<times> 'a) list"
    using that
  proof (induction xs rule: rev_induct)
    case Nil
    then show ?case by (simp add: counts_of_def)
  next
    case (snoc x xs)
    then show ?case
      using count_up_ok [of "fold (\<lambda>(s, _). count_up s) xs []" xs "fst x" "snd x"] by (cases x) simp
  qed
  then show "length (items q) \<le> u64_max \<Longrightarrow> ?thesis"
    by (simp add: held_by_def)
qed

lemma max_by_count_Some:
  "max_by_count c = Some (s, n) \<Longrightarrow> (s, n) \<in> set c \<and> (\<forall>(t, m)\<in>set c. m \<le> n)"
proof (induction c arbitrary: s n rule: max_by_count.induct)
  case (2 t m r)
  show ?case
  proof (cases "max_by_count r")
    case None
    then have "r = []" by (cases r) (auto split: option.splits if_splits)
    then show ?thesis using 2 by simp
  next
    case (Some e)
    obtain u k where e: "e = (u, k)" by (cases e)
    have "(u, k) \<in> set r \<and> (\<forall>(t, m)\<in>set r. m \<le> k)"
      using "2.IH" Some e by blast
    then show ?thesis
      using "2.prems" Some e by (force split: if_splits)
  qed
qed simp

lemma max_by_count_None: "max_by_count c = None \<longleftrightarrow> c = []"
  by (induction c rule: max_by_count.induct) (auto split: option.splits)

text \<open>The room made: nothing given up unless all of it is taken; else the oldest of a source that
  holds the most.\<close>

lemma room_spec:
  assumes perm: "\<And>xs. mset (order xs) = mset xs" and l: "length (items q) \<le> u64_max"
    and r: "room n order q = (q', given)" and n: "0 < n"
  shows "if is_full n q
    then \<exists>most h a b. given = Some h \<and> items q = a @ (most, h) # b \<and> items q' = a @ b \<and>
           most \<notin> fst ` set a \<and> (\<forall>s. held_count (items q) s \<le> held_count (items q) most)
    else given = None \<and> q' = q"
proof (cases "is_full n q")
  case True
  let ?c = "order (held_by q)"
  have set: "set ?c = set (held_by q)"
    by (rule mset_eq_setD [OF perm])
  have counts: "(s, k) \<in> set ?c \<longleftrightarrow> k = held_count (items q) s \<and> 0 < k" for s k
    using held_by_ok [OF l] unfolding set counts_of_def by (auto simp flip: map_of_eq_Some_iff)
  obtain x xs where x: "items q = x # xs"
    using True n by (cases "items q") (auto simp: is_full_def)
  have "(fst x, held_count (items q) (fst x)) \<in> set ?c"
    by (cases x) (simp add: counts x)
  then obtain most m where most: "max_by_count ?c = Some (most, m)"
    by (cases "max_by_count ?c") (auto simp: max_by_count_None)
  have m: "m = held_count (items q) most" "0 < m" "\<And>s k. (s, k) \<in> set ?c \<Longrightarrow> k \<le> m"
    using max_by_count_Some [OF most] by (auto simp: counts)
  have all: "held_count (items q) s \<le> held_count (items q) most" for s
    using m(1) m(3) [of s "held_count (items q) s"] by (cases "held_count (items q) s = 0") (auto simp: counts)
  obtain taken q'' where t: "take_first (\<lambda>(s, _). s = most) q = (taken, q'')"
    by (cases "take_first (\<lambda>(s, _). s = most) q")
  have "\<exists>y\<in>set (items q). fst y = most"
    using m(1,2) by (force simp: held_count_def filter_empty_conv)
  then obtain y where y: "taken = Some y"
    using take_first_misses [of "\<lambda>(s, _). s = most" q q''] t by (cases taken) auto
  obtain a b where ab: "items q = a @ y # b" "items q'' = a @ b" "fst y = most" "\<forall>z\<in>set a. fst z \<noteq> most"
    using take_first_split [of "\<lambda>(s, _). s = most" q y q''] t y by (auto simp: case_prod_beta)
  have "q' = q''" "given = Some (snd y)"
    using r True most t y by (simp_all add: room_def)
  moreover obtain h where "y = (most, h)"
    using ab(3) by (cases y) simp
  moreover have "most \<notin> fst ` set a"
    using ab(4) by auto
  ultimately have "given = Some h \<and> items q = a @ (most, h) # b \<and> items q' = a @ b \<and>
      most \<notin> fst ` set a \<and> (\<forall>s. held_count (items q) s \<le> held_count (items q) most)"
    using ab(1,2) all by simp
  then show ?thesis
    unfolding if_P [OF True] by (intro exI)
next
  case False
  then show ?thesis
    using r by (simp add: room_def)
qed

section \<open>Sources\<close>

lemma same_site:
  "source_key_of (Ip (V6 a)) = source_key_of (Ip (V6 b)) \<longleftrightarrow> drop_bit 80 a = drop_bit 80 b"
proof -
  let ?m = "not (drop_bit 48 (- 1)) :: 128 word"
  have m: "bit ?m i \<longleftrightarrow> 80 \<le> i" if "i < 128" for i
    using that by (auto simp: bit_simps)
  have eq: "x = y \<longleftrightarrow> (\<forall>i<128. bit x i \<longleftrightarrow> bit y i)" for x y :: "128 word"
    by (auto intro: bit_word_eqI)
  have "and a ?m = and b ?m \<longleftrightarrow> (\<forall>i<128. 80 \<le> i \<longrightarrow> (bit a i \<longleftrightarrow> bit b i))"
    using m by (auto simp: eq bit_and_iff)
  moreover have "drop_bit 80 a = drop_bit 80 b \<longleftrightarrow> (\<forall>i<128. 80 \<le> i \<longrightarrow> (bit a i \<longleftrightarrow> bit b i))"
  proof
    assume d: "drop_bit 80 a = drop_bit 80 b"
    show "\<forall>i<128. 80 \<le> i \<longrightarrow> (bit a i \<longleftrightarrow> bit b i)"
    proof (intro allI impI)
      fix i :: nat assume "i < 128" "80 \<le> i"
      then have "bit x i = bit (drop_bit 80 x) (i - 80)" for x :: "128 word"
        by (simp add: bit_drop_bit_eq)
      then show "bit a i \<longleftrightarrow> bit b i" using d by simp
    qed
  next
    assume h: "\<forall>i<128. 80 \<le> i \<longrightarrow> (bit a i \<longleftrightarrow> bit b i)"
    have "bit a (80 + i) \<longleftrightarrow> bit b (80 + i)" for i
      using h bit_imp_le_length [of a "80 + i"] bit_imp_le_length [of b "80 + i"]
      by (cases "80 + i < 128") auto
    then show "drop_bit 80 a = drop_bit 80 b"
      by (intro bit_eqI) (simp add: bit_drop_bit_eq)
  qed
  ultimately show ?thesis
    by (simp add: source_key_of_def)
qed

section \<open>Connections\<close>

definition gate_ok :: "nat \<Rightarrow> 'p gate \<Rightarrow> bool" where
  "gate_ok n g \<longleftrightarrow>
     gt_free g + length (gt_serving g) + length (gt_granted g) = n \<and>
     gt_places g + length (gt_queue g) + length (gt_granted g) = n \<and>
     (gt_queue g \<noteq> [] \<longrightarrow> gt_free g = 0)"

lemma gate_ok_new: "gate_ok n (gate_new n)"
  by (simp add: gate_ok_def gate_new_def)

lemma length_remove1_mem: "x \<in> set xs \<Longrightarrow> Suc (length (remove1 x xs)) = length xs"
  by (induction xs) auto

lemma gate_ok_step: "gate_step g g' \<Longrightarrow> gate_ok n g \<Longrightarrow> gate_ok n g'"
proof (induction rule: gate_step.induct)
  case (admit_step g allowed peer)
  then show ?case
    by (auto simp: admit_def gate_ok_def split: option.split)
next
  case (ran_out_step c g)
  then show ?case
    using length_remove1_mem [of c "gt_queue g"] by (auto simp: wait_ran_out_def gate_ok_def)
next
  case (taken_up_step c g)
  then show ?case
    using length_remove1_mem [of c "gt_granted g"] by (auto simp: permit_taken_up_def gate_ok_def)
next
  case (done_step c g)
  then show ?case
    using length_remove1_mem [of c "gt_serving g"]
    by (auto simp: connection_done_def gate_ok_def Let_def split: list.split)
qed

lemma gate_ok_reachable: "gate_step\<^sup>*\<^sup>* (gate_new n) g \<Longrightarrow> gate_ok n g"
  by (induction rule: rtranclp_induct) (auto simp: gate_ok_new intro: gate_ok_step)

section \<open>Properties\<close>



definition a_host :: "nat host" where
  "a_host = \<lparr>h_allowed = [(7, scope_full)], h_settling = settling_new, h_registry = registry_new 4 1, h_jobs = jobs_new 10 10\<rparr>"


text \<open>C30: Room for a handshake: never more than \<open>MOST_PENDING\<close> are under way, and a new one always
  gets in (or is asked to show its address is real). One is given up for it only when all the room
  is taken by handshakes not done, and that is the oldest of a source that holds at least as many
  as any other: whoever holds fewer loses none.\<close>

theorem a_flood_gives_up_its_own:
  assumes perm: "\<And>xs. mset (order xs) = mset xs"
    and q: "within MOST_PENDING q"
    and turn: "incoming_turn order finished addr validated retry h q = (q', arrival, given)"
    and live: "live = filter (\<lambda>(_, h). \<not> finished h) (items q)"
  shows "within MOST_PENDING q' \<and>
    (case arrival of
       Retried \<Rightarrow> items q' = live \<and> given = None \<and> \<not> validated
     | Begun \<Rightarrow>
         (case given of
            None \<Rightarrow> items q' = live @ [(source_key_of addr, h)]
          | Some g \<Rightarrow>
              \<exists>most a b. live = a @ (most, g) # b \<and> items q' = a @ b @ [(source_key_of addr, h)] \<and>
                most \<notin> fst ` set a \<and> length live = MOST_PENDING \<and>
                (\<forall>s. held_count live s \<le> held_count live most)))"
proof -
  obtain q1 full where c: "crowded MOST_PENDING finished q = (q1, full)"
    by (cases "crowded MOST_PENDING finished q")
  have q1: "items q1 = live" "full = is_full MOST_PENDING q1"
    using c live by (auto simp: crowded_def retain_def Let_def)
  have len: "length live \<le> MOST_PENDING"
    using q length_filter_le [of "\<lambda>(_, h). \<not> finished h" "items q"] unfolding live within_def by linarith
  show ?thesis
  proof (cases "full \<and> source_key_of addr \<noteq> None \<and> \<not> validated \<and> retry")
    case True
    then have "q' = q1" "arrival = Retried" "given = None"
      using turn c by (auto simp: incoming_turn_def Let_def)
    then show ?thesis
      using True q1 len by (simp add: within_def)
  next
    case False
    obtain q2 g where r: "room MOST_PENDING order q1 = (q2, g)"
      by (cases "room MOST_PENDING order q1")
    have e: "q' = push_evicting MOST_PENDING q2 (source_key_of addr, h)" "arrival = Begun" "given = g"
      using turn c r False by (auto simp: incoming_turn_def Let_def)
    have "length (items q1) \<le> u64_max"
      using len q1 by (simp add: MOST_PENDING_def u64_max_def)
    note spec = room_spec [OF perm this r]
    show ?thesis
    proof (cases "is_full MOST_PENDING q1")
      case True
      then obtain most x a b where x: "g = Some x" "live = a @ (most, x) # b" "items q2 = a @ b"
        "most \<notin> fst ` set a" "\<forall>s. held_count live s \<le> held_count live most"
        using spec q1 by (auto simp: MOST_PENDING_def)
      have "length live = MOST_PENDING"
        using True len q1 by (simp add: is_full_def)
      moreover from this have "\<not> is_full MOST_PENDING q2"
        using x by (simp add: is_full_def)
      ultimately have all: "live = a @ (most, x) # b \<and> items q' = a @ b @ [(source_key_of addr, h)] \<and>
          most \<notin> fst ` set a \<and> length live = MOST_PENDING \<and>
          (\<forall>s. held_count live s \<le> held_count live most)" and w: "within MOST_PENDING q'"
        using x e len by (auto simp: push_evicting_def within_def)
      show ?thesis
        unfolding e(2,3) x(1) arrival.case option.case by (rule conjI [OF w], intro exI, rule all)
    next
      case False
      then have "g = None" "q2 = q1"
        using spec by (auto simp: MOST_PENDING_def)
      then show ?thesis
        using e False q1 by (simp add: push_evicting_def within_def is_full_def)
    qed
  qed
qed

lemma a_flood_gives_up_its_own_witness:
  "\<exists>q' arrival. incoming_turn (\<lambda>xs. xs) (\<lambda>_. False) Relayed False False (2::nat) (Bounded [(None, 1)]) = (q', arrival, None) \<and>
     within MOST_PENDING q' \<and> items q' = [(None, 1), (None, 2)]"
proof -
  have q: "within MOST_PENDING (Bounded [(None :: source_key option, 1::nat)])"
    by (simp add: within_def MOST_PENDING_def)
  obtain q' a g where t: "incoming_turn (\<lambda>xs. xs) (\<lambda>_. False) Relayed False False (2::nat) (Bounded [(None, 1)]) = (q', a, g)"
    using prod_cases3 by blast
  have "a = Begun \<and> g = None"
    using t by (simp add: incoming_turn_def crowded_def retain_def is_full_def MOST_PENDING_def room_def source_key_of_def)
  then show ?thesis
    using a_flood_gives_up_its_own [OF refl q t refl] t by (simp add: source_key_of_def)
qed

text \<open>Two addresses of the network share their room exactly if they are the same IPv4 address or
  in the same IPv6 /48; through a relay all share one.\<close>

theorem sources_are_sites:
  "source_key_of (Ip (V6 a)) = source_key_of (Ip (V6 b)) \<longleftrightarrow> drop_bit 80 a = drop_bit 80 b"
  by (rule same_site)

text \<open>C31: However connections come, wait and end: at most as many are served as there are permits and
  at most as many wait; one is turned away as busy only when every permit is held and every place
  among those waiting is taken; and one whose key is not allowed is turned away with nothing held.\<close>

theorem connections_keep_to_their_permits:
  assumes reach: "gate_step\<^sup>*\<^sup>* (gate_new n) g" and a: "admit allowed peer g = (g', a)"
  shows "length (gt_serving g) \<le> n \<and> length (gt_queue g) \<le> n \<and>
    (case bt_get allowed peer of
       None \<Rightarrow> a = Turned_Away NotAuthorized \<and> g' = g
     | Some scope \<Rightarrow>
         (case a of
            Served \<Rightarrow> gt_serving g' = gt_serving g @ [(peer, scope)] \<and> gt_queue g = []
          | Queued \<Rightarrow> gt_queue g' = gt_queue g @ [(peer, scope)] \<and> gt_serving g' = gt_serving g
          | Turned_Away c \<Rightarrow> c = Server_Busy \<and> g' = g \<and>
              length (gt_serving g) + length (gt_granted g) = n \<and>
              length (gt_queue g) + length (gt_granted g) = n))"
  using gate_ok_reachable [OF reach] a
  by (auto simp: gate_ok_def admit_def split: option.splits if_splits)

lemma connections_keep_to_their_permits_witness:
  "\<exists>g'. admit [(1::nat, scope_full)] 2 (gate_new 3) = (g', Turned_Away NotAuthorized) \<and> g' = gate_new 3"
proof -
  obtain g' a where a: "admit [(1::nat, scope_full)] 2 (gate_new 3) = (g', a)"
    by (cases "admit [(1::nat, scope_full)] 2 (gate_new 3)")
  show ?thesis
    using connections_keep_to_their_permits [OF rtranclp.rtrancl_refl a] a by (simp add: bt_get_def)
qed

text \<open>C32: A key with a scope, whatever it asks, gets no shell, no session list and no session's text
  (and the registry attaches it nowhere); a copy is in its \<open>cp\<close> directory, a command or job in its
  \<open>exec\<close> directory; and every path it names that is taken is beneath the directory it was given.\<close>

theorem scoped_keys_stay_in_scope:
  assumes scoped: "\<not> is_full_scope scope" and dirs: "dir_ok (sc_cp scope)" "dir_ok (sc_exec scope)"
    and may: "permitted req scope home = Some pl"
  shows "\<exists>d. pl_root pl = Some (utf8 d) \<and>
    (\<forall>path r. resolve pl path = Inr r \<longrightarrow> path_starts_with (resolved_path r) (utf8 d)) \<and>
    (case req of
       Shell _ _ _ _ \<Rightarrow> False | Sessions \<Rightarrow> False | Output _ _ \<Rightarrow> False
     | Copy _ \<Rightarrow> sc_cp scope = Some d
     | Wait_For _ \<Rightarrow> sc_exec scope = Some d \<or> sc_exec scope = None \<and> sc_cp scope = Some d
     | _ \<Rightarrow> sc_exec scope = Some d) \<and>
    (\<forall>allowed peer. bt_get allowed peer = Some scope \<longrightarrow> \<not> allows allowed peer)"
proof -
  obtain d where d: "pl_root pl = Some (utf8 d)" and
    from_scope: "case req of
       Shell _ _ _ _ \<Rightarrow> False | Sessions \<Rightarrow> False | Output _ _ \<Rightarrow> False
     | Copy _ \<Rightarrow> sc_cp scope = Some d
     | Wait_For _ \<Rightarrow> sc_exec scope = Some d \<or> sc_exec scope = None \<and> sc_cp scope = Some d
     | _ \<Rightarrow> sc_exec scope = Some d"
    using may scoped
    by (cases req) (auto simp: permitted_def split: option.splits on.splits until.splits)
  have "sc_exec scope = Some d \<or> sc_cp scope = Some d"
    using from_scope by (cases req) auto
  then have "scope_dir d = Some d"
    using dirs by (auto simp: dir_ok_def)
  then obtain t where "d = 47 # t"
    by (auto simp: scope_dir_def starts_with_iff split: if_splits)
  then have abs: "is_absolute (utf8 d)"
    by (simp add: is_absolute_def starts_with_def utf8_def utf8_char_def)
  have "path_starts_with (resolved_path r) (utf8 d)" if "resolve pl path = Inr r" for path r
    by (rule resolve_beneath [OF d abs that])
  then show ?thesis
    using d from_scope scoped by (auto simp: allows_def)
qed

lemma scoped_keys_stay_in_scope_witness:
  "\<exists>pl. permitted (Copy () :: unit request) \<lparr>sc_cp = Some (chars_of ''/srv''), sc_exec = None\<rparr> None = Some pl \<and>
     pl_root pl = Some (ascii ''/srv'')"
proof -
  let ?s = "\<lparr>sc_cp = Some (chars_of ''/srv''), sc_exec = None\<rparr>"
  have ok: "\<not> is_full_scope ?s" "dir_ok (sc_cp ?s)" "dir_ok (sc_exec ?s)"
    by (simp_all add: is_full_scope_def dir_ok_def scope_dir_def chars_of_def starts_with_def is_whitespace_def)
  have p: "permitted (Copy () :: unit request) ?s None = Some \<lparr>pl_home = None, pl_root = Some (utf8 (chars_of ''/srv''))\<rparr>"
    by (simp add: permitted_def is_full_scope_def)
  then show ?thesis
    using scoped_keys_stay_in_scope [OF ok p]
    by (auto simp: chars_of_def utf8_def utf8_char_def ascii_def)
qed

end
