(* ===== verification/Koh_Predict.thy ===== *)
theory Koh_Predict
  imports Koh_Events Koh_BTree
begin

text \<open>
  \<open>src/src/predict.rs\<close>: the client's local-echo prediction. The screen a frame showed is fux-vt's:
  a record of what the code asks of it. How wide a text is and whether a character continues a
  cluster are libraries' (\<open>glyphs\<close>), a cell's attributes are of any type \<open>'a\<close>. A text is its
  characters. The engine's counters are 64-bit and saturate, columns are 16-bit and checked.
\<close>

section \<open>The screen\<close>

record 'a vt_cell =
  vc_text :: "nat list"
  vc_attributes :: 'a
  vc_wide :: bool
  vc_continues :: bool

record 'a screen =
  scr_size :: size
  scr_cell :: "nat \<Rightarrow> nat \<Rightarrow> 'a vt_cell option"
  scr_cursor :: "nat \<times> nat"
  scr_alternate :: bool

record 'a glyphs =
  gl_width :: "nat list \<Rightarrow> nat"
  gl_continues :: "nat list \<Rightarrow> nat \<Rightarrow> bool"
  gl_default :: 'a

definition u16_max :: nat where "u16_max = 65535"

definition checked_add16 :: "nat \<Rightarrow> nat \<Rightarrow> nat option" where
  "checked_add16 a b = (if a + b \<le> u16_max then Some (a + b) else None)"

section \<open>Predictions\<close>

datatype half = Narrow | Wide | Covered

record 'a cell =
  ce_text :: "nat list"
  ce_attributes :: 'a
  ce_half :: half

definition cell_of :: "'a vt_cell \<Rightarrow> 'a cell" where
  "cell_of c =
     \<lparr>ce_text = vc_text c, ce_attributes = vc_attributes c,
      ce_half = (if vc_continues c then Covered else if vc_wide c then Wide else Narrow)\<rparr>"

definition is_blank :: "nat list \<Rightarrow> bool" where
  "is_blank s \<longleftrightarrow> s = [] \<or> s = [32]"

definition cell_blank :: "'a cell \<Rightarrow> bool" where
  "cell_blank c \<longleftrightarrow> ce_half c = Narrow \<and> is_blank (ce_text c)"

record 'a drawn =
  ov_cells :: "((nat \<times> nat) \<times> 'a cell) list"
  ov_cursor :: "(nat \<times> nat) option"

record 'a pred_cell =
  pc_expiration :: nat
  pc_epoch :: nat
  pc_guess :: "'a cell option"
  pc_original :: "nat list"
  pc_typed :: bool

record guessed =
  gs_expiration :: nat
  gs_epoch :: nat
  gs_row :: nat
  gs_col :: nat

datatype typed_line = Line_Unknown | Fresh nat | Begun_At nat nat

datatype validity = Pending_Yet | Correct | Correct_No_Credit | Incorrect_Or_Expired

record 'a engine =
  en_cells :: "(nat \<times> nat, 'a pred_cell) btree"
  en_cursor :: "guessed option"
  en_epoch :: nat
  en_confirmed :: nat
  en_sent :: nat
  en_acked :: nat
  en_held :: "nat option"
  en_size :: "size option"
  en_tty :: "tty_modes option"
  en_carried :: bool
  en_line :: typed_line

definition FIRST_EPOCH :: nat where "FIRST_EPOCH = 1"

definition engine_default :: "'a engine" where
  "engine_default =
     \<lparr>en_cells = [], en_cursor = None, en_epoch = FIRST_EPOCH, en_confirmed = 0, en_sent = 0, en_acked = 0,
      en_held = None, en_size = None, en_tty = None, en_carried = False, en_line = Line_Unknown\<rparr>"

definition reattached :: "'a engine \<Rightarrow> 'a engine" where
  "reattached e = engine_default\<lparr>en_carried := en_carried e \<or> en_epoch e = en_confirmed e\<rparr>"

definition next_frame :: "'a engine \<Rightarrow> nat" where
  "next_frame e = sat_add64 (en_sent e) 1"

definition become_tentative :: "'a engine \<Rightarrow> 'a engine" where
  "become_tentative e = e\<lparr>en_epoch := sat_add64 (en_epoch e) 1\<rparr>"

definition tentative :: "'a engine \<Rightarrow> nat \<Rightarrow> bool" where
  "tentative e epoch \<longleftrightarrow> en_confirmed e < epoch"

definition discard_line :: "'a engine \<Rightarrow> 'a engine" where
  "discard_line e = (case en_line e of Begun_At _ _ \<Rightarrow> e\<lparr>en_line := Line_Unknown\<rparr> | _ \<Rightarrow> e)"

definition engine_reset :: "'a engine \<Rightarrow> 'a engine" where
  "engine_reset e = become_tentative (discard_line (e\<lparr>en_cells := [], en_cursor := None\<rparr>))"

definition set_tty :: "tty_modes option \<Rightarrow> 'a engine \<Rightarrow> 'a engine" where
  "set_tty tty e =
     (let e = e\<lparr>en_tty := tty\<rparr> in
      case tty of
        None \<Rightarrow> e
      | Some m \<Rightarrow>
          if password m then
            (let e = (if en_cells e \<noteq> [] \<or> en_cursor e \<noteq> None then engine_reset e else e)
             in e\<lparr>en_carried := False\<rparr>)
          else if en_carried e then
            e\<lparr>en_carried := False, en_confirmed := max (en_confirmed e) (en_epoch e)\<rparr>
          else e)"

definition set_local_frame_sent :: "nat \<Rightarrow> 'a engine \<Rightarrow> 'a engine" where
  "set_local_frame_sent n e = e\<lparr>en_sent := n\<rparr>"

definition set_local_frame_late_acked :: "nat \<Rightarrow> 'a engine \<Rightarrow> 'a engine" where
  "set_local_frame_late_acked n e = e\<lparr>en_acked := n\<rparr>"

definition move_cursor :: "nat \<times> nat \<Rightarrow> 'a engine \<Rightarrow> 'a engine" where
  "move_cursor at e =
     e\<lparr>en_cursor := Some \<lparr>gs_expiration = next_frame e, gs_epoch = en_epoch e, gs_row = fst at, gs_col = snd at\<rparr>\<rparr>"

definition unmodelled :: "'a engine \<Rightarrow> 'a engine" where
  "unmodelled e = (become_tentative e)\<lparr>en_line := Line_Unknown\<rparr>"

section \<open>Grading\<close>

definition cell_validity :: "'a pred_cell \<Rightarrow> 'a screen \<Rightarrow> nat \<times> nat \<Rightarrow> nat \<Rightarrow> validity" where
  "cell_validity c scr at acked =
     (case scr_cell scr (fst at) (snd at) of
        None \<Rightarrow> Incorrect_Or_Expired
      | Some actual \<Rightarrow>
          if acked < pc_expiration c then Pending_Yet
          else (case pc_guess c of
              None \<Rightarrow> Correct_No_Credit
            | Some guess \<Rightarrow>
                if ce_half guess = Covered then
                  (if vc_continues actual then Correct_No_Credit else Incorrect_Or_Expired)
                else if is_blank (ce_text guess) then Correct_No_Credit
                else if vc_text actual \<noteq> ce_text guess then Incorrect_Or_Expired
                else if pc_original c = ce_text guess then Correct_No_Credit
                else Correct))"

definition cursor_validity :: "guessed \<Rightarrow> 'a screen \<Rightarrow> nat \<Rightarrow> validity" where
  "cursor_validity cur scr acked =
     (if rows (scr_size scr) \<le> gs_row cur \<or> cols (scr_size scr) \<le> gs_col cur then Incorrect_Or_Expired
      else if acked < gs_expiration cur then Pending_Yet
      else if scr_cursor scr = (gs_row cur, gs_col cur) then Correct
      else Incorrect_Or_Expired)"

text \<open>What the loop of \<open>cull\<close> gathers; none if a guess that was shown is wrong.\<close>

record 'a grading =
  gr_remove :: "(nat \<times> nat) list"
  gr_kill :: "nat list"
  gr_confirm :: nat
  gr_restyle :: "((nat \<times> nat) \<times> 'a) list"

fun grade ::
  "'a engine \<Rightarrow> 'a screen \<Rightarrow> ((nat \<times> nat) \<times> 'a pred_cell) list \<Rightarrow> 'a grading \<Rightarrow> 'a grading option" where
  "grade e scr [] g = Some g"
| "grade e scr ((at, c) # cs) g =
     (case cell_validity c scr at (en_acked e) of
        Pending_Yet \<Rightarrow> grade e scr cs g
      | Correct \<Rightarrow>
          grade e scr cs
            (g\<lparr>gr_confirm := max (gr_confirm g) (pc_epoch c),
               gr_restyle := (case scr_cell scr (fst at) (snd at) of
                  Some actual \<Rightarrow> gr_restyle g @ [(at, vc_attributes actual)] | None \<Rightarrow> gr_restyle g),
               gr_remove := gr_remove g @ [at]\<rparr>)
      | Correct_No_Credit \<Rightarrow> grade e scr cs (g\<lparr>gr_remove := gr_remove g @ [at]\<rparr>)
      | Incorrect_Or_Expired \<Rightarrow>
          if tentative e (pc_epoch c)
          then grade e scr cs (g\<lparr>gr_kill := pc_epoch c # gr_kill g, gr_remove := gr_remove g @ [at]\<rparr>)
          else None)"

text \<open>One confirmed cell's style, on the typed cells of its row from it on.\<close>

definition restyle_cells ::
  "(nat \<times> nat) \<times> 'a \<Rightarrow> (nat \<times> nat, 'a pred_cell) btree \<Rightarrow> (nat \<times> nat, 'a pred_cell) btree" where
  "restyle_cells r cells =
     map (\<lambda>(at, c).
       (at, if fst at = fst (fst r) \<and> snd (fst r) \<le> snd at \<and> pc_typed c
            then c\<lparr>pc_guess := map_option (\<lambda>g. g\<lparr>ce_attributes := snd r\<rparr>) (pc_guess c)\<rparr> else c)) cells"

definition cull_cursor :: "'a screen \<Rightarrow> 'a engine \<Rightarrow> 'a engine" where
  "cull_cursor scr e =
     (case en_cursor e of
        None \<Rightarrow> e
      | Some c \<Rightarrow>
          (case cursor_validity c scr (en_acked e) of
             Incorrect_Or_Expired \<Rightarrow> engine_reset e
           | Pending_Yet \<Rightarrow> e
           | _ \<Rightarrow> e\<lparr>en_cursor := None\<rparr>))"

text \<open>What is gathered is done: the confirmed cells go, their style on those right of them; then an
  epoch guessed wrong goes, with a new cursor where the screen shows it, hidden.\<close>

definition graded :: "'a grading \<Rightarrow> 'a engine \<Rightarrow> 'a engine" where
  "graded g e = e\<lparr>en_confirmed := gr_confirm g,
     en_cells := fold restyle_cells (gr_restyle g) (fold bt_remove (gr_remove g) (en_cells e))\<rparr>"

definition killed :: "'a screen \<Rightarrow> nat list \<Rightarrow> 'a engine \<Rightarrow> 'a engine" where
  "killed scr kill e =
     (if kill = [] then e
      else move_cursor (scr_cursor scr) (become_tentative (discard_line
             (e\<lparr>en_cells := bt_retain (\<lambda>(_, c). pc_epoch c \<notin> set kill) (en_cells e)\<rparr>))))"

definition cull :: "'a screen \<Rightarrow> 'a engine \<Rightarrow> 'a engine" where
  "cull scr e =
     (let prev = en_size e; e = e\<lparr>en_size := Some (scr_size scr)\<rparr> in
      if prev \<noteq> None \<and> prev \<noteq> Some (scr_size scr) then engine_reset e
      else
        (case grade e scr (en_cells e)
                \<lparr>gr_remove = [], gr_kill = [], gr_confirm = en_confirmed e, gr_restyle = []\<rparr> of
           None \<Rightarrow> engine_reset e
         | Some g \<Rightarrow> cull_cursor scr (killed scr (gr_kill g) (graded g e))))"

section \<open>Keys\<close>

record 'a key_context =
  ctx_screen :: "'a screen"
  ctx_tty :: tty_modes

definition engine_context :: "'a screen \<Rightarrow> 'a engine \<Rightarrow> 'a key_context option" where
  "engine_context scr e =
     (case en_tty e of
        None \<Rightarrow> None
      | Some tty \<Rightarrow>
          if \<not> password tty \<and> \<not> scr_alternate scr \<and> 0 < rows (scr_size scr) \<and> 0 < cols (scr_size scr)
          then Some \<lparr>ctx_screen = scr, ctx_tty = tty\<rparr> else None)"

abbreviation ctx_rows :: "'a key_context \<Rightarrow> nat" where "ctx_rows ctx \<equiv> rows (scr_size (ctx_screen ctx))"
abbreviation ctx_cols :: "'a key_context \<Rightarrow> nat" where "ctx_cols ctx \<equiv> cols (scr_size (ctx_screen ctx))"

definition guess_at :: "'a key_context \<Rightarrow> 'a engine \<Rightarrow> nat \<Rightarrow> nat \<Rightarrow> 'a cell option" where
  "guess_at ctx e row col =
     (case bt_get (en_cells e) (row, col) of
        None \<Rightarrow> map_option cell_of (scr_cell (ctx_screen ctx) row col)
      | Some p \<Rightarrow> pc_guess p)"

definition place_at :: "'a key_context \<Rightarrow> nat \<times> nat \<Rightarrow> 'a cell option \<Rightarrow> bool \<Rightarrow> 'a engine \<Rightarrow> 'a engine" where
  "place_at ctx at guess typed e =
     e\<lparr>en_cells := bt_insert at
        \<lparr>pc_expiration = next_frame e, pc_epoch = en_epoch e, pc_guess = guess,
         pc_original = (case scr_cell (ctx_screen ctx) (fst at) (snd at) of Some c \<Rightarrow> vc_text c | None \<Rightarrow> []),
         pc_typed = typed\<rparr> (en_cells e)\<rparr>"

definition place_glyph :: "'a key_context \<Rightarrow> nat \<times> nat \<Rightarrow> 'a cell \<Rightarrow> 'a engine \<Rightarrow> 'a engine" where
  "place_glyph ctx at c e =
     (let e = place_at ctx at (Some c) True e in
      if ce_half c = Wide then
        (case checked_add16 (snd at) 1 of
           Some right \<Rightarrow>
             place_at ctx (fst at, right)
               (Some \<lparr>ce_text = [], ce_attributes = ce_attributes c, ce_half = Covered\<rparr>) True e
         | None \<Rightarrow> e)
      else e)"

definition cursor_at :: "'a screen \<Rightarrow> 'a engine \<Rightarrow> nat \<times> nat" where
  "cursor_at scr e = (case en_cursor e of None \<Rightarrow> scr_cursor scr | Some c \<Rightarrow> (gs_row c, gs_col c))"

definition newline :: "'a key_context \<Rightarrow> 'a engine \<Rightarrow> 'a engine" where
  "newline ctx e =
     (let row = fst (cursor_at (ctx_screen ctx) e) in
      move_cursor
        (case checked_add16 row 1 of
           Some new \<Rightarrow> (if new < ctx_rows ctx then new else row) | None \<Rightarrow> row, 0) e)"

definition begin_line :: "'a screen \<Rightarrow> 'a engine \<Rightarrow> 'a engine" where
  "begin_line scr e =
     (case en_line e of
        Fresh enter \<Rightarrow>
          e\<lparr>en_line := (if en_cursor e = None \<and> enter \<le> en_acked e
                        then Begun_At (fst (scr_cursor scr)) (snd (scr_cursor scr)) else Line_Unknown)\<rparr>
      | _ \<Rightarrow> e)"

definition blank_at :: "'a key_context \<Rightarrow> 'a engine \<Rightarrow> nat \<Rightarrow> nat \<Rightarrow> 'a cell option" where
  "blank_at ctx e row col =
     (case guess_at ctx e row col of Some c \<Rightarrow> if cell_blank c then Some c else None | None \<Rightarrow> None)"

definition glyph_before :: "'a key_context \<Rightarrow> 'a engine \<Rightarrow> nat \<Rightarrow> nat \<Rightarrow> (nat \<times> 'a cell) option" where
  "glyph_before ctx e row col =
     Option.bind (checked_sub col 1) (\<lambda>left.
     Option.bind (guess_at ctx e row left) (\<lambda>c.
     Option.bind
       (if ce_half c = Covered then
          Option.bind (checked_sub left 1) (\<lambda>at. map_option (\<lambda>c. (at, c)) (guess_at ctx e row at))
        else Some (left, c))
       (\<lambda>(at, c). if ce_text c \<noteq> [] \<and> ce_half c \<noteq> Covered then Some (at, c) else None)))"

text \<open>A glyph begun at the cursor, once nothing before it takes the character in.\<close>

definition new_glyph :: "'a glyphs \<Rightarrow> 'a key_context \<Rightarrow> nat \<Rightarrow> nat \<times> nat \<Rightarrow> 'a engine \<Rightarrow> 'a engine" where
  "new_glyph gl ctx c at e =
     (let row = fst at; col = snd at; text = [c]; width = min (gl_width gl text) u16_max in
      case checked_add16 col width of
        None \<Rightarrow> unmodelled e
      | Some end_col \<Rightarrow>
          if \<not> (0 < width \<and> end_col \<le> ctx_cols ctx) then unmodelled e
          else if \<not> list_all (\<lambda>k. blank_at ctx e row k \<noteq> None) [col..<end_col] then unmodelled e
          else
            let style = (case Option.bind (checked_sub col 1) (guess_at ctx e row) of
                  Some left \<Rightarrow> if ce_text left \<noteq> [] \<or> ce_half left = Covered
                               then ce_attributes left else gl_default gl
                | None \<Rightarrow> gl_default gl);
                glyph = \<lparr>ce_text = text, ce_attributes = style, ce_half = (if width = 2 then Wide else Narrow)\<rparr>;
                e = place_glyph ctx (row, col) glyph e
            in if end_col < ctx_cols ctx then move_cursor (row, end_col) e
               else newline ctx (become_tentative e))"

definition predict_glyph :: "'a glyphs \<Rightarrow> 'a key_context \<Rightarrow> nat \<Rightarrow> 'a engine \<Rightarrow> 'a engine" where
  "predict_glyph gl ctx c e =
     (let e = (if tty_echo (ctx_tty ctx) then e\<lparr>en_confirmed := max (en_confirmed e) FIRST_EPOCH\<rparr> else e);
          (row, col) = cursor_at (ctx_screen ctx) e
      in case glyph_before ctx e row col of
           Some (at, before) \<Rightarrow>
             if gl_continues gl (ce_text before) c then
               (let joined = before\<lparr>ce_text := ce_text before @ [c]\<rparr> in
                if gl_width gl (ce_text joined) \<noteq> gl_width gl (ce_text before) then unmodelled e
                else move_cursor (row, col) (place_glyph ctx (row, at) joined e))
             else new_glyph gl ctx c (row, col) e
         | None \<Rightarrow> new_glyph gl ctx c (row, col) e)"

definition may_step_back :: "'a engine \<Rightarrow> nat \<Rightarrow> nat \<Rightarrow> bool" where
  "may_step_back e row col =
     (let typed_before = (case Option.bind (checked_sub col 1) (\<lambda>left. bt_get (en_cells e) (row, left)) of
            Some c \<Rightarrow> pc_typed c | None \<Rightarrow> False)
      in case en_line e of
           Begun_At start_row start \<Rightarrow> if start_row = row then start < col else typed_before
         | _ \<Rightarrow> typed_before)"

definition predict_backspace :: "'a key_context \<Rightarrow> 'a engine \<Rightarrow> 'a engine" where
  "predict_backspace ctx e =
     (let (row, col) = cursor_at (ctx_screen ctx) e;
          left = (case checked_sub col 1 of
            Some l \<Rightarrow>
              if may_step_back e row col \<and>
                 (case guess_at ctx e row l of Some g \<Rightarrow> ce_half g = Narrow | None \<Rightarrow> False)
              then Some l else None
          | None \<Rightarrow> None)
      in case (left, blank_at ctx e row col) of
           (Some l, Some blank) \<Rightarrow> move_cursor (row, l) (place_at ctx (row, l) (Some blank) False e)
         | _ \<Rightarrow> unmodelled e)"

definition predict_arrow :: "'a key_context \<Rightarrow> bool \<Rightarrow> 'a engine \<Rightarrow> 'a engine" where
  "predict_arrow ctx right e =
     (let (row, col) = cursor_at (ctx_screen ctx) e;
          dest = (if right
                then (case checked_add16 col 1 of
                        Some n \<Rightarrow> if n < ctx_cols ctx then Some n else None | None \<Rightarrow> None)
                else (case checked_sub col 1 of
                        Some l \<Rightarrow> if may_step_back e row col then Some l else None | None \<Rightarrow> None))
      in case dest of Some d \<Rightarrow> move_cursor (row, d) e | None \<Rightarrow> unmodelled e)"

definition predict_enter :: "'a key_context \<Rightarrow> 'a engine \<Rightarrow> 'a engine" where
  "predict_enter ctx e =
     (let e = newline ctx (become_tentative e) in e\<lparr>en_line := Fresh (next_frame e)\<rparr>)"

definition hold :: "'a engine \<Rightarrow> 'a engine" where
  "hold e = become_tentative (e\<lparr>en_held := Some (next_frame e)\<rparr>)"

definition holding :: "'a engine \<Rightarrow> 'a engine \<times> bool" where
  "holding e =
     (case en_held e of
        Some held \<Rightarrow> if en_acked e < held then (e, True) else (e\<lparr>en_held := None\<rparr>, False)
      | None \<Rightarrow> (e, False))"

definition lower :: "nat \<Rightarrow> nat" where
  "lower c = (if 65 \<le> c \<and> c \<le> 90 then c + 32 else c)"

definition printable_of :: "key_press \<Rightarrow> nat option" where
  "printable_of press =
     (case kp_key press of
        VChar c \<Rightarrow>
          if \<not> m_alt (kp_mods press) \<and> \<not> m_ctrl (kp_mods press) \<and> \<not> is_control c then Some c else None
      | _ \<Rightarrow> None)"

definition predict_key :: "'a glyphs \<Rightarrow> 'a key_context \<Rightarrow> key_press \<Rightarrow> 'a engine \<Rightarrow> 'a engine" where
  "predict_key gl ctx press e =
     (case (kp_key press, m_alt (kp_mods press), m_ctrl (kp_mods press)) of
        (VChar c, False, True) \<Rightarrow>
          if lower c = 104 then predict_backspace ctx e
          else if lower c = 106 \<or> lower c = 109 then predict_enter ctx e
          else unmodelled e
      | (VChar c, False, False) \<Rightarrow> if is_control c then unmodelled e else predict_glyph gl ctx c e
      | (VBackspace, False, False) \<Rightarrow> predict_backspace ctx e
      | (VEnter, False, False) \<Rightarrow> predict_enter ctx e
      | (VArrow d, False, False) \<Rightarrow>
          if (d = DRight \<or> d = DLeft) \<and> \<not> tty_echo (ctx_tty ctx) then predict_arrow ctx (d = DRight) e
          else unmodelled e
      | _ \<Rightarrow> unmodelled e)"

text \<open>No context, or a key held back: a new epoch, and only where the line begins is kept up.\<close>

definition unpredicted :: "key_press \<Rightarrow> 'a engine \<Rightarrow> 'a engine" where
  "unpredicted press e =
     (let e = become_tentative e in
      e\<lparr>en_line :=
        (if kp_key press = VEnter \<and> \<not> m_alt (kp_mods press) \<and> \<not> m_ctrl (kp_mods press)
         then Fresh (next_frame e)
         else if printable_of press \<noteq> None then en_line e else Line_Unknown)\<rparr>)"

definition key_pressed :: "'a glyphs \<Rightarrow> key_press \<Rightarrow> 'a screen \<Rightarrow> 'a engine \<Rightarrow> 'a engine" where
  "key_pressed gl press scr e =
     (case engine_context scr e of
        None \<Rightarrow> unpredicted press e
      | Some ctx \<Rightarrow>
          (let (e, held) = holding e in
           if held then unpredicted press e else predict_key gl ctx press e))"

definition new_user_key :: "'a glyphs \<Rightarrow> key_press \<Rightarrow> 'a screen \<Rightarrow> 'a engine \<Rightarrow> 'a engine" where
  "new_user_key gl press scr e =
     (let e = cull scr e;
          e = (if printable_of press \<noteq> None then begin_line scr e else e)
      in key_pressed gl press scr e)"

definition new_user_other :: "'a screen \<Rightarrow> 'a engine \<Rightarrow> 'a engine" where
  "new_user_other scr e = unmodelled (cull scr e)"

definition overlay :: "'a engine \<Rightarrow> 'a drawn" where
  "overlay e =
     (if (case en_tty e of Some m \<Rightarrow> password m | None \<Rightarrow> False)
      then \<lparr>ov_cells = [], ov_cursor = None\<rparr>
      else
        \<lparr>ov_cells = List.map_filter (\<lambda>(at, c). map_option (\<lambda>g. (at, g)) (pc_guess c))
           (filter (\<lambda>(_, c). \<not> tentative e (pc_epoch c)) (en_cells e)),
         ov_cursor = (case en_cursor e of
            Some c \<Rightarrow> if tentative e (gs_epoch c) then None else Some (gs_row c, gs_col c)
          | None \<Rightarrow> None)\<rparr>)"

end
