(* ===== verification/Koh_Predict_Proofs.thy ===== *)
theory Koh_Predict_Proofs
  imports Koh_Predict
begin

text \<open>
  What prediction promises: nothing is shown until an echo (or the terminal's own modes) confirms
  it, no key held back is ever predicted, and each frame settles every guess it can grade.
\<close>

section \<open>A run of the engine\<close>

datatype 'a pred_event =
    Key_Event key_press "'a screen"
  | Other_Event "'a screen"
  | Frame "'a screen"
  | Hold
  | Sent_Frame nat
  | Acked nat
  | Tty "tty_modes option"
  | Reset

definition pred_step :: "'a glyphs \<Rightarrow> 'a pred_event \<Rightarrow> 'a engine \<Rightarrow> 'a engine" where
  "pred_step gl ev e =
     (case ev of
        Key_Event press scr \<Rightarrow> new_user_key gl press scr e
      | Other_Event scr \<Rightarrow> new_user_other scr e
      | Frame scr \<Rightarrow> cull scr e
      | Hold \<Rightarrow> hold e
      | Sent_Frame n \<Rightarrow> set_local_frame_sent n e
      | Acked n \<Rightarrow> set_local_frame_late_acked n e
      | Tty tty \<Rightarrow> set_tty tty e
      | Reset \<Rightarrow> engine_reset e)"

definition pred_run :: "'a glyphs \<Rightarrow> 'a pred_event list \<Rightarrow> 'a engine \<Rightarrow> 'a engine" where
  "pred_run gl evs e = fold (pred_step gl) evs e"

lemma pred_run_simps [simp]:
  "pred_run gl [] e = e"
  "pred_run gl (ev # evs) e = pred_run gl evs (pred_step gl ev e)"
  by (simp_all add: pred_run_def)

text \<open>The guesses of the cells, and a frame that shows one as it was guessed.\<close>

definition echoes :: "'a screen \<Rightarrow> 'a engine \<Rightarrow> bool" where
  "echoes scr e \<longleftrightarrow> list_ex (\<lambda>(at, c). cell_validity c scr at (en_acked e) = Correct) (en_cells e)"

text \<open>What may confirm an epoch: a frame that shows a guess, a terminal that itself echoes, trust
  carried from a connection that showed typing.\<close>

definition confirms :: "'a pred_event \<Rightarrow> 'a engine \<Rightarrow> bool" where
  "confirms ev e =
     (case ev of
        Key_Event press scr \<Rightarrow> echoes scr e \<or> (case en_tty e of Some m \<Rightarrow> tty_echo m | None \<Rightarrow> False)
      | Other_Event scr \<Rightarrow> echoes scr e
      | Frame scr \<Rightarrow> echoes scr e
      | Tty (Some m) \<Rightarrow> en_carried e \<and> \<not> password m
      | _ \<Rightarrow> False)"

fun unconfirmed :: "'a glyphs \<Rightarrow> 'a pred_event list \<Rightarrow> 'a engine \<Rightarrow> bool" where
  "unconfirmed gl [] e = True"
| "unconfirmed gl (ev # evs) e = (\<not> confirms ev e \<and> unconfirmed gl evs (pred_step gl ev e))"

section \<open>Every prediction is hidden by its epoch\<close>

text \<open>All the predictions there are, and any made next, are of epochs after \<open>k\<close>.\<close>

definition after_epoch :: "nat \<Rightarrow> 'a engine \<Rightarrow> bool" where
  "after_epoch k e \<longleftrightarrow>
     k < en_epoch e \<and> en_epoch e \<le> u64_max \<and>
     (\<forall>x\<in>set (en_cells e). k < pc_epoch (snd x)) \<and>
     (case en_cursor e of Some c \<Rightarrow> k < gs_epoch c | None \<Rightarrow> True)"

named_theorems predict_keeps

lemma set_bt_insert_subset: "set (bt_insert k v t) \<subseteq> insert (k, v) (set t)"
  by (induction k v t rule: bt_insert.induct) auto

lemma after_tentative [predict_keeps]: "after_epoch k e \<Longrightarrow> after_epoch k (become_tentative e)"
  by (auto simp: after_epoch_def become_tentative_def sat_add_def split: option.splits)

lemma after_line [predict_keeps]: "after_epoch k e \<Longrightarrow> after_epoch k (e\<lparr>en_line := l\<rparr>)"
  by (simp add: after_epoch_def)

lemma after_discard [predict_keeps]: "after_epoch k e \<Longrightarrow> after_epoch k (discard_line e)"
  by (auto simp: discard_line_def predict_keeps split: typed_line.split)

lemma after_reset [predict_keeps]: "after_epoch k e \<Longrightarrow> after_epoch k (engine_reset e)"
  by (auto simp: engine_reset_def intro!: predict_keeps) (simp add: after_epoch_def)

lemma after_move [predict_keeps]: "after_epoch k e \<Longrightarrow> after_epoch k (move_cursor at e)"
  by (simp add: after_epoch_def move_cursor_def)

lemma after_unmodelled [predict_keeps]: "after_epoch k e \<Longrightarrow> after_epoch k (unmodelled e)"
  by (simp add: unmodelled_def predict_keeps)

lemma after_place [predict_keeps]: "after_epoch k e \<Longrightarrow> after_epoch k (place_at ctx at g t e)"
  using set_bt_insert_subset by (fastforce simp: after_epoch_def place_at_def split: option.splits)

lemma after_place_glyph [predict_keeps]: "after_epoch k e \<Longrightarrow> after_epoch k (place_glyph ctx at c e)"
  by (auto simp: place_glyph_def predict_keeps Let_def split: option.split)

lemma after_newline [predict_keeps]: "after_epoch k e \<Longrightarrow> after_epoch k (newline ctx e)"
  by (simp add: newline_def predict_keeps Let_def)

lemma after_begin_line [predict_keeps]: "after_epoch k e \<Longrightarrow> after_epoch k (begin_line scr e)"
  by (auto simp: begin_line_def predict_keeps split: typed_line.split)

lemma after_new_glyph [predict_keeps]: "after_epoch k e \<Longrightarrow> after_epoch k (new_glyph gl ctx c at e)"
  by (auto simp: new_glyph_def predict_keeps Let_def split: option.split)

lemma after_confirmed [predict_keeps]: "after_epoch k e \<Longrightarrow> after_epoch k (e\<lparr>en_confirmed := n\<rparr>)"
  by (simp add: after_epoch_def)

lemma after_glyph [predict_keeps]: "after_epoch k e \<Longrightarrow> after_epoch k (predict_glyph gl ctx c e)"
  by (auto simp: predict_glyph_def predict_keeps Let_def split: option.split prod.split)

lemma after_backspace [predict_keeps]: "after_epoch k e \<Longrightarrow> after_epoch k (predict_backspace ctx e)"
  by (auto simp: predict_backspace_def predict_keeps Let_def split: option.split prod.split)

lemma after_arrow [predict_keeps]: "after_epoch k e \<Longrightarrow> after_epoch k (predict_arrow ctx r e)"
  by (auto simp: predict_arrow_def predict_keeps Let_def split: option.split prod.split)

lemma after_enter [predict_keeps]: "after_epoch k e \<Longrightarrow> after_epoch k (predict_enter ctx e)"
  by (simp add: predict_enter_def predict_keeps Let_def)

lemma after_holding [predict_keeps]: "after_epoch k e \<Longrightarrow> after_epoch k (fst (holding e))"
  by (auto simp: holding_def after_epoch_def split: option.split)

lemma after_hold [predict_keeps]: "after_epoch k e \<Longrightarrow> after_epoch k (hold e)"
  by (auto simp: hold_def intro!: predict_keeps) (simp add: after_epoch_def)

lemma after_unpredicted [predict_keeps]: "after_epoch k e \<Longrightarrow> after_epoch k (unpredicted press e)"
  by (simp add: unpredicted_def predict_keeps Let_def)

lemma predict_key_cases:
  "\<lbrakk>P (unmodelled e); P (predict_backspace ctx e); P (predict_enter ctx e);
    \<And>c. P (predict_glyph gl ctx c e); \<And>r. P (predict_arrow ctx r e)\<rbrakk> \<Longrightarrow>
   P (predict_key gl ctx press e)"
  unfolding predict_key_def by (simp split: vt_key.split bool.split)

lemma after_key [predict_keeps]: "after_epoch k e \<Longrightarrow> after_epoch k (predict_key gl ctx press e)"
  by (rule predict_key_cases) (simp_all add: predict_keeps)

text \<open>A restyled cell is at its place, with all it is graded by.\<close>

lemma restyled_from:
  "x \<in> set (fold restyle_cells rs cells) \<Longrightarrow>
     \<exists>y\<in>set cells. fst y = fst x \<and> pc_epoch (snd y) = pc_epoch (snd x) \<and>
       pc_expiration (snd y) = pc_expiration (snd x) \<and> pc_typed (snd y) = pc_typed (snd x) \<and>
       map_option ce_text (pc_guess (snd y)) = map_option ce_text (pc_guess (snd x))"
proof (induction rs arbitrary: cells)
  case (Cons r rs)
  obtain z where z: "z \<in> set (restyle_cells r cells)" "fst z = fst x" "pc_epoch (snd z) = pc_epoch (snd x)"
    "pc_expiration (snd z) = pc_expiration (snd x)" "pc_typed (snd z) = pc_typed (snd x)"
    "map_option ce_text (pc_guess (snd z)) = map_option ce_text (pc_guess (snd x))"
    using Cons.IH [of "restyle_cells r cells"] Cons.prems by auto
  obtain y where y: "y \<in> set cells"
    "z = (fst y, if fst (fst y) = fst (fst r) \<and> snd (fst r) \<le> snd (fst y) \<and> pc_typed (snd y)
            then (snd y)\<lparr>pc_guess := map_option (\<lambda>g. g\<lparr>ce_attributes := snd r\<rparr>) (pc_guess (snd y))\<rparr> else snd y)"
    using z(1) by (auto simp: restyle_cells_def)
  have "fst z = fst y \<and> pc_epoch (snd z) = pc_epoch (snd y) \<and> pc_expiration (snd z) = pc_expiration (snd y) \<and>
      pc_typed (snd z) = pc_typed (snd y) \<and>
      map_option ce_text (pc_guess (snd z)) = map_option ce_text (pc_guess (snd y))"
    unfolding y(2) by (simp add: option.map_comp comp_def)
  then show ?case
    using y(1) z(2-) by (intro bexI [of _ y]) simp_all
qed auto

lemma after_restyle:
  "\<forall>x\<in>set cells. k < pc_epoch (snd x) \<Longrightarrow> \<forall>x\<in>set (fold restyle_cells rs cells). k < pc_epoch (snd x)"
  using restyled_from by fastforce

lemma fold_remove_subset: "set (fold bt_remove ks t) \<subseteq> set t"
  by (induction ks arbitrary: t) (auto simp: bt_remove_def, fastforce)

lemma after_cull_cursor [predict_keeps]: "after_epoch k e \<Longrightarrow> after_epoch k (cull_cursor scr e)"
  by (auto simp: cull_cursor_def predict_keeps split: option.split validity.split) (simp_all add: after_epoch_def)

lemma after_size: "after_epoch k e \<Longrightarrow> after_epoch k (e\<lparr>en_size := s\<rparr>)"
  by (simp add: after_epoch_def)

lemma after_graded:
  assumes "after_epoch k e"
  shows "after_epoch k (e\<lparr>en_confirmed := n,
    en_cells := fold restyle_cells rs (fold bt_remove ks (en_cells e))\<rparr>)"
  using assms after_restyle [of "fold bt_remove ks (en_cells e)" k rs] fold_remove_subset [of ks "en_cells e"]
  by (simp add: after_epoch_def) blast

lemma after_retain: "after_epoch k e \<Longrightarrow> after_epoch k (e\<lparr>en_cells := bt_retain p (en_cells e)\<rparr>)"
  by (auto simp: after_epoch_def bt_retain_def)

lemma cull_cases:
  obtains (reset) "cull scr e = engine_reset (e\<lparr>en_size := Some (scr_size scr)\<rparr>)"
  | (graded) g where "grade (e\<lparr>en_size := Some (scr_size scr)\<rparr>) scr (en_cells e)
        \<lparr>gr_remove = [], gr_kill = [], gr_confirm = en_confirmed e, gr_restyle = []\<rparr> = Some g"
      "cull scr e = cull_cursor scr (killed scr (gr_kill g) (graded g (e\<lparr>en_size := Some (scr_size scr)\<rparr>)))"
proof -
  let ?g = "grade (e\<lparr>en_size := Some (scr_size scr)\<rparr>) scr (en_cells e)
        \<lparr>gr_remove = [], gr_kill = [], gr_confirm = en_confirmed e, gr_restyle = []\<rparr>"
  show thesis
  proof (cases "(en_size e \<noteq> None \<and> en_size e \<noteq> Some (scr_size scr)) \<or> ?g = None")
    case True
    then have "cull scr e = engine_reset (e\<lparr>en_size := Some (scr_size scr)\<rparr>)"
      unfolding cull_def Let_def by (cases "en_size e \<noteq> None \<and> en_size e \<noteq> Some (scr_size scr)") auto
    then show thesis by (rule reset)
  next
    case False
    then obtain g where "?g = Some g" by auto
    moreover have "cull scr e = cull_cursor scr (killed scr (gr_kill g) (graded g (e\<lparr>en_size := Some (scr_size scr)\<rparr>)))"
      using False \<open>?g = Some g\<close> unfolding cull_def Let_def by auto
    ultimately show thesis by (rule graded)
  qed
qed

lemma after_killed [predict_keeps]: "after_epoch k e \<Longrightarrow> after_epoch k (killed scr kill e)"
  by (auto simp: killed_def intro!: predict_keeps after_retain)

lemma after_cull [predict_keeps]: "after_epoch k e \<Longrightarrow> after_epoch k (cull scr e)"
proof (cases scr e rule: cull_cases)
  case (graded g)
  assume "after_epoch k e"
  then show ?thesis
    unfolding graded(2) graded_def by (intro predict_keeps after_graded after_size)
qed (simp add: predict_keeps after_size)

lemma after_key_pressed [predict_keeps]: "after_epoch k e \<Longrightarrow> after_epoch k (key_pressed gl press scr e)"
proof -
  assume e: "after_epoch k e"
  obtain e1 held where h: "holding e = (e1, held)" by (cases "holding e")
  have "after_epoch k e1"
    using after_holding [OF e] h by simp
  then show ?thesis
    using e h by (simp add: key_pressed_def predict_keeps split: option.split)
qed

lemma after_new_user_key [predict_keeps]: "after_epoch k e \<Longrightarrow> after_epoch k (new_user_key gl press scr e)"
  by (simp add: new_user_key_def Let_def predict_keeps)

lemma after_set_tty [predict_keeps]: "after_epoch k e \<Longrightarrow> after_epoch k (set_tty tty e)"
proof -
  assume "after_epoch k e"
  then have "after_epoch k (e\<lparr>en_tty := tty\<rparr>)" by (simp add: after_epoch_def)
  then show ?thesis
    using after_reset [of k "e\<lparr>en_tty := tty\<rparr>"]
    by (auto simp: set_tty_def Let_def after_epoch_def split: option.splits)
qed

lemma after_step: "after_epoch k e \<Longrightarrow> after_epoch k (pred_step gl ev e)"
  by (cases ev)
     (simp_all add: pred_step_def predict_keeps new_user_other_def set_local_frame_sent_def
       set_local_frame_late_acked_def, simp_all add: after_epoch_def)

section \<open>What confirms an epoch\<close>

named_theorems confirmed_simps

lemma confirmed_tentative [confirmed_simps]: "en_confirmed (become_tentative e) = en_confirmed e"
  by (simp add: become_tentative_def)

lemma confirmed_discard [confirmed_simps]: "en_confirmed (discard_line e) = en_confirmed e"
  by (simp add: discard_line_def split: typed_line.split)

lemma confirmed_reset [confirmed_simps]: "en_confirmed (engine_reset e) = en_confirmed e"
  by (simp add: engine_reset_def confirmed_simps)

lemma confirmed_move [confirmed_simps]: "en_confirmed (move_cursor at e) = en_confirmed e"
  by (simp add: move_cursor_def)

lemma confirmed_unmodelled [confirmed_simps]: "en_confirmed (unmodelled e) = en_confirmed e"
  by (simp add: unmodelled_def confirmed_simps)

lemma confirmed_place [confirmed_simps]: "en_confirmed (place_at ctx at g t e) = en_confirmed e"
  by (simp add: place_at_def)

lemma confirmed_place_glyph [confirmed_simps]: "en_confirmed (place_glyph ctx at c e) = en_confirmed e"
  by (simp add: place_glyph_def confirmed_simps Let_def split: option.split)

lemma confirmed_newline [confirmed_simps]: "en_confirmed (newline ctx e) = en_confirmed e"
  by (simp add: newline_def confirmed_simps Let_def)

lemma confirmed_begin_line [confirmed_simps]: "en_confirmed (begin_line scr e) = en_confirmed e"
  by (simp add: begin_line_def split: typed_line.split)

lemma confirmed_new_glyph [confirmed_simps]: "en_confirmed (new_glyph gl ctx c at e) = en_confirmed e"
  by (simp add: new_glyph_def confirmed_simps Let_def split: option.split)

lemma confirmed_glyph [confirmed_simps]:
  "\<not> tty_echo (ctx_tty ctx) \<Longrightarrow> en_confirmed (predict_glyph gl ctx c e) = en_confirmed e"
  by (simp add: predict_glyph_def confirmed_simps Let_def split: option.split prod.split)

lemma confirmed_backspace [confirmed_simps]: "en_confirmed (predict_backspace ctx e) = en_confirmed e"
  by (simp add: predict_backspace_def confirmed_simps Let_def split: option.split prod.split)

lemma confirmed_arrow [confirmed_simps]: "en_confirmed (predict_arrow ctx r e) = en_confirmed e"
  by (simp add: predict_arrow_def confirmed_simps Let_def split: option.split prod.split)

lemma confirmed_enter [confirmed_simps]: "en_confirmed (predict_enter ctx e) = en_confirmed e"
  by (simp add: predict_enter_def confirmed_simps Let_def)

lemma confirmed_key [confirmed_simps]:
  "\<not> tty_echo (ctx_tty ctx) \<Longrightarrow> en_confirmed (predict_key gl ctx press e) = en_confirmed e"
  by (rule predict_key_cases) (simp_all add: confirmed_simps)

lemma confirmed_unpredicted [confirmed_simps]: "en_confirmed (unpredicted press e) = en_confirmed e"
  by (simp add: unpredicted_def confirmed_simps Let_def)

lemma holding_keeps:
  "en_confirmed (fst (holding e)) = en_confirmed e" "en_tty (fst (holding e)) = en_tty e"
  "en_cells (fst (holding e)) = en_cells e" "en_cursor (fst (holding e)) = en_cursor e"
  by (simp_all add: holding_def split: option.split)

lemma confirmed_key_pressed:
  "\<not> (case en_tty e of Some m \<Rightarrow> tty_echo m | None \<Rightarrow> False) \<Longrightarrow>
     en_confirmed (key_pressed gl press scr e) = en_confirmed e"
  using holding_keeps(1) [of e]
  by (cases "holding e") (auto simp: key_pressed_def confirmed_simps engine_context_def split: option.splits)

lemma grade_confirm:
  "\<lbrakk>grade e scr cs g = Some g'; \<not> list_ex (\<lambda>(at, c). cell_validity c scr at (en_acked e) = Correct) cs\<rbrakk> \<Longrightarrow>
     gr_confirm g' = gr_confirm g"
  by (induction e scr cs g rule: grade.induct) (auto split: validity.splits if_splits)

lemma confirmed_cull: "\<not> echoes scr e \<Longrightarrow> en_confirmed (cull scr e) = en_confirmed e"
proof (cases scr e rule: cull_cases)
  case (graded g)
  assume "\<not> echoes scr e"
  then have "gr_confirm g = en_confirmed e"
    using grade_confirm [OF graded(1)] by (simp add: echoes_def)
  then show ?thesis
    unfolding graded(2)
    by (auto simp: cull_cursor_def killed_def graded_def confirmed_simps split: option.split validity.split)
qed (simp add: confirmed_simps)

lemma tty_move: "en_tty (move_cursor at e) = en_tty e" "en_tty (become_tentative e) = en_tty e"
  "en_tty (discard_line e) = en_tty e" "en_tty (engine_reset e) = en_tty e"
  "en_tty (begin_line scr e) = en_tty e"
  by (simp_all add: move_cursor_def become_tentative_def discard_line_def engine_reset_def begin_line_def
      split: typed_line.split)

lemma tty_cull: "en_tty (cull scr e) = en_tty e"
proof (cases scr e rule: cull_cases)
  case (graded g)
  then show ?thesis
    by (simp add: cull_cursor_def killed_def graded_def tty_move split: option.split validity.split)
qed (simp add: tty_move)

lemma confirmed_step: "\<not> confirms ev e \<Longrightarrow> en_confirmed (pred_step gl ev e) = en_confirmed e"
proof (cases ev)
  case (Key_Event press scr)
  assume "\<not> confirms ev e"
  then have n: "\<not> echoes scr e" "\<not> (case en_tty e of Some m \<Rightarrow> tty_echo m | None \<Rightarrow> False)"
    by (auto simp: confirms_def Key_Event)
  show ?thesis
    using n confirmed_cull [OF n(1)]
    by (simp add: pred_step_def Key_Event new_user_key_def Let_def confirmed_key_pressed tty_cull tty_move
        confirmed_begin_line)
next
  case (Tty tty)
  assume "\<not> confirms ev e"
  then show ?thesis
    by (auto simp: confirms_def Tty pred_step_def set_tty_def Let_def confirmed_simps split: option.splits)
qed (auto simp: pred_step_def confirms_def confirmed_cull confirmed_simps new_user_other_def hold_def
    set_local_frame_sent_def set_local_frame_late_acked_def)

text \<open>What is after the confirmed epoch is not shown.\<close>

lemma hidden_overlay:
  assumes "after_epoch (en_confirmed e) e"
  shows "ov_cells (overlay e) = [] \<and> ov_cursor (overlay e) = None"
proof -
  have "filter (\<lambda>(_, c). \<not> tentative e (pc_epoch c)) (en_cells e) = []"
    using assms by (auto simp: after_epoch_def tentative_def filter_empty_conv)
  then show ?thesis
    using assms by (auto simp: overlay_def after_epoch_def tentative_def List.map_filter_def split: option.split)
qed

lemma unconfirmed_hidden:
  "\<lbrakk>unconfirmed gl evs e; after_epoch (en_confirmed e) e\<rbrakk> \<Longrightarrow>
     after_epoch (en_confirmed (pred_run gl evs e)) (pred_run gl evs e)"
proof (induction evs arbitrary: e)
  case (Cons ev evs)
  then show ?case
    using confirmed_step [of ev e gl] after_step [of "en_confirmed e" e gl ev] by simp
qed simp

section \<open>No guess is added\<close>

definition comes_from :: "'a engine \<Rightarrow> 'a engine \<Rightarrow> bool" where
  "comes_from e e' \<longleftrightarrow>
     (\<forall>x\<in>set (en_cells e'). \<exists>y\<in>set (en_cells e). fst y = fst x \<and> pc_epoch (snd y) = pc_epoch (snd x) \<and>
        map_option ce_text (pc_guess (snd y)) = map_option ce_text (pc_guess (snd x)))"

lemma comes_same: "set (en_cells e') \<subseteq> set (en_cells e) \<Longrightarrow> comes_from e e'"
  by (auto simp: comes_from_def)

lemma comes_trans: "\<lbrakk>comes_from a b; comes_from b c\<rbrakk> \<Longrightarrow> comes_from a c"
  unfolding comes_from_def by metis

lemma cells_simps [simp]:
  "en_cells (become_tentative e) = en_cells e" "en_cells (discard_line e) = en_cells e"
  "en_cells (move_cursor at e) = en_cells e" "en_cells (unmodelled e) = en_cells e"
  "en_cells (begin_line scr e) = en_cells e" "en_cells (unpredicted press e) = en_cells e"
  "en_cells (hold e) = en_cells e" "en_cells (engine_reset e) = []"
  by (simp_all add: become_tentative_def discard_line_def move_cursor_def unmodelled_def begin_line_def
      unpredicted_def hold_def engine_reset_def Let_def split: typed_line.split)

lemma cells_cull_cursor: "set (en_cells (cull_cursor scr e)) \<subseteq> set (en_cells e)"
  by (auto simp: cull_cursor_def split: option.splits validity.splits)

lemma cells_killed: "set (en_cells (killed scr kill e)) \<subseteq> set (en_cells e)"
  by (auto simp: killed_def bt_retain_def)

lemma cells_graded:
  "x \<in> set (en_cells (graded g e)) \<Longrightarrow>
     \<exists>y\<in>set (fold bt_remove (gr_remove g) (en_cells e)). fst y = fst x \<and> pc_epoch (snd y) = pc_epoch (snd x) \<and>
       pc_expiration (snd y) = pc_expiration (snd x) \<and>
       map_option ce_text (pc_guess (snd y)) = map_option ce_text (pc_guess (snd x))"
  using restyled_from [of x "gr_restyle g" "fold bt_remove (gr_remove g) (en_cells e)"]
  by (auto simp: graded_def)

lemma comes_cull: "comes_from e (cull scr e)"
proof (cases scr e rule: cull_cases)
  case (graded g)
  have "comes_from e (graded g (e\<lparr>en_size := Some (scr_size scr)\<rparr>))"
    using cells_graded [of _ g "e\<lparr>en_size := Some (scr_size scr)\<rparr>"] fold_remove_subset [of "gr_remove g" "en_cells e"]
    unfolding comes_from_def by fastforce
  then show ?thesis
    unfolding graded(2) using cells_cull_cursor cells_killed comes_same comes_trans by metis
qed (simp add: comes_from_def)

lemma held_cull: "en_held (cull scr e) = en_held e \<and> en_acked (cull scr e) = en_acked e"
proof (cases scr e rule: cull_cases)
  case (graded g)
  then show ?thesis
    by (simp add: cull_cursor_def killed_def graded_def move_cursor_def become_tentative_def discard_line_def
        engine_reset_def split: option.split validity.split typed_line.split)
qed (simp add: become_tentative_def discard_line_def engine_reset_def split: typed_line.split)

text \<open>A key that may not be predicted: no context for it, or one held back not reflected yet.\<close>

definition blind :: "'a screen \<Rightarrow> 'a engine \<Rightarrow> bool" where
  "blind scr e \<longleftrightarrow>
     engine_context scr e = None \<or> (case en_held e of Some n \<Rightarrow> en_acked e < n | None \<Rightarrow> False)"

lemma blind_key: "blind scr e \<Longrightarrow> comes_from e (new_user_key gl press scr e)"
proof -
  assume b: "blind scr e"
  let ?e = "if printable_of press \<noteq> None then begin_line scr (cull scr e) else cull scr e"
  have c: "engine_context scr ?e = engine_context scr e" "en_held ?e = en_held e" "en_acked ?e = en_acked e"
    using held_cull [of scr e] tty_cull [of scr e]
    by (simp_all add: engine_context_def tty_move begin_line_def split: typed_line.split)
  have "en_cells (key_pressed gl press scr ?e) = en_cells (cull scr e)"
    using b c by (auto simp: blind_def key_pressed_def holding_def split: option.splits)
  then show ?thesis
    using comes_cull [of e scr] by (simp add: new_user_key_def Let_def comes_from_def)
qed

fun blind_run :: "'a glyphs \<Rightarrow> 'a pred_event list \<Rightarrow> 'a engine \<Rightarrow> bool" where
  "blind_run gl [] e = True"
| "blind_run gl (ev # evs) e =
     ((case ev of Key_Event _ scr \<Rightarrow> blind scr e | _ \<Rightarrow> True) \<and> blind_run gl evs (pred_step gl ev e))"

lemma comes_set_tty: "comes_from e (set_tty tty e)"
  by (rule comes_same) (auto simp: set_tty_def Let_def split: option.splits)

lemma blind_step:
  "(case ev of Key_Event _ scr \<Rightarrow> blind scr e | _ \<Rightarrow> True) \<Longrightarrow> comes_from e (pred_step gl ev e)"
proof (cases ev)
  case (Other_Event scr)
  then show ?thesis
    using comes_cull [of e scr] by (simp add: pred_step_def new_user_other_def comes_from_def)
qed (simp_all add: pred_step_def blind_key comes_cull comes_set_tty comes_same set_local_frame_sent_def
    set_local_frame_late_acked_def)

lemma blind_run_comes: "blind_run gl evs e \<Longrightarrow> comes_from e (pred_run gl evs e)"
proof (induction evs arbitrary: e)
  case (Cons ev evs)
  then show ?case
    using blind_step [of e ev gl] comes_trans by (metis blind_run.simps(2) pred_run_simps(2))
qed (simp add: comes_same)

section \<open>A frame settles what it can grade\<close>

lemma grade_mono: "grade e scr cs g = Some g' \<Longrightarrow> set (gr_remove g) \<subseteq> set (gr_remove g')"
  by (induction e scr cs g rule: grade.induct) (auto split: validity.splits if_splits)

lemma grade_removes:
  "\<lbrakk>grade e scr cs g = Some g'; (at, c) \<in> set cs; cell_validity c scr at (en_acked e) \<noteq> Pending_Yet\<rbrakk> \<Longrightarrow>
     at \<in> set (gr_remove g')"
  by (induction e scr cs g rule: grade.induct)
     (auto split: validity.splits if_splits dest!: grade_mono)

lemma grade_wrong:
  "\<lbrakk>(at, c) \<in> set cs; cell_validity c scr at (en_acked e) = Incorrect_Or_Expired; \<not> tentative e (pc_epoch c)\<rbrakk> \<Longrightarrow>
     grade e scr cs g = None"
  by (induction e scr cs g rule: grade.induct) (auto split: validity.splits)

lemma fold_remove_keys: "x \<in> set (fold bt_remove ks t) \<Longrightarrow> fst x \<notin> set ks"
proof (induction ks arbitrary: t)
  case (Cons k ks)
  then have x: "x \<in> set (fold bt_remove ks (bt_remove k t))" by simp
  then have "x \<in> set (bt_remove k t)"
    using fold_remove_subset [of ks "bt_remove k t"] by blast
  then show ?case
    using Cons.IH [OF x] by (simp add: bt_remove_def)
qed simp

lemma pending_expiration: "cell_validity c scr at acked = Pending_Yet \<Longrightarrow> acked < pc_expiration c"
  by (auto simp: cell_validity_def split: option.splits if_splits)

lemma cull_expiration:
  "x \<in> set (en_cells (cull scr e)) \<Longrightarrow> \<exists>y\<in>set (en_cells e). pc_expiration (snd y) = pc_expiration (snd x)"
proof (cases scr e rule: cull_cases)
  case (graded g)
  assume "x \<in> set (en_cells (cull scr e))"
  then have "x \<in> set (en_cells (graded g (e\<lparr>en_size := Some (scr_size scr)\<rparr>)))"
    unfolding graded(2) using cells_cull_cursor cells_killed by blast
  from cells_graded [OF this] show ?thesis
    using fold_remove_subset [of "gr_remove g" "en_cells e"] by auto
qed simp

lemma cull_pending:
  "x \<in> set (en_cells (cull scr e)) \<Longrightarrow> en_acked e < pc_expiration (snd x)"
proof (cases scr e rule: cull_cases)
  case (graded g)
  assume "x \<in> set (en_cells (cull scr e))"
  then have "x \<in> set (en_cells (graded g (e\<lparr>en_size := Some (scr_size scr)\<rparr>)))"
    unfolding graded(2) using cells_cull_cursor cells_killed by blast
  from cells_graded [OF this] obtain y where y: "y \<in> set (fold bt_remove (gr_remove g) (en_cells e))"
    "pc_expiration (snd y) = pc_expiration (snd x)"
    by auto
  have "fst y \<notin> set (gr_remove g)" "y \<in> set (en_cells e)"
    using fold_remove_keys [OF y(1)] fold_remove_subset y(1) by blast+
  then have "cell_validity (snd y) scr (fst y) (en_acked e) = Pending_Yet"
    using grade_removes [OF graded(1), of "fst y" "snd y"] by auto
  then show ?thesis
    using pending_expiration y(2) by metis
qed simp

lemma cull_wrong:
  assumes "(at, c) \<in> set (en_cells e)" and "cell_validity c scr at (en_acked e) = Incorrect_Or_Expired"
    and "\<not> tentative e (pc_epoch c)"
  shows "en_cells (cull scr e) = [] \<and> en_cursor (cull scr e) = None"
proof (cases scr e rule: cull_cases)
  case reset
  then show ?thesis
    by (simp add: engine_reset_def discard_line_def become_tentative_def split: typed_line.split)
next
  case (graded g)
  have "grade (e\<lparr>en_size := Some (scr_size scr)\<rparr>) scr (en_cells e)
      \<lparr>gr_remove = [], gr_kill = [], gr_confirm = en_confirmed e, gr_restyle = []\<rparr> = None"
    using grade_wrong [OF assms(1)] assms(2,3) by (simp add: tentative_def)
  then show ?thesis
    using graded(1) by simp
qed

text \<open>The cursor left is one not graded yet.\<close>

lemma cull_cursor_pending:
  "en_cursor (cull_cursor scr e) = Some c \<Longrightarrow> en_cursor e = Some c \<and> cursor_validity c scr (en_acked e) = Pending_Yet"
  by (auto simp: cull_cursor_def engine_reset_def discard_line_def become_tentative_def
      split: option.splits validity.splits typed_line.splits)

lemma cursor_pending:
  "cursor_validity c scr acked = Pending_Yet \<Longrightarrow>
     acked < gs_expiration c \<and> gs_row c < rows (scr_size scr) \<and> gs_col c < cols (scr_size scr)"
  by (auto simp: cursor_validity_def split: if_splits)

lemma killed_cursor:
  "en_cursor (killed scr kill e) = Some c \<Longrightarrow>
     kill = [] \<and> en_cursor e = Some c \<or>
     kill \<noteq> [] \<and> (gs_row c, gs_col c) = scr_cursor scr \<and> gs_epoch c = sat_add64 (en_epoch e) 1"
  by (auto simp: killed_def move_cursor_def become_tentative_def discard_line_def split: if_splits typed_line.splits)

lemma cull_cursor_from:
  assumes "en_cursor (cull scr e) = Some c"
  shows "en_acked e < gs_expiration c \<and> gs_row c < rows (scr_size scr) \<and> gs_col c < cols (scr_size scr) \<and>
    (en_cursor e = Some c \<or> (gs_row c, gs_col c) = scr_cursor scr \<and> gs_epoch c = sat_add64 (en_epoch e) 1)"
proof (cases scr e rule: cull_cases)
  case reset
  then show ?thesis
    using assms by (simp add: engine_reset_def discard_line_def become_tentative_def split: typed_line.splits)
next
  case (graded g)
  let ?e = "killed scr (gr_kill g) (graded g (e\<lparr>en_size := Some (scr_size scr)\<rparr>))"
  have acked: "en_acked ?e = en_acked e"
    by (simp add: killed_def graded_def move_cursor_def become_tentative_def discard_line_def split: typed_line.split)
  have p: "en_cursor ?e = Some c \<and> cursor_validity c scr (en_acked ?e) = Pending_Yet"
    using assms unfolding graded(2) by (rule cull_cursor_pending)
  then have "en_cursor e = Some c \<or> (gs_row c, gs_col c) = scr_cursor scr \<and> gs_epoch c = sat_add64 (en_epoch e) 1"
    using killed_cursor [of scr "gr_kill g" "graded g (e\<lparr>en_size := Some (scr_size scr)\<rparr>)" c]
    by (auto simp: graded_def)
  then show ?thesis
    using p cursor_pending [of c scr "en_acked e"] acked by simp
qed

section \<open>Properties\<close>

text \<open>C33: Typing that is not echoed is never shown. From an engine with no predictions and nothing
  confirmed, however keys, frames, modes, acknowledgements and holds come, nothing is drawn until
  something confirms an epoch: a frame that shows a guess (not blank, and not there before), a
  terminal that itself echoes, or trust carried from a connection that had it. At a password prompt
  every prediction goes, whatever was confirmed.\<close>

theorem unechoed_typing_is_never_shown:
  assumes "en_cells e = []" and "en_cursor e = None"
    and "en_confirmed e < en_epoch e" and "en_epoch e \<le> u64_max"
    and "unconfirmed gl evs e"
  shows "ov_cells (overlay (pred_run gl evs e)) = [] \<and> ov_cursor (overlay (pred_run gl evs e)) = None \<and>
    (\<forall>m f. password m \<longrightarrow> en_cells (set_tty (Some m) f) = [] \<and> en_cursor (set_tty (Some m) f) = None \<and>
       overlay (set_tty (Some m) f) = \<lparr>ov_cells = [], ov_cursor = None\<rparr>)"
proof -
  have "after_epoch (en_confirmed e) e"
    using assms(1-4) by (simp add: after_epoch_def)
  then have "after_epoch (en_confirmed (pred_run gl evs e)) (pred_run gl evs e)"
    using unconfirmed_hidden assms(5) by blast
  moreover have "en_cells (set_tty (Some m) f) = [] \<and> en_cursor (set_tty (Some m) f) = None \<and>
       overlay (set_tty (Some m) f) = \<lparr>ov_cells = [], ov_cursor = None\<rparr>" if "password m" for m f
    using that by (auto simp: set_tty_def Let_def overlay_def engine_reset_def discard_line_def become_tentative_def
        split: typed_line.splits)
  ultimately show ?thesis
    using hidden_overlay by blast
qed

definition plain_glyphs :: "nat glyphs" where
  "plain_glyphs = \<lparr>gl_width = length, gl_continues = (\<lambda>_ _. False), gl_default = 0\<rparr>"

definition blank_screen :: "nat screen" where
  "blank_screen = \<lparr>scr_size = \<lparr>rows = 1, cols = 3\<rparr>,
     scr_cell = (\<lambda>r c. if r = 0 \<and> c < 3 then Some \<lparr>vc_text = [], vc_attributes = 0, vc_wide = False, vc_continues = False\<rparr> else None),
     scr_cursor = (0, 0), scr_alternate = False\<rparr>"

definition a_key :: key_press where
  "a_key = \<lparr>kp_key = VChar 97, kp_mods = \<lparr>m_shift = False, m_alt = False, m_ctrl = False\<rparr>\<rparr>"

definition silent_typing :: "nat pred_event list" where
  "silent_typing = [Tty (Some \<lparr>tty_echo = False, tty_line = False\<rparr>), Key_Event a_key blank_screen]"

lemma silent_typing_guesses:
  "unconfirmed plain_glyphs silent_typing engine_default \<and>
   map fst (en_cells (pred_run plain_glyphs silent_typing engine_default)) = [(0, 0)]"
  by (simp add: silent_typing_def confirms_def engine_default_def pred_step_def set_tty_def password_def echoes_def
      new_user_key_def cull_def graded_def killed_def cull_cursor_def key_pressed_def engine_context_def blank_screen_def
      a_key_def printable_of_def is_control_def begin_line_def holding_def predict_key_def predict_glyph_def
      cursor_at_def glyph_before_def new_glyph_def plain_glyphs_def checked_add16_def u16_max_def blank_at_def
      guess_at_def bt_get_def cell_of_def cell_blank_def is_blank_def place_glyph_def place_at_def move_cursor_def
      FIRST_EPOCH_def checked_sub_def Let_def)

lemma unechoed_typing_is_never_shown_witness:
  "map fst (en_cells (pred_run plain_glyphs silent_typing engine_default)) = [(0, 0)] \<and>
   ov_cells (overlay (pred_run plain_glyphs silent_typing engine_default)) = []"
proof -
  have e: "en_cells (engine_default :: nat engine) = []" "en_cursor (engine_default :: nat engine) = None"
    "en_confirmed (engine_default :: nat engine) < en_epoch (engine_default :: nat engine)"
    "en_epoch (engine_default :: nat engine) \<le> u64_max"
    by (simp_all add: engine_default_def FIRST_EPOCH_def u64_max_def)
  show ?thesis
    using unechoed_typing_is_never_shown [OF e conjunct1 [OF silent_typing_guesses]] silent_typing_guesses by blast
qed

text \<open>A key is not predicted while it may not be: with the terminal's modes unknown, at a password
  prompt, on the alternate screen, or after a hold the server has not reflected. However such keys
  and other events come, every prediction left was there before, of the same epoch and text.\<close>

theorem held_keys_are_not_predicted:
  assumes "blind_run gl evs e" and "x \<in> set (en_cells (pred_run gl evs e))"
  shows "\<exists>y\<in>set (en_cells e). fst y = fst x \<and> pc_epoch (snd y) = pc_epoch (snd x) \<and>
    map_option ce_text (pc_guess (snd y)) = map_option ce_text (pc_guess (snd x))"
  using blind_run_comes [OF assms(1)] assms(2) by (auto simp: comes_from_def)

lemma held_keys_are_not_predicted_witness:
  "\<exists>y\<in>set (en_cells (pred_run plain_glyphs silent_typing engine_default)). fst y = (0, 0) \<and>
     en_cells (pred_run plain_glyphs [Tty None] (pred_run plain_glyphs silent_typing engine_default)) \<noteq> []"
proof -
  let ?e = "pred_run plain_glyphs silent_typing engine_default"
  have run: "blind_run plain_glyphs [Tty None] ?e"
    by simp
  have "en_cells (pred_run plain_glyphs [Tty None] ?e) = en_cells ?e"
    by (simp add: pred_step_def set_tty_def)
  moreover obtain c where "((0, 0), c) \<in> set (en_cells ?e)" "en_cells ?e \<noteq> []"
    using silent_typing_guesses by (cases "en_cells ?e") auto
  ultimately show ?thesis
    using held_keys_are_not_predicted [OF run, of "((0, 0), c)"] by auto
qed

text \<open>C34: A frame settles every guess it can grade. What is left waits for input the server has not
  reflected, its cursor on the screen; once all is reflected no guessed cell is left and a cursor, if
  there is one, is where the screen shows it. A guess that was shown and is wrong takes every
  prediction with it.\<close>

theorem frames_settle_predictions:
  "(\<forall>x\<in>set (en_cells (cull scr e)). en_acked e < pc_expiration (snd x)) \<and>
   (case en_cursor (cull scr e) of
      None \<Rightarrow> True
    | Some c \<Rightarrow> en_acked e < gs_expiration c \<and> gs_row c < rows (scr_size scr) \<and> gs_col c < cols (scr_size scr)) \<and>
   ((\<forall>x\<in>set (en_cells e). pc_expiration (snd x) \<le> en_acked e) \<and>
    (case en_cursor e of None \<Rightarrow> True | Some c \<Rightarrow> gs_expiration c \<le> en_acked e) \<longrightarrow>
      en_cells (cull scr e) = [] \<and>
      (case en_cursor (cull scr e) of None \<Rightarrow> True | Some c \<Rightarrow> (gs_row c, gs_col c) = scr_cursor scr)) \<and>
   (\<forall>(at, c)\<in>set (en_cells e). cell_validity c scr at (en_acked e) = Incorrect_Or_Expired \<and> \<not> tentative e (pc_epoch c) \<longrightarrow>
      en_cells (cull scr e) = [] \<and> en_cursor (cull scr e) = None)"
proof (intro conjI impI)
  show "\<forall>x\<in>set (en_cells (cull scr e)). en_acked e < pc_expiration (snd x)"
    using cull_pending by blast
  show "case en_cursor (cull scr e) of None \<Rightarrow> True
    | Some c \<Rightarrow> en_acked e < gs_expiration c \<and> gs_row c < rows (scr_size scr) \<and> gs_col c < cols (scr_size scr)"
    using cull_cursor_from [of scr e] by (auto split: option.split)
  show "\<forall>(at, c)\<in>set (en_cells e). cell_validity c scr at (en_acked e) = Incorrect_Or_Expired \<and> \<not> tentative e (pc_epoch c) \<longrightarrow>
      en_cells (cull scr e) = [] \<and> en_cursor (cull scr e) = None"
    using cull_wrong by blast
next
  assume all: "(\<forall>x\<in>set (en_cells e). pc_expiration (snd x) \<le> en_acked e) \<and>
    (case en_cursor e of None \<Rightarrow> True | Some c \<Rightarrow> gs_expiration c \<le> en_acked e)"
  show "en_cells (cull scr e) = []"
  proof (rule ccontr)
    assume "en_cells (cull scr e) \<noteq> []"
    then obtain x where x: "x \<in> set (en_cells (cull scr e))" by (cases "en_cells (cull scr e)") auto
    obtain y where "y \<in> set (en_cells e)" "pc_expiration (snd y) = pc_expiration (snd x)"
      using cull_expiration [OF x] by blast
    then show False
      using all cull_pending [OF x] by fastforce
  qed
  show "case en_cursor (cull scr e) of None \<Rightarrow> True | Some c \<Rightarrow> (gs_row c, gs_col c) = scr_cursor scr"
    using all cull_cursor_from [of scr e] by (fastforce split: option.split)
qed

lemma frames_settle_predictions_witness:
  "map fst (en_cells (pred_run plain_glyphs silent_typing engine_default)) = [(0, 0)] \<and>
   en_cells (cull blank_screen (set_local_frame_late_acked 1 (pred_run plain_glyphs silent_typing engine_default))) = []"
proof -
  let ?e = "pred_run plain_glyphs silent_typing engine_default" and
    ?a = "set_local_frame_late_acked 1 (pred_run plain_glyphs silent_typing engine_default)"
  have acked: "en_acked ?a = 1" "en_cells ?a = en_cells ?e" "en_cursor ?a = en_cursor ?e"
    by (simp_all add: set_local_frame_late_acked_def)
  have "\<forall>x\<in>set (en_cells ?e). pc_expiration (snd x) \<le> 1" "case en_cursor ?e of None \<Rightarrow> True | Some c \<Rightarrow> gs_expiration c \<le> 1"
    by (simp_all add: silent_typing_def engine_default_def pred_step_def set_tty_def password_def
      new_user_key_def cull_def graded_def killed_def cull_cursor_def key_pressed_def engine_context_def blank_screen_def
      a_key_def printable_of_def is_control_def begin_line_def holding_def predict_key_def predict_glyph_def
      cursor_at_def glyph_before_def new_glyph_def plain_glyphs_def checked_add16_def u16_max_def blank_at_def
      guess_at_def bt_get_def cell_of_def cell_blank_def is_blank_def place_glyph_def place_at_def move_cursor_def
      FIRST_EPOCH_def checked_sub_def Let_def next_frame_def sat_add_def)
  then have "(\<forall>x\<in>set (en_cells ?a). pc_expiration (snd x) \<le> en_acked ?a) \<and>
      (case en_cursor ?a of None \<Rightarrow> True | Some c \<Rightarrow> gs_expiration c \<le> en_acked ?a)"
    unfolding acked by (rule conjI)
  from mp [OF frames_settle_predictions [THEN conjunct2, THEN conjunct2, THEN conjunct1] this]
  show ?thesis
    using silent_typing_guesses by blast
qed

end
