(* ===== verification/Koh_Fsat.thy ===== *)
theory Koh_Fsat
  imports Koh_Place
begin

text \<open>
  \<open>src/src/sync/fsat.rs\<close>: entries reached from the directory above them by its descriptor. The system
  calls (\<open>rustix\<close>, and what \<open>std::fs\<close> does with a path) are a record of functions over a state of the
  system of any kind and descriptors of any kind; the code above them is modelled as the calls it makes,
  in their order, each with the state the last one left. Also here: the sequencing of fallible operations that
  change a state, and how one is proved correct.
\<close>

section \<open>Operations that change a state and may fail\<close>

text \<open>What was changed before an operation fails stays changed.\<close>

type_synonym ('s, 'e, 'a) act = "'s \<Rightarrow> 's \<times> ('e + 'a)"

definition bindS :: "('s, 'e, 'a) act \<Rightarrow> ('a \<Rightarrow> ('s, 'e, 'b) act) \<Rightarrow> ('s, 'e, 'b) act" where
  "bindS m f = (\<lambda>s. case m s of (s', r) \<Rightarrow> (case r of Inl e \<Rightarrow> (s', Inl e) | Inr a \<Rightarrow> f a s'))"

definition returnS :: "'a \<Rightarrow> ('s, 'e, 'a) act" where
  "returnS a = (\<lambda>s. (s, Inr a))"

definition failS :: "'e \<Rightarrow> ('s, 'e, 'a) act" where
  "failS e = (\<lambda>s. (s, Inl e))"

text \<open>An answer of the state, which it leaves as it is.\<close>

definition readS :: "('s \<Rightarrow> 'e + 'a) \<Rightarrow> ('s, 'e, 'a) act" where
  "readS f = (\<lambda>s. (s, f s))"

text \<open>\<open>map_err\<close>.\<close>

definition map_errS :: "('e \<Rightarrow> 'f) \<Rightarrow> ('s, 'e, 'a) act \<Rightarrow> ('s, 'f, 'a) act" where
  "map_errS h m = (\<lambda>s. case m s of (s', r) \<Rightarrow> (s', map_sum h (\<lambda>a. a) r))"

text \<open>\<open>let _ = \<dots>\<close>: an operation whose failure is not looked at.\<close>

definition ignoreS :: "('s, 'e, 'a) act \<Rightarrow> ('s, 'f, unit) act" where
  "ignoreS m = (\<lambda>s. (fst (m s), Inr ()))"

text \<open>
  \<open>holds P m Q E\<close>: from a state with \<open>P\<close>, \<open>m\<close> ends in one with \<open>Q\<close> of its result, or, failing, in one
  with \<open>E\<close>.
\<close>

definition holds ::
    "('s \<Rightarrow> bool) \<Rightarrow> ('s, 'e, 'a) act \<Rightarrow> ('a \<Rightarrow> 's \<Rightarrow> bool) \<Rightarrow> ('s \<Rightarrow> bool) \<Rightarrow> bool" where
  "holds P m Q E \<longleftrightarrow>
     (\<forall>s. P s \<longrightarrow> (case m s of (s', r) \<Rightarrow> (case r of Inl _ \<Rightarrow> E s' | Inr a \<Rightarrow> Q a s')))"

named_theorems holds_rules \<open>what each operation's proof needs\<close>

lemma holds_bind [holds_rules]:
  "holds P m R E \<Longrightarrow> (\<And>a. holds (R a) (f a) Q E) \<Longrightarrow> holds P (bindS m f) Q E"
  unfolding holds_def bindS_def by (fastforce split: prod.splits sum.splits)

lemma holds_return: "(\<And>s. P s \<Longrightarrow> Q a s) \<Longrightarrow> holds P (returnS a) Q E"
  by (simp add: holds_def returnS_def)

lemma holds_fail: "(\<And>s. P s \<Longrightarrow> E s) \<Longrightarrow> holds P (failS e) Q E"
  by (simp add: holds_def failS_def)

lemma holds_read: "(\<And>s a. P s \<Longrightarrow> f s = Inr a \<Longrightarrow> Q a s) \<Longrightarrow> (\<And>s. P s \<Longrightarrow> E s) \<Longrightarrow> holds P (readS f) Q E"
  by (auto simp: holds_def readS_def split: sum.splits)

lemma holds_map_err [simp]: "holds P (map_errS h m) Q E = holds P m Q E"
  unfolding holds_def map_errS_def by (fastforce split: prod.splits sum.splits)

lemma holds_ignore: "holds P m (\<lambda>_. Q) Q \<Longrightarrow> holds P (ignoreS m) (\<lambda>_. Q) E"
  unfolding holds_def ignoreS_def by (fastforce split: prod.splits sum.splits)

lemma holds_weaken:
  "holds P m Q E \<Longrightarrow> (\<And>s. P' s \<Longrightarrow> P s) \<Longrightarrow> (\<And>a s. Q a s \<Longrightarrow> Q' a s) \<Longrightarrow> (\<And>s. E s \<Longrightarrow> E' s) \<Longrightarrow>
     holds P' m Q' E'"
  unfolding holds_def by (fastforce split: sum.splits)

lemma holdsD: "holds P m Q E \<Longrightarrow> P s \<Longrightarrow> m s = (s', Inr a) \<Longrightarrow> Q a s'"
  unfolding holds_def by fastforce

lemma holdsD_fail: "holds P m Q E \<Longrightarrow> P s \<Longrightarrow> m s = (s', Inl e) \<Longrightarrow> E s'"
  unfolding holds_def by fastforce

lemma holds_at:
  "holds P m Q E \<Longrightarrow> P s \<Longrightarrow> (case m s of (s', r) \<Rightarrow> (case r of Inl _ \<Rightarrow> E s' | Inr a \<Rightarrow> Q a s'))"
  by (simp add: holds_def)

lemma holds_if:
  "(b \<Longrightarrow> holds P m Q E) \<Longrightarrow> (\<not> b \<Longrightarrow> holds P n Q E) \<Longrightarrow> holds P (if b then m else n) Q E"
  by simp

lemma holds_assuming: "(b \<Longrightarrow> holds P m Q E) \<Longrightarrow> holds (\<lambda>s. b \<and> P s) m Q E"
  by (cases b) (auto simp: holds_def)

lemma bindS_Inr: "bindS m f s = (s', Inr b) \<longleftrightarrow> (\<exists>s1 a. m s = (s1, Inr a) \<and> f a s1 = (s', Inr b))"
  by (auto simp: bindS_def split: prod.splits sum.splits)

section \<open>The system's calls\<close>

datatype file_type =
    FT_Directory | FT_Regular | FT_Symlink | FT_Fifo | FT_Socket | FT_Character | FT_Block | FT_Unknown

text \<open>\<open>rustix\<close>'s \<open>Stat\<close>, the fields the code reads, its type already told from \<open>st_mode\<close>.\<close>

record raw_stat =
  st_type :: file_type
  st_mode :: "32 word"
  st_size :: int
  st_mtime :: int
  st_nsec :: int

text \<open>
  The calls that only tell of the system, and those that may change it (or the descriptors it holds),
  each with the flags the code gives it: \<open>openat\<close> of a directory, of a file to read and of one to write (with
  \<open>O_TRUNC\<close> or not, and the mode it is made with) never follows a symlink, nor does \<open>statat\<close>.
\<close>

record ('s, 'fd) os =
  sys_statat :: "'s \<Rightarrow> 'fd \<Rightarrow> byte list \<Rightarrow> io_kind + raw_stat"
  sys_fstat :: "'s \<Rightarrow> 'fd \<Rightarrow> io_kind + raw_stat"
  sys_readlink :: "'s \<Rightarrow> 'fd \<Rightarrow> byte list \<Rightarrow> io_kind + byte list"
  sys_read_dir :: "'s \<Rightarrow> 'fd \<Rightarrow> io_kind + byte list list"
  sys_hash :: "'s \<Rightarrow> 'fd \<Rightarrow> nat \<Rightarrow> io_kind + hash"
  sys_metadata :: "'s \<Rightarrow> path \<Rightarrow> io_kind + file_type"
  sys_exists :: "'s \<Rightarrow> path \<Rightarrow> bool"
  sys_open_dir :: "'fd \<Rightarrow> byte list \<Rightarrow> ('s, io_kind, 'fd) act"
  sys_open_path :: "path \<Rightarrow> ('s, io_kind, 'fd) act"
  sys_dup :: "'fd \<Rightarrow> ('s, io_kind, 'fd) act"
  sys_open_file :: "'fd \<Rightarrow> byte list \<Rightarrow> ('s, io_kind, 'fd) act"
  sys_create_dir_all :: "path \<Rightarrow> ('s, io_kind, unit) act"
  sys_create :: "'fd \<Rightarrow> byte list \<Rightarrow> bool \<Rightarrow> 32 word \<Rightarrow> ('s, io_kind, 'fd) act"
  sys_mkdirat :: "'fd \<Rightarrow> byte list \<Rightarrow> 32 word \<Rightarrow> ('s, io_kind, unit) act"
  sys_set_len :: "'fd \<Rightarrow> nat \<Rightarrow> ('s, io_kind, unit) act"
  sys_write_all_at :: "'fd \<Rightarrow> byte list \<Rightarrow> nat \<Rightarrow> ('s, io_kind, unit) act"
  sys_fchmod :: "'fd \<Rightarrow> 32 word \<Rightarrow> ('s, io_kind, unit) act"
  sys_futimens :: "'fd \<Rightarrow> nat \<Rightarrow> nat \<Rightarrow> ('s, io_kind, unit) act"
  sys_renameat :: "'fd \<Rightarrow> byte list \<Rightarrow> byte list \<Rightarrow> ('s, io_kind, unit) act"
  sys_symlinkat :: "byte list \<Rightarrow> 'fd \<Rightarrow> byte list \<Rightarrow> ('s, io_kind, unit) act"
  sys_unlinkat :: "'fd \<Rightarrow> byte list \<Rightarrow> bool \<Rightarrow> ('s, io_kind, unit) act"

section \<open>Entries\<close>

datatype ekind = K_Dir | K_File | K_Link | K_Other

record dir_entry =
  e_kind :: ekind
  e_size :: nat
  e_mode :: "32 word"
  e_mtime :: "time option"

definition i64_max :: nat where "i64_max = 9223372036854775807"

definition entry_of :: "raw_stat \<Rightarrow> dir_entry" where
  "entry_of stat =
     (let secs = (if 0 \<le> st_mtime stat then Some (nat (st_mtime stat)) else None);
          nanos = (if 0 \<le> st_nsec stat \<and> st_nsec stat \<le> int u32_max then Some (nat (st_nsec stat)) else None)
      in \<lparr>e_kind = (case st_type stat of
             FT_Directory \<Rightarrow> K_Dir | FT_Regular \<Rightarrow> K_File | FT_Symlink \<Rightarrow> K_Link | _ \<Rightarrow> K_Other),
          e_size = (if 0 \<le> st_size stat then nat (st_size stat) else 0),
          e_mode = and (st_mode stat) 0xFFF,
          e_mtime = (case (secs, nanos) of (Some s, Some n) \<Rightarrow> time_new s n | _ \<Rightarrow> None)\<rparr>)"

definition fsat_stat :: "('s, 'fd) os \<Rightarrow> 'fd \<Rightarrow> byte list \<Rightarrow> ('s, io_kind, dir_entry option) act" where
  "fsat_stat os dir name = readS (\<lambda>s.
     (case sys_statat os s dir name of
        Inr stat \<Rightarrow> Inr (Some (entry_of stat))
      | Inl e \<Rightarrow> if e = E_NotFound then Inr None else Inl e))"

definition stat_of :: "('s, 'fd) os \<Rightarrow> 'fd \<Rightarrow> ('s, io_kind, dir_entry) act" where
  "stat_of os file = readS (\<lambda>s. bindE (sys_fstat os s file) (\<lambda>stat. Inr (entry_of stat)))"

definition open_dir :: "('s, 'fd) os \<Rightarrow> 'fd \<Rightarrow> byte list \<Rightarrow> ('s, io_kind, 'fd) act" where
  "open_dir os dir name = sys_open_dir os dir name"

definition open_dir_path :: "('s, 'fd) os \<Rightarrow> path \<Rightarrow> ('s, io_kind, 'fd) act" where
  "open_dir_path os path = sys_open_path os path"

definition open_file :: "('s, 'fd) os \<Rightarrow> 'fd \<Rightarrow> byte list \<Rightarrow> ('s, io_kind, 'fd) act" where
  "open_file os dir name = sys_open_file os dir name"

definition fsat_create :: "('s, 'fd) os \<Rightarrow> 'fd \<Rightarrow> byte list \<Rightarrow> bool \<Rightarrow> ('s, io_kind, 'fd) act" where
  "fsat_create os dir name emptied = sys_create os dir name emptied 0x180"

definition make_dir :: "('s, 'fd) os \<Rightarrow> 'fd \<Rightarrow> byte list \<Rightarrow> ('s, io_kind, unit) act" where
  "make_dir os dir name = sys_mkdirat os dir name 0x1C0"

definition fsat_rename :: "('s, 'fd) os \<Rightarrow> 'fd \<Rightarrow> byte list \<Rightarrow> byte list \<Rightarrow> ('s, io_kind, unit) act" where
  "fsat_rename os dir old new = sys_renameat os dir old new"

definition fsat_symlink :: "('s, 'fd) os \<Rightarrow> byte list \<Rightarrow> 'fd \<Rightarrow> byte list \<Rightarrow> ('s, io_kind, unit) act" where
  "fsat_symlink os target dir name = sys_symlinkat os target dir name"

definition read_link :: "('s, 'fd) os \<Rightarrow> 'fd \<Rightarrow> byte list \<Rightarrow> ('s, io_kind, byte list) act" where
  "read_link os dir name = readS (\<lambda>s. sys_readlink os s dir name)"

text \<open>On Linux, where mode bits are a \<open>u32\<close>, they always fit.\<close>

definition fsat_chmod :: "('s, 'fd) os \<Rightarrow> 'fd \<Rightarrow> 32 word \<Rightarrow> ('s, io_kind, unit) act" where
  "fsat_chmod os file mode = sys_fchmod os file (and mode 0xFFF)"

definition set_mtime :: "('s, 'fd) os \<Rightarrow> 'fd \<Rightarrow> time \<Rightarrow> ('s, io_kind, unit) act" where
  "set_mtime os file time =
     sys_futimens os file (if t_secs time \<le> i64_max then t_secs time else i64_max) (t_nanos time)"

definition fsat_names :: "('s, 'fd) os \<Rightarrow> 'fd \<Rightarrow> ('s, io_kind, byte list list) act" where
  "fsat_names os dir = readS (\<lambda>s.
     bindE (sys_read_dir os s dir) (\<lambda>names.
       Inr (filter (\<lambda>name. name \<noteq> [0x2e] \<and> name \<noteq> [0x2e, 0x2e]) names)))"

section \<open>Removing\<close>

text \<open>The sum of what each of some operations counts.\<close>

fun sum_each :: "('x \<Rightarrow> ('s, 'e, nat) act) \<Rightarrow> 'x list \<Rightarrow> nat \<Rightarrow> ('s, 'e, nat) act" where
  "sum_each f [] n = returnS n"
| "sum_each f (x # xs) n = bindS (f x) (\<lambda>k. sum_each f xs (sat_add64 n k))"

text \<open>\<open>remove\<close>, by how many more directories deep it may go: none is an error at the next.\<close>

primrec remove_left ::
    "('s, 'fd) os \<Rightarrow> bool \<Rightarrow> nat \<Rightarrow> 'fd \<Rightarrow> byte list \<Rightarrow> ('s, io_kind, nat) act" where
  "remove_left os dry 0 = (\<lambda>dir name.
     bindS (fsat_stat os dir name) (\<lambda>there.
       case map_option e_kind there of
         None \<Rightarrow> returnS 0
       | Some K_Dir \<Rightarrow> failS E_Else
       | Some _ \<Rightarrow> bindS (if dry then returnS () else sys_unlinkat os dir name False) (\<lambda>_. returnS 1)))"
| "remove_left os dry (Suc k) = (\<lambda>dir name.
     bindS (fsat_stat os dir name) (\<lambda>there.
       case map_option e_kind there of
         None \<Rightarrow> returnS 0
       | Some K_Dir \<Rightarrow>
           bindS (open_dir os dir name) (\<lambda>sub.
           bindS (if dry then returnS () else ignoreS (fsat_chmod os sub 0x1C0)) (\<lambda>_.
           bindS (fsat_names os sub) (\<lambda>names.
           bindS (sum_each (remove_left os dry k sub) names 0) (\<lambda>removed.
           bindS (if dry then returnS () else sys_unlinkat os dir name True) (\<lambda>_.
           returnS (sat_add64 removed 1))))))
       | Some _ \<Rightarrow> bindS (if dry then returnS () else sys_unlinkat os dir name False) (\<lambda>_. returnS 1)))"

definition fsat_remove ::
    "('s, 'fd) os \<Rightarrow> 'fd \<Rightarrow> byte list \<Rightarrow> nat \<Rightarrow> bool \<Rightarrow> ('s, io_kind, nat) act" where
  "fsat_remove os dir name depth dry = remove_left os dry (Suc MAX_DEPTH - depth) dir name"

section \<open>Walking\<close>

fun walk :: "('s, 'fd) os \<Rightarrow> 'fd \<Rightarrow> fname list \<Rightarrow> ('s, io_kind, 'fd) act" where
  "walk os dir [] = returnS dir"
| "walk os dir (name # names) = bindS (open_dir os dir (name_bytes name)) (\<lambda>sub. walk os sub names)"

text \<open>The directory reached, none in a dry run from the first missing, and how many were made or are missing.\<close>

fun walk_making ::
    "('s, 'fd) os \<Rightarrow> 'fd \<Rightarrow> fname list \<Rightarrow> bool \<Rightarrow> nat \<Rightarrow> ('s, io_kind, 'fd option \<times> nat) act" where
  "walk_making os dir [] dry made = returnS (Some dir, made)"
| "walk_making os dir (name # names) dry made = (\<lambda>s.
     case open_dir os dir (name_bytes name) s of
       (s', Inr sub) \<Rightarrow> walk_making os sub names dry made s'
     | (s', Inl e) \<Rightarrow>
         if e \<noteq> E_NotFound then (s', Inl e)
         else if dry then (s', Inr (None, sat_add64 made (Suc (length names))))
         else bindS (make_dir os dir (name_bytes name)) (\<lambda>_.
              bindS (open_dir os dir (name_bytes name)) (\<lambda>sub.
              bindS (fsat_chmod os sub 0x1ED) (\<lambda>_.
              walk_making os sub names dry (sat_add64 made 1)))) s')"

end
