(* ===== verification/Koh_Receive.thy ===== *)
theory Koh_Receive
  imports Koh_Fsat Koh_Proto "HOL-Library.List_Lexorder"
begin

text \<open>
  \<open>src/src/sync/receive.rs\<close>: the receiving end of a copy, whole, over any system (\<open>Koh_Fsat\<close>). What comes
  is the bytes that arrive until the stream ends; \<open>postcard\<close>'s reading of an item and BLAKE3 are functions of
  the environment. A path from the target is its names. An \<open>Rc<Dir>\<close> is the directory with a key
  of its own and its parent in it, and its strong count is one when its key is held by nothing else: no open or
  awaited directory or parent of one, and no parent of one that is closing.
\<close>

section \<open>Where a copy lands\<close>

definition MAX_SEEN :: nat where "MAX_SEEN = 4000000"

datatype 'fd target = Into "'fd option" | As_Name "'fd option" fname

datatype dest = Dest_Path path | Dest_Beneath path "fname list" bool

record ('s, 'fd) copy_env =
  en_os :: "('s, 'fd) os"
  en_opts :: opts
  en_item :: "byte list \<Rightarrow> item option"
  en_hash :: "byte list \<Rightarrow> hash"

text \<open>\<open>Path::file_name\<close> and \<open>Path::parent\<close>, the separators and \<open>.\<close> at the end of a path skipped.\<close>

definition path_file_name :: "path \<Rightarrow> byte list option" where
  "path_file_name p =
     (case rev (components p) of Normal name # _ \<Rightarrow> Some name | _ \<Rightarrow> None)"

definition trim_pieces :: "byte list list \<Rightarrow> byte list list" where
  "trim_pieces ps = rev (dropWhile (\<lambda>x. x = [] \<or> x = [0x2e]) (rev ps))"

definition path_parent :: "path \<Rightarrow> path option" where
  "path_parent p =
     (let front = (if is_absolute p then [SEP] else if hd (split_on SEP p) = [0x2e] then [0x2e] else []);
          body = trim_pieces (split_on SEP (drop (length front) p))
      in if body = [] then (if front = [0x2e] then Some [] else None)
         else Some (front @ join_with SEP (trim_pieces (butlast body))))"

text \<open>How many of a path and its parents are missing, up to the fuel, its length and one, which is
  enough: a parent is shorter.\<close>

fun made_dirs_up ::
    "('s, 'fd) os \<Rightarrow> 's \<Rightarrow> nat \<Rightarrow> path option \<Rightarrow> nat" where
  "made_dirs_up os s 0 at = 0"
| "made_dirs_up os s (Suc fuel) at =
     (case at of
        None \<Rightarrow> 0
      | Some p \<Rightarrow>
          if p \<noteq> [] \<and> \<not> sys_exists os s p then sat_add64 1 (made_dirs_up os s fuel (path_parent p)) else 0)"

definition made_dirs :: "('s, 'fd) os \<Rightarrow> path \<Rightarrow> ('s, 'e, nat) act" where
  "made_dirs os path = readS (\<lambda>s. Inr (made_dirs_up os s (Suc (length path)) (Some path)))"

definition made_path :: "('s, 'fd) os \<Rightarrow> path \<Rightarrow> bool \<Rightarrow> ('s, io_kind, 'fd option) act" where
  "made_path os path dry =
     (if dry then returnS None
      else bindS (sys_create_dir_all os path) (\<lambda>_.
           bindS (open_dir_path os path) (\<lambda>fd. returnS (Some fd))))"

text \<open>A relative path of names, shown.\<close>

abbreviation rel_bytes :: "byte list list \<Rightarrow> path" where
  "rel_bytes \<equiv> join_with SEP"

text \<open>\<open>Target::resolve\<close>: as the path itself, its parents made where missing; a path; beneath a scope's directory.\<close>

definition resolve_as :: "('s, 'fd) os \<Rightarrow> path \<Rightarrow> bool \<Rightarrow> ('s, failure, 'fd target \<times> nat) act" where
  "resolve_as os path dry =
     (case path_file_name path of
        None \<Rightarrow> failS (failure_new F_NoName path)
      | Some bytes \<Rightarrow>
          (case name_new bytes of
             Inl _ \<Rightarrow> failS (failure_new F_NoName path)
           | Inr name \<Rightarrow>
               let parent = (case path_parent path of
                               None \<Rightarrow> [0x2e] | Some p \<Rightarrow> if p = [] then [0x2e] else p)
               in bindS (made_dirs os parent) (\<lambda>made.
                  bindS (map_errS (failure_io path) (made_path os parent (dry \<and> 0 < made))) (\<lambda>fd.
                  returnS (As_Name fd name, made)))))"

definition resolve_path ::
    "('s, 'fd) os \<Rightarrow> path \<Rightarrow> nat \<Rightarrow> bool \<Rightarrow> ('s, failure, 'fd target \<times> nat) act" where
  "resolve_path os path count dry = (\<lambda>s.
     let names_dir = ((path \<noteq> [] \<and> last path = SEP) \<or> 1 < count) in
     case sys_metadata os s path of
       Inr type \<Rightarrow>
         if type = FT_Directory then
           bindS (map_errS (failure_io path) (open_dir_path os path)) (\<lambda>fd. returnS (Into (Some fd), 0)) s
         else if 1 < count then failS (failure_new F_SeveralIntoOne path) s
         else if names_dir then failS (failure_new F_NotADirectory path) s
         else resolve_as os path dry s
     | Inl e \<Rightarrow>
         if e \<noteq> E_NotFound then failS (failure_io path e) s
         else if names_dir then
           bindS (made_dirs os path) (\<lambda>made.
           bindS (map_errS (failure_io path) (made_path os path dry)) (\<lambda>fd. returnS (Into fd, made))) s
         else resolve_as os path dry s)"

definition resolve_beneath_at ::
    "('s, 'fd) os \<Rightarrow> path \<Rightarrow> fname \<Rightarrow> bool \<Rightarrow> nat \<Rightarrow> bool \<Rightarrow> 'fd option \<Rightarrow> nat
       \<Rightarrow> ('s, failure, 'fd target \<times> nat) act" where
  "resolve_beneath_at os shown last_name names_dir count dry parent made =
     bindS (case parent of
               Some fd \<Rightarrow> map_errS (failure_io shown) (fsat_stat os fd (name_bytes last_name))
             | None \<Rightarrow> returnS None) (\<lambda>there.
        case map_option e_kind there of
          Some K_Dir \<Rightarrow>
            (case parent of
               Some fd \<Rightarrow> bindS (map_errS (failure_io shown) (open_dir os fd (name_bytes last_name)))
                            (\<lambda>sub. returnS (Into (Some sub), made))
             | None \<Rightarrow> returnS (Into None, made))
        | Some K_Link \<Rightarrow> failS (failure_new F_IsASymlink shown)
        | Some _ \<Rightarrow>
            if 1 < count then failS (failure_new F_SeveralIntoOne shown)
            else if names_dir then failS (failure_new F_NotADirectory shown)
            else returnS (As_Name parent last_name, made)
        | None \<Rightarrow>
            if names_dir then
              (case parent of
                 Some fd \<Rightarrow> bindS (map_errS (failure_io shown) (walk_making os fd [last_name] dry made))
                              (\<lambda>(fd', made'). returnS (Into fd', made'))
               | None \<Rightarrow> returnS (Into None, sat_add64 made 1))
            else returnS (As_Name parent last_name, made))"

definition resolve_beneath_root ::
    "('s, 'fd) os \<Rightarrow> path \<Rightarrow> fname list \<Rightarrow> bool \<Rightarrow> nat \<Rightarrow> bool \<Rightarrow> ('s, failure, 'fd target \<times> nat) act" where
  "resolve_beneath_root os root path dir count dry =
     (let shown = rel_bytes (map name_bytes path) in
      bindS (map_errS (failure_io shown) (open_dir_path os root)) (\<lambda>root_fd.
        if path = [] then returnS (Into (Some root_fd), 0)
        else
          bindS (map_errS (failure_io shown) (walk_making os root_fd (butlast path) dry 0)) (\<lambda>(parent, made).
            resolve_beneath_at os shown (last path) (dir \<or> 1 < count) count dry parent made)))"

definition resolve_dest ::
    "('s, 'fd) os \<Rightarrow> dest \<Rightarrow> nat \<Rightarrow> bool \<Rightarrow> ('s, failure, 'fd target \<times> nat) act" where
  "resolve_dest os dest count dry =
     (case dest of
        Dest_Path path \<Rightarrow> resolve_path os path count dry
      | Dest_Beneath root path dir \<Rightarrow> resolve_beneath_root os root path dir count dry)"

section \<open>The receiver's state\<close>

text \<open>\<open>Dir\<close>: its key, then its fields.\<close>

datatype 'fd rdir =
  Rdir (rd_key: nat) (rd_fd: "'fd option") (rd_rel: "byte list list") (rd_mode: "mode option")
    (rd_mtime: "time option") (rd_parent: "'fd rdir option")

record 'fd opened =
  od_dir :: "'fd rdir"
  od_seen :: "byte list list option"

record 'fd awaited =
  aw_dir :: "'fd rdir"
  aw_header :: file_header
  aw_rel :: "byte list list"
  aw_existed :: bool
  aw_was :: "nat option"

text \<open>The system it changes and the bytes still to come with the fields; the open directories innermost
  first, and what it answered.\<close>

record ('s, 'fd) receiver =
  rv_os :: 's
  rv_input :: "byte list"
  rv_top :: "'fd rdir"
  rv_named :: "fname option"
  rv_placed :: nat
  rv_open :: "'fd opened list"
  rv_tree :: "byte list list"
  rv_pending :: "(file_id \<times> 'fd awaited) list"
  rv_closing :: "'fd rdir list"
  rv_seen :: nat
  rv_summary :: summary
  rv_answers :: "copy_answer list"
  rv_next_key :: nat

type_synonym ('s, 'fd, 'a) ract = "(('s, 'fd) receiver, failure, 'a) act"

definition on_os :: "byte list list \<Rightarrow> ('s, io_kind, 'a) act \<Rightarrow> ('s, 'fd, 'a) ract" where
  "on_os rel m = (\<lambda>r. case m (rv_os r) of (s, x) \<Rightarrow>
     (r\<lparr>rv_os := s\<rparr>, map_sum (failure_io (rel_bytes rel)) (\<lambda>a. a) x))"

definition changeR :: "(('s, 'fd) receiver \<Rightarrow> ('s, 'fd) receiver) \<Rightarrow> ('s, 'fd, unit) ract" where
  "changeR f = (\<lambda>r. (f r, Inr ()))"

definition summed :: "(summary \<Rightarrow> summary) \<Rightarrow> ('s, 'fd, unit) ract" where
  "summed f = changeR (\<lambda>r. r\<lparr>rv_summary := f (rv_summary r)\<rparr>)"

definition receiver_init :: "'s \<Rightarrow> byte list \<Rightarrow> 'fd target \<Rightarrow> ('s, 'fd) receiver" where
  "receiver_init s input target =
     (let (fd, named) = (case target of Into fd \<Rightarrow> (fd, None) | As_Name fd name \<Rightarrow> (fd, Some name))
      in \<lparr>rv_os = s, rv_input = input, rv_top = Rdir 0 fd [] None None None, rv_named = named, rv_placed = 0,
          rv_open = [], rv_tree = [], rv_pending = [], rv_closing = [], rv_seen = 0,
          rv_summary = summary_none, rv_answers = [], rv_next_key = 1\<rparr>)"

text \<open>\<open>read_exact\<close>: the stream's end before it is a copy cut short.\<close>

definition read_exact :: "nat \<Rightarrow> ('s, 'fd, byte list) ract" where
  "read_exact n = (\<lambda>r.
     if length (rv_input r) < n then (r\<lparr>rv_input := []\<rparr>, Inl copy_cut)
     else (r\<lparr>rv_input := drop n (rv_input r)\<rparr>, Inr (take n (rv_input r))))"

definition next_item :: "('s, 'fd) copy_env \<Rightarrow> ('s, 'fd, item) ract" where
  "next_item env =
     bindS (read_exact 4) (\<lambda>prefix.
       case body_len prefix MAX_ITEM of
         Inl _ \<Rightarrow> failS copy_malformed
       | Inr len \<Rightarrow>
           bindS (read_exact len) (\<lambda>body.
             case en_item env body of None \<Rightarrow> failS copy_malformed | Some it \<Rightarrow> returnS it))"

definition hex_digit :: "byte \<Rightarrow> byte" where
  "hex_digit b = (if b < 10 then 0x30 + b else 0x57 + b)"

definition part_name :: "('s, 'fd) copy_env \<Rightarrow> fname \<Rightarrow> fname" where
  "part_name env name =
     (let hex = concat (map (\<lambda>b. [hex_digit (b div 16), hex_digit (b mod 16)]) (take 8 (en_hash env (name_bytes name))))
      in Name (ascii ''.koh-'' @ hex @ ascii ''.part''))"

definition rdir_stat :: "('s, 'fd) copy_env \<Rightarrow> byte list list \<Rightarrow> 'fd rdir \<Rightarrow> fname \<Rightarrow> ('s, 'fd, dir_entry option) ract" where
  "rdir_stat env rel dir name =
     (case rd_fd dir of
        None \<Rightarrow> returnS None
      | Some fd \<Rightarrow> on_os rel (fsat_stat (en_os env) fd (name_bytes name)))"

definition rv_place :: "fname \<Rightarrow> ('s, 'fd, 'fd rdir \<times> fname) ract" where
  "rv_place name = (\<lambda>r.
     case rv_open r of
       w # _ \<Rightarrow> (r, Inr (od_dir w, name))
     | [] \<Rightarrow>
         let r' = r\<lparr>rv_placed := sat_add64 (rv_placed r) 1\<rparr> in
         (case rv_named r of
            None \<Rightarrow> (r', Inr (rv_top r, name))
          | Some named \<Rightarrow>
              if rv_placed r' = 1 then (r', Inr (rv_top r, named)) else (r', Inl copy_malformed)))"

definition saw :: "byte list \<Rightarrow> ('s, 'fd, unit) ract" where
  "saw name = (\<lambda>r.
     case rv_open r of
       [] \<Rightarrow> (r, Inr ())
     | w # ws \<Rightarrow>
         (case od_seen w of
            None \<Rightarrow> (r, Inr ())
          | Some seen \<Rightarrow>
              if name \<in> set seen then (r, Inr ())
              else
                let r' = r\<lparr>rv_open := w\<lparr>od_seen := Some (name # seen)\<rparr> # ws, rv_seen := sat_add64 (rv_seen r) 1\<rparr>
                in if MAX_SEEN < rv_seen r' then (r', Inl (failure_new F_TooMany [])) else (r', Inr ())))"

definition rv_open_dir :: "('s, 'fd) copy_env \<Rightarrow> 'fd option \<Rightarrow> byte list list \<Rightarrow> mode option \<Rightarrow> time option
    \<Rightarrow> 'fd rdir \<Rightarrow> ('s, 'fd, unit) ract" where
  "rv_open_dir env fd rel mode mtime parent = changeR (\<lambda>r.
     r\<lparr>rv_tree := (if rv_open r = [] then rel else rv_tree r),
       rv_open := \<lparr>od_dir = Rdir (rv_next_key r) fd rel mode mtime (Some parent),
                   od_seen = (if o_delete (en_opts env) then Some [] else None)\<rparr> # rv_open r,
       rv_next_key := Suc (rv_next_key r)\<rparr>)"

definition rv_remove :: "('s, 'fd) copy_env \<Rightarrow> 'fd \<Rightarrow> byte list \<Rightarrow> byte list list \<Rightarrow> ('s, 'fd, unit) ract" where
  "rv_remove env dir name rel =
     (let dry = o_dry_run (en_opts env) in
      bindS (on_os rel (fsat_remove (en_os env) dir name 0 dry)) (\<lambda>removed.
      bindS (summed (\<lambda>m. m\<lparr>s_deleted := sat_add64 (s_deleted m) removed\<rparr>)) (\<lambda>_.
      if dry then summed (\<lambda>m. note_change m Deleted_Entry (rel_bytes rel) None None) else returnS ())))"

section \<open>Directories\<close>

text \<open>\<open>enter\<close>, whether it is made, its descriptor, and the whole.\<close>

definition enter_made ::
    "('s, 'fd) copy_env \<Rightarrow> 'fd rdir \<Rightarrow> fname \<Rightarrow> byte list list \<Rightarrow> ekind option \<Rightarrow> ('s, 'fd, bool) ract" where
  "enter_made env parent name rel kind =
     (case (kind, rd_fd parent) of
        (None, _) \<Rightarrow> returnS True
      | (Some K_Dir, _) \<Rightarrow> returnS False
      | (Some K_Link, _) \<Rightarrow> failS (failure_new F_IsASymlink (rel_bytes rel))
      | (Some _, Some fd) \<Rightarrow>
          if o_delete (en_opts env) then bindS (rv_remove env fd (name_bytes name) rel) (\<lambda>_. returnS True)
          else failS (failure_new F_NotADirectory (rel_bytes rel))
      | (Some _, None) \<Rightarrow> failS (failure_new F_NotADirectory (rel_bytes rel)))"

definition enter_fd ::
    "('s, 'fd) copy_env \<Rightarrow> 'fd rdir \<Rightarrow> fname \<Rightarrow> byte list list \<Rightarrow> bool \<Rightarrow> ('s, 'fd, 'fd option) ract" where
  "enter_fd env parent name rel made =
     (case rd_fd parent of
        Some dir \<Rightarrow>
          if \<not> (o_dry_run (en_opts env) \<and> made) then
            bindS (if made then on_os rel (make_dir (en_os env) dir (name_bytes name)) else returnS ()) (\<lambda>_.
            bindS (on_os rel (open_dir (en_os env) dir (name_bytes name))) (\<lambda>fd. returnS (Some fd)))
          else returnS None
      | None \<Rightarrow> returnS None)"

definition enter ::
    "('s, 'fd) copy_env \<Rightarrow> 'fd rdir \<Rightarrow> fname \<Rightarrow> mode \<Rightarrow> time option \<Rightarrow> ('s, 'fd, unit) ract" where
  "enter env parent name mode mtime =
     (let rel = rd_rel parent @ [name_bytes name];
          dry = o_dry_run (en_opts env);
          keep = o_keep_times (en_opts env)
      in bindS (\<lambda>r. if MAX_DEPTH \<le> length (rv_open r)
                then (r, Inl (failure_new F_TooDeep (rel_bytes rel))) else (r, Inr ())) (\<lambda>_.
         bindS (saw (name_bytes name)) (\<lambda>_.
         bindS (rdir_stat env rel parent name) (\<lambda>there.
         bindS (enter_made env parent name rel (map_option e_kind there)) (\<lambda>made.
         bindS (if made then
                  bindS (summed (\<lambda>m. m\<lparr>s_dirs := sat_add64 (s_dirs m) 1\<rparr>)) (\<lambda>_.
                  if dry then summed (\<lambda>m. note_change m Made_Dir (rel_bytes rel) None None) else returnS ())
                else returnS ()) (\<lambda>_.
         bindS (enter_fd env parent name rel made) (\<lambda>fd.
         rv_open_dir env fd rel (if made \<or> keep then Some mode else None) (if keep then mtime else None)
           parent)))))))"

text \<open>The keys of a directory and of those it holds; those held by what is under way.\<close>

primrec chain :: "'fd rdir \<Rightarrow> nat list" where
  "chain (Rdir k fd rel mode mtime parent) =
     k # (case map_option chain parent of None \<Rightarrow> [] | Some ks \<Rightarrow> ks)"

definition held_keys :: "('s, 'fd) receiver \<Rightarrow> nat list" where
  "held_keys r =
     concat (map (\<lambda>w'. chain (od_dir w')) (rv_open r)) @
     concat (map (\<lambda>p. chain (aw_dir (snd p))) (rv_pending r)) @
     concat (map (\<lambda>d. tl (chain d)) (rv_closing r))"

definition swap_remove :: "nat \<Rightarrow> 'a list \<Rightarrow> 'a list" where
  "swap_remove n xs = (if Suc n = length xs then butlast xs else (butlast xs)[n := last xs])"

definition close_dir :: "('s, 'fd) copy_env \<Rightarrow> 'fd rdir \<Rightarrow> ('s, 'fd, unit) ract" where
  "close_dir env dir =
     (case rd_fd dir of
        None \<Rightarrow> returnS ()
      | Some fd \<Rightarrow>
          bindS (case rd_mode dir of
                   None \<Rightarrow> returnS ()
                 | Some m \<Rightarrow> on_os (rd_rel dir) (fsat_chmod (en_os env) fd (mode_landed m))) (\<lambda>_.
          case rd_mtime dir of
            None \<Rightarrow> returnS ()
          | Some t \<Rightarrow> on_os (rd_rel dir) (set_mtime (en_os env) fd t)))"

text \<open>One round of \<open>close_ready\<close>; each has one directory fewer to close, so as many rounds as there are
  are enough.\<close>

definition close_one :: "('s, 'fd) copy_env \<Rightarrow> ('s, 'fd, bool) ract" where
  "close_one env = (\<lambda>r.
     case position (\<lambda>d. rd_key d \<notin> set (held_keys r)) (rv_closing r) of
       None \<Rightarrow> (r, Inr False)
     | Some at \<Rightarrow>
         bindS (close_dir env (rv_closing r ! at)) (\<lambda>_. returnS True)
           (r\<lparr>rv_closing := swap_remove at (rv_closing r)\<rparr>))"

primrec close_rounds :: "('s, 'fd) copy_env \<Rightarrow> nat \<Rightarrow> ('s, 'fd, unit) ract" where
  "close_rounds env 0 = returnS ()"
| "close_rounds env (Suc n) = bindS (close_one env) (\<lambda>more. if more then close_rounds env n else returnS ())"

definition close_ready :: "('s, 'fd) copy_env \<Rightarrow> ('s, 'fd, unit) ract" where
  "close_ready env = (\<lambda>r. close_rounds env (length (rv_closing r)) r)"

text \<open>What \<open>--delete\<close> removes of an ended directory's names.\<close>

definition to_delete ::
    "('s, 'fd) copy_env \<Rightarrow> byte list list \<Rightarrow> byte list list \<Rightarrow> byte list list \<Rightarrow> byte list \<Rightarrow> bool" where
  "to_delete env tree rel seen name =
     (let path = rel @ [name];
          at = (case strip_prefix tree path of Some p \<Rightarrow> p | None \<Rightarrow> path)
      in excludes (o_excludes (en_opts env)) name (rel_bytes at) \<noteq> Some True \<and> name \<notin> set seen)"

fun delete_each ::
    "('s, 'fd) copy_env \<Rightarrow> byte list list \<Rightarrow> 'fd rdir \<Rightarrow> 'fd \<Rightarrow> byte list list \<Rightarrow> byte list list
       \<Rightarrow> ('s, 'fd, unit) ract" where
  "delete_each env tree dir fd seen [] = returnS ()"
| "delete_each env tree dir fd seen (name # names) =
     bindS (if to_delete env tree (rd_rel dir) seen name
            then rv_remove env fd name (rd_rel dir @ [name]) else returnS ()) (\<lambda>_.
     delete_each env tree dir fd seen names)"

definition leave :: "('s, 'fd) copy_env \<Rightarrow> ('s, 'fd, unit) ract" where
  "leave env = (\<lambda>r.
     case rv_open r of
       [] \<Rightarrow> (r, Inl copy_malformed)
     | w # ws \<Rightarrow>
         bindS
           (case od_seen w of
              None \<Rightarrow> returnS ()
            | Some seen \<Rightarrow>
                bindS (changeR (\<lambda>r. r\<lparr>rv_seen := rv_seen r - length seen\<rparr>)) (\<lambda>_.
                case rd_fd (od_dir w) of
                  None \<Rightarrow> returnS ()
                | Some fd \<Rightarrow>
                    bindS (on_os (rd_rel (od_dir w)) (fsat_names (en_os env) fd))
                      (delete_each env (rv_tree r) (od_dir w) fd seen)))
           (\<lambda>_. bindS (if o_dry_run (en_opts env) then returnS ()
                      else changeR (\<lambda>r. r\<lparr>rv_closing := rv_closing r @ [od_dir w]\<rparr>)) (\<lambda>_.
                close_ready env))
           (r\<lparr>rv_open := ws\<rparr>))"

section \<open>Files\<close>

definition rv_answer :: "copy_answer \<Rightarrow> ('s, 'fd, unit) ract" where
  "rv_answer a = changeR (\<lambda>r. r\<lparr>rv_answers := rv_answers r @ [a]\<rparr>)"

text \<open>\<open>file\<close>: the answer to a header, and the whole.\<close>

definition want_part ::
    "('s, 'fd) copy_env \<Rightarrow> 'fd rdir \<Rightarrow> file_header \<Rightarrow> byte list list \<Rightarrow> ('s, 'fd, copy_answer) ract" where
  "want_part env dir header rel =
     (let part = part_name env (h_name header) in
      bindS (saw (name_bytes part)) (\<lambda>_.
      bindS (rdir_stat env rel dir part) (\<lambda>kept.
        case (kept, rd_fd dir) of
          (Some p, Some fd) \<Rightarrow>
            if e_kind p = K_File \<and> 0 < e_size p \<and> e_size p \<le> h_size header then
              bindS (on_os rel (open_file (en_os env) fd (name_bytes part))) (\<lambda>file.
              bindS (on_os rel (readS (\<lambda>s. sys_hash (en_os env) s file (e_size p)))) (\<lambda>prefix.
              returnS (Want (h_id header) (e_size p) (Some prefix))))
            else returnS (Want (h_id header) 0 None)
        | _ \<Rightarrow> returnS (Want (h_id header) 0 None))))"

definition file_answer ::
    "('s, 'fd) copy_env \<Rightarrow> 'fd rdir \<Rightarrow> file_header \<Rightarrow> byte list list \<Rightarrow> dir_entry option
       \<Rightarrow> ('s, 'fd, copy_answer) ract" where
  "file_answer env dir header rel there =
     (case there of
        None \<Rightarrow> want_part env dir header rel
      | Some e \<Rightarrow>
          if e_kind e = K_Dir then failS (failure_new F_IsADirectory (rel_bytes rel))
          else
            (case rd_fd dir of
               None \<Rightarrow> want_part env dir header rel
             | Some fd \<Rightarrow>
                 if e_kind e = K_File \<and> e_size e = h_size header then
                   bindS (on_os rel (open_file (en_os env) fd (name_bytes (h_name header)))) (\<lambda>file.
                   bindS (on_os rel (readS (\<lambda>s. sys_hash (en_os env) s file u64_max))) (\<lambda>hash.
                   returnS (Check (h_id header) hash)))
                 else want_part env dir header rel))"

definition rv_file :: "('s, 'fd) copy_env \<Rightarrow> 'fd rdir \<Rightarrow> file_header \<Rightarrow> ('s, 'fd, unit) ract" where
  "rv_file env dir header =
     (let rel = rd_rel dir @ [name_bytes (h_name header)] in
      bindS (\<lambda>r. if WINDOW \<le> length (rv_pending r) \<or> map_of (rv_pending r) (h_id header) \<noteq> None
                 then (r, Inl copy_malformed) else (r, Inr ())) (\<lambda>_.
      bindS (saw (name_bytes (h_name header))) (\<lambda>_.
      bindS (rdir_stat env rel dir (h_name header)) (\<lambda>there.
      bindS (file_answer env dir header rel there) (\<lambda>answer.
      bindS (changeR (\<lambda>r. r\<lparr>rv_pending := (h_id header,
               \<lparr>aw_dir = dir, aw_header = header, aw_rel = rel, aw_existed = there \<noteq> None,
                aw_was = (case there of
                            Some e \<Rightarrow> if e_kind e = K_File then Some (e_size e) else None | None \<Rightarrow> None)\<rparr>) #
               rv_pending r\<rparr>)) (\<lambda>_.
      rv_answer answer))))))"

text \<open>\<open>pending.remove\<close>.\<close>

definition take_pending :: "file_id \<Rightarrow> ('s, 'fd, 'fd awaited) ract" where
  "take_pending i = (\<lambda>r.
     case map_of (rv_pending r) i of
       None \<Rightarrow> (r, Inl copy_malformed)
     | Some p \<Rightarrow> (r\<lparr>rv_pending := filter (\<lambda>(j, _). j \<noteq> i) (rv_pending r)\<rparr>, Inr p))"

definition rv_chunk :: "('s, 'fd) copy_env \<Rightarrow> ('s, 'fd, byte list option) ract" where
  "rv_chunk env =
     bindS (next_item env) (\<lambda>it.
       case it of
         Sent_All \<Rightarrow> returnS None
       | Chunk_Of len \<Rightarrow>
           bindS (read_exact (data_len len)) (\<lambda>data.
           bindS (summed (\<lambda>m. m\<lparr>s_sent_bytes := sat_add64 (s_sent_bytes m) (data_len len)\<rparr>)) (\<lambda>_.
           returnS (Some data)))
       | _ \<Rightarrow> failS copy_malformed)"

text \<open>The loop of \<open>data\<close>: each round takes bytes of the input, so as many rounds as it has bytes and one
  more are enough.\<close>

primrec write_chunks ::
    "('s, 'fd) copy_env \<Rightarrow> nat \<Rightarrow> byte list list \<Rightarrow> 'fd \<Rightarrow> nat \<Rightarrow> ('s, 'fd, unit) ract" where
  "write_chunks env 0 = (\<lambda>rel file at. failS copy_cut)"
| "write_chunks env (Suc n) = (\<lambda>rel file at.
     bindS (rv_chunk env) (\<lambda>got.
       case got of
         None \<Rightarrow> returnS ()
       | Some data \<Rightarrow>
           bindS (on_os rel (sys_write_all_at (en_os env) file data at)) (\<lambda>_.
           write_chunks env n rel file (sat_add64 at (length data)))))"

definition rv_written :: "('s, 'fd) copy_env \<Rightarrow> 'fd awaited \<Rightarrow> nat \<Rightarrow> ('s, 'fd, unit) ract" where
  "rv_written env p from = summed (\<lambda>m.
     let m1 = (if aw_existed p then m\<lparr>s_replaced := sat_add64 (s_replaced m) 1\<rparr>
               else m\<lparr>s_new := sat_add64 (s_new m) 1\<rparr>);
         m2 = (if 0 < from then m1\<lparr>s_resumed := sat_add64 (s_resumed m1) 1\<rparr> else m1)
     in if o_dry_run (en_opts env)
        then note_change m2 (if aw_existed p then Replaced_File else New_File) (rel_bytes (aw_rel p))
               (Some (h_size (aw_header p))) (aw_was p)
        else m2)"

definition rv_data :: "('s, 'fd) copy_env \<Rightarrow> file_id \<Rightarrow> nat \<Rightarrow> ('s, 'fd, unit) ract" where
  "rv_data env i from =
     bindS (take_pending i) (\<lambda>p.
       case rd_fd (aw_dir p) of
         None \<Rightarrow> failS copy_malformed
       | Some dir \<Rightarrow>
           let part = part_name env (h_name (aw_header p)) in
           bindS (on_os (aw_rel p) (fsat_create (en_os env) dir (name_bytes part) (from = 0))) (\<lambda>file.
           bindS (on_os (aw_rel p) (sys_set_len (en_os env) file from)) (\<lambda>_.
           bindS (\<lambda>r. write_chunks env (Suc (length (rv_input r))) (aw_rel p) file from r) (\<lambda>_.
           bindS (on_os (aw_rel p) (sys_fchmod (en_os env) file (mode_landed (h_mode (aw_header p))))) (\<lambda>_.
           bindS (case h_mtime (aw_header p) of
                    None \<Rightarrow> returnS ()
                  | Some time \<Rightarrow>
                      if o_keep_times (en_opts env) then on_os (aw_rel p) (set_mtime (en_os env) file time)
                      else returnS ()) (\<lambda>_.
           bindS (on_os (aw_rel p)
                    (fsat_rename (en_os env) dir (name_bytes part) (name_bytes (h_name (aw_header p))))) (\<lambda>_.
           bindS (rv_written env p from) (\<lambda>_.
           close_ready env))))))))"

definition rv_differs :: "('s, 'fd) copy_env \<Rightarrow> file_id \<Rightarrow> nat \<Rightarrow> ('s, 'fd, unit) ract" where
  "rv_differs env i from =
     bindS (take_pending i) (\<lambda>p.
     bindS (summed (\<lambda>m. m\<lparr>s_sent_bytes := sat_add64 (s_sent_bytes m) (h_size (aw_header p) - from)\<rparr>)) (\<lambda>_.
     rv_written env p from))"

definition rv_same :: "('s, 'fd) copy_env \<Rightarrow> file_id \<Rightarrow> ('s, 'fd, unit) ract" where
  "rv_same env i =
     bindS (take_pending i) (\<lambda>p.
     bindS (summed (\<lambda>m. m\<lparr>s_unchanged := sat_add64 (s_unchanged m) 1\<rparr>)) (\<lambda>_.
     if o_dry_run (en_opts env) then returnS ()
     else
       (case rd_fd (aw_dir p) of
          None \<Rightarrow> failS copy_malformed
        | Some dir \<Rightarrow>
            let mode = mode_landed (h_mode (aw_header p)) in
            bindS (on_os (aw_rel p) (open_file (en_os env) dir (name_bytes (h_name (aw_header p))))) (\<lambda>file.
            bindS (on_os (aw_rel p) (stat_of (en_os env) file)) (\<lambda>here.
            bindS (if e_mode here \<noteq> mode then on_os (aw_rel p) (sys_fchmod (en_os env) file mode)
                   else returnS ()) (\<lambda>_.
            bindS (case h_mtime (aw_header p) of
                     None \<Rightarrow> returnS ()
                   | Some t \<Rightarrow>
                       if o_keep_times (en_opts env) \<and> e_mtime here \<noteq> Some t
                       then on_os (aw_rel p) (set_mtime (en_os env) file t) else returnS ()) (\<lambda>_.
            close_ready env)))))))"

section \<open>Symlinks\<close>

definition link_replace ::
    "('s, 'fd) copy_env \<Rightarrow> 'fd \<Rightarrow> fname \<Rightarrow> link_target \<Rightarrow> byte list list \<Rightarrow> ('s, 'fd, unit) ract" where
  "link_replace env fd name link rel =
     (let part = name_bytes (part_name env name) in
      bindS (on_os rel (ignoreS (fsat_remove (en_os env) fd part MAX_DEPTH False))) (\<lambda>_.
      bindS (on_os rel (fsat_symlink (en_os env) (link_bytes link) fd part)) (\<lambda>_.
      on_os rel (fsat_rename (en_os env) fd part (name_bytes name)))))"

definition rv_symlink :: "('s, 'fd) copy_env \<Rightarrow> 'fd rdir \<Rightarrow> fname \<Rightarrow> link_target \<Rightarrow> ('s, 'fd, unit) ract" where
  "rv_symlink env dir name link =
     (let rel = rd_rel dir @ [name_bytes name];
          counted = summed (\<lambda>m. m\<lparr>s_links := sat_add64 (s_links m) 1\<rparr>);
          shown = summed (\<lambda>m. note_change m Made_Link (rel_bytes rel) None None);
          dry = o_dry_run (en_opts env)
      in bindS (saw (name_bytes name)) (\<lambda>_.
         bindS (rdir_stat env rel dir name) (\<lambda>there.
           case (map_option e_kind there, rd_fd dir) of
             (Some K_Dir, _) \<Rightarrow> failS (failure_new F_IsADirectory (rel_bytes rel))
           | (Some K_Link, Some fd) \<Rightarrow>
               bindS (on_os rel (read_link (en_os env) fd (name_bytes name))) (\<lambda>target.
                 if target = link_bytes link then returnS ()
                 else bindS (if dry then shown else link_replace env fd name link rel) (\<lambda>_. counted))
           | (Some _, Some fd) \<Rightarrow>
               bindS (if dry then shown else link_replace env fd name link rel) (\<lambda>_. counted)
           | (None, Some fd) \<Rightarrow>
               bindS (if dry then shown
                      else on_os rel (fsat_symlink (en_os env) (link_bytes link) fd (name_bytes name))) (\<lambda>_. counted)
           | (_, None) \<Rightarrow> bindS (if dry then shown else failS copy_malformed) (\<lambda>_. counted))))"

section \<open>The run\<close>

text \<open>An item, and whether it ends the copy.\<close>

definition rv_item :: "('s, 'fd) copy_env \<Rightarrow> item \<Rightarrow> ('s, 'fd, bool) ract" where
  "rv_item env it = (\<lambda>r.
     let at_top = (rv_open r = []);
         dry = o_dry_run (en_opts env);
         bad = (r, Inl copy_malformed);
         on = (\<lambda>m. bindS m (\<lambda>_. returnS False) r)
     in case it of
          All_Done \<Rightarrow> if at_top \<and> rv_pending r = [] then (r, Inr True) else bad
        | Gave_Up failure \<Rightarrow> (r, Inl failure)
        | End_Dir \<Rightarrow> if \<not> at_top then on (leave env) else bad
        | Skipped name \<Rightarrow>
            if \<not> at_top
            then on (bindS (saw (name_bytes name)) (\<lambda>_. summed (\<lambda>m. m\<lparr>s_skipped := sat_add64 (s_skipped m) 1\<rparr>)))
            else bad
        | Data_From i from \<Rightarrow> if \<not> dry then on (rv_data env i from) else bad
        | Differs i from \<Rightarrow> if dry then on (rv_differs env i from) else bad
        | Same i \<Rightarrow> on (rv_same env i)
        | Contents mode mtime \<Rightarrow>
            if \<not> at_top then bad
            else
              (case rv_named r of
                 Some name \<Rightarrow> on (bindS (rv_place name) (\<lambda>(parent, n). enter env parent n mode mtime))
               | None \<Rightarrow>
                   on (bindS (case rd_fd (rv_top r) of
                                None \<Rightarrow> returnS None
                              | Some fd \<Rightarrow> bindS (on_os [] (sys_dup (en_os env) fd))
                                             (\<lambda>fd'. returnS (Some fd')))
                         (\<lambda>fd. rv_open_dir env fd [] None
                            (if o_keep_times (en_opts env) then mtime else None) (rv_top r))))
        | Dir name mode mtime \<Rightarrow> on (bindS (rv_place name) (\<lambda>(parent, n). enter env parent n mode mtime))
        | File header \<Rightarrow>
            on (bindS (rv_place (h_name header)) (\<lambda>(parent, n). rv_file env parent (header\<lparr>h_name := n\<rparr>)))
        | Symlink name link \<Rightarrow> on (bindS (rv_place name) (\<lambda>(parent, n). rv_symlink env parent n link))
        | Chunk_Of _ \<Rightarrow> bad
        | Sent_All \<Rightarrow> bad)"

text \<open>As in \<open>write_chunks\<close>, a round takes bytes of the input.\<close>

primrec rv_rounds :: "('s, 'fd) copy_env \<Rightarrow> nat \<Rightarrow> ('s, 'fd, summary) ract" where
  "rv_rounds env 0 = failS copy_cut"
| "rv_rounds env (Suc n) =
     bindS (next_item env) (\<lambda>it.
     bindS (rv_item env it) (\<lambda>over.
       if over then
         (\<lambda>r. (r\<lparr>rv_summary := summary_none\<rparr>,
               Inr ((rv_summary r)\<lparr>s_changes := sort_key c_path (s_changes (rv_summary r))\<rparr>)))
       else rv_rounds env n))"

definition rv_run :: "('s, 'fd) copy_env \<Rightarrow> ('s, 'fd, summary) ract" where
  "rv_run env = (\<lambda>r. rv_rounds env (Suc (length (rv_input r))) r)"

text \<open>The system it leaves, what it answered and how it went.\<close>

definition receive ::
    "('s, 'fd) copy_env \<Rightarrow> byte list \<Rightarrow> 'fd target \<Rightarrow> 's \<Rightarrow> 's \<times> copy_answer list \<times> (failure + summary)" where
  "receive env input target s =
     (case rv_run env (receiver_init s input target) of (r, x) \<Rightarrow> (rv_os r, rv_answers r, x))"

end
