(* ===== verification/Koh_Receive_Proofs.thy ===== *)
theory Koh_Receive_Proofs
  imports Koh_Receive
begin

text \<open>
  What a copy's receiving end does to the system: the calls it makes are written down beside any system's state,
  and they stay within the target's directory, a dry run's change nothing, and what it keeps is bounded. Then,
  that a copy that ends well accounts for each file that came.
\<close>

section \<open>The calls, written down\<close>

text \<open>A call on a descriptor, and the descriptor it gives where it gives one.\<close>

datatype 'fd call =
    C_Open_Dir 'fd "byte list" "'fd option"
  | C_Open_File 'fd "byte list" "'fd option"
  | C_Dup 'fd "'fd option"
  | C_Open_Path path "'fd option"
  | C_Create_Path path
  | C_Create 'fd "byte list" "'fd option"
  | C_Make_Dir 'fd "byte list"
  | C_Set_Len 'fd
  | C_Write 'fd
  | C_Mode 'fd
  | C_Time 'fd
  | C_Rename 'fd "byte list" "byte list"
  | C_Symlink 'fd "byte list"
  | C_Unlink 'fd "byte list"

definition gave :: "'e + 'a \<Rightarrow> 'a option" where
  "gave r = (case r of Inl _ \<Rightarrow> None | Inr a \<Rightarrow> Some a)"

definition logS :: "('e + 'a \<Rightarrow> 'fd call) \<Rightarrow> ('s, 'e, 'a) act \<Rightarrow> ('s \<times> 'fd call list, 'e, 'a) act" where
  "logS c m = (\<lambda>(s, l). case m s of (s', r) \<Rightarrow> ((s', l @ [c r]), r))"

definition logged :: "('s, 'fd) os \<Rightarrow> ('s \<times> 'fd call list, 'fd) os" where
  "logged os = \<lparr>
     sys_statat = (\<lambda>s. sys_statat os (fst s)),
     sys_fstat = (\<lambda>s. sys_fstat os (fst s)),
     sys_readlink = (\<lambda>s. sys_readlink os (fst s)),
     sys_read_dir = (\<lambda>s. sys_read_dir os (fst s)),
     sys_hash = (\<lambda>s. sys_hash os (fst s)),
     sys_metadata = (\<lambda>s. sys_metadata os (fst s)),
     sys_exists = (\<lambda>s. sys_exists os (fst s)),
     sys_open_dir = (\<lambda>d n. logS (\<lambda>r. C_Open_Dir d n (gave r)) (sys_open_dir os d n)),
     sys_open_path = (\<lambda>p. logS (\<lambda>r. C_Open_Path p (gave r)) (sys_open_path os p)),
     sys_dup = (\<lambda>d. logS (\<lambda>r. C_Dup d (gave r)) (sys_dup os d)),
     sys_open_file = (\<lambda>d n. logS (\<lambda>r. C_Open_File d n (gave r)) (sys_open_file os d n)),
     sys_create_dir_all = (\<lambda>p. logS (\<lambda>r. C_Create_Path p) (sys_create_dir_all os p)),
     sys_create = (\<lambda>d n t m. logS (\<lambda>r. C_Create d n (gave r)) (sys_create os d n t m)),
     sys_mkdirat = (\<lambda>d n m. logS (\<lambda>r. C_Make_Dir d n) (sys_mkdirat os d n m)),
     sys_set_len = (\<lambda>f n. logS (\<lambda>r. C_Set_Len f) (sys_set_len os f n)),
     sys_write_all_at = (\<lambda>f b n. logS (\<lambda>r. C_Write f) (sys_write_all_at os f b n)),
     sys_fchmod = (\<lambda>f m. logS (\<lambda>r. C_Mode f) (sys_fchmod os f m)),
     sys_futimens = (\<lambda>f t n. logS (\<lambda>r. C_Time f) (sys_futimens os f t n)),
     sys_renameat = (\<lambda>d a b. logS (\<lambda>r. C_Rename d a b) (sys_renameat os d a b)),
     sys_symlinkat = (\<lambda>t d n. logS (\<lambda>r. C_Symlink d n) (sys_symlinkat os t d n)),
     sys_unlinkat = (\<lambda>d n dir. logS (\<lambda>r. C_Unlink d n) (sys_unlinkat os d n dir))\<rparr>"

definition logging :: "('s, 'fd) copy_env \<Rightarrow> ('s \<times> 'fd call list, 'fd) copy_env" where
  "logging env = \<lparr>en_os = logged (en_os env), en_opts = en_opts env, en_item = en_item env, en_hash = en_hash env\<rparr>"

text \<open>A name of an entry: one component, that goes nowhere else.\<close>

definition plain_name :: "byte list \<Rightarrow> bool" where
  "plain_name n \<longleftrightarrow> n \<noteq> [] \<and> SEP \<notin> set n \<and> n \<noteq> [0x2e] \<and> n \<noteq> [0x2e, 0x2e]"

text \<open>
  Whether a call is on an entry of a directory (or on a file) among those known, by an entry's name;
  if nothing is to be changed, one that only opens.
\<close>

fun call_in :: "bool \<Rightarrow> 'fd set \<Rightarrow> 'fd call \<Rightarrow> bool" where
  "call_in dry B (C_Open_Dir d n _) = (d \<in> B \<and> plain_name n)"
| "call_in dry B (C_Open_File d n _) = (d \<in> B \<and> plain_name n)"
| "call_in dry B (C_Dup d _) = (d \<in> B)"
| "call_in dry B (C_Open_Path p _) = False"
| "call_in dry B (C_Create_Path p) = False"
| "call_in dry B (C_Create d n _) = (\<not> dry \<and> d \<in> B \<and> plain_name n)"
| "call_in dry B (C_Make_Dir d n) = (\<not> dry \<and> d \<in> B \<and> plain_name n)"
| "call_in dry B (C_Set_Len f) = (\<not> dry \<and> f \<in> B)"
| "call_in dry B (C_Write f) = (\<not> dry \<and> f \<in> B)"
| "call_in dry B (C_Mode f) = (\<not> dry \<and> f \<in> B)"
| "call_in dry B (C_Time f) = (\<not> dry \<and> f \<in> B)"
| "call_in dry B (C_Rename d a b) = (\<not> dry \<and> d \<in> B \<and> plain_name a \<and> plain_name b)"
| "call_in dry B (C_Symlink d n) = (\<not> dry \<and> d \<in> B \<and> plain_name n)"
| "call_in dry B (C_Unlink d n) = (\<not> dry \<and> d \<in> B \<and> plain_name n)"

fun call_gave :: "'fd call \<Rightarrow> 'fd option" where
  "call_gave (C_Open_Dir _ _ r) = r"
| "call_gave (C_Open_File _ _ r) = r"
| "call_gave (C_Dup _ r) = r"
| "call_gave (C_Open_Path _ r) = r"
| "call_gave (C_Create _ _ r) = r"
| "call_gave _ = None"

text \<open>Each call of a log on what was known before it: at first some descriptors, then those given too.\<close>

fun within :: "bool \<Rightarrow> 'fd set \<Rightarrow> 'fd call list \<Rightarrow> bool" where
  "within dry B [] = True"
| "within dry B (c # cs) = (call_in dry B c \<and> within dry (B \<union> set_option (call_gave c)) cs)"

definition known :: "'fd set \<Rightarrow> 'fd call list \<Rightarrow> 'fd set" where
  "known B cs = B \<union> (\<Union>c\<in>set cs. set_option (call_gave c))"

lemma known_simps [simp]:
  "known B [] = B" "known B (c # cs) = known (B \<union> set_option (call_gave c)) cs"
  by (auto simp: known_def)

lemma known_snoc: "known B (cs @ [c]) = known B cs \<union> set_option (call_gave c)"
  by (auto simp: known_def)

lemma within_snoc: "within dry B (cs @ [c]) \<longleftrightarrow> within dry B cs \<and> call_in dry (known B cs) c"
  by (induction cs arbitrary: B) auto

lemma call_in_mono: "call_in dry X c \<Longrightarrow> X \<subseteq> Y \<Longrightarrow> call_in dry Y c"
  by (cases c) auto

lemma bindS_return [simp]: "bindS (returnS a) f = f a"
  by (simp add: bindS_def returnS_def)

section \<open>The system's part\<close>

text \<open>What was called is within bounds, and some descriptors are known.\<close>

definition sys_in :: "bool \<Rightarrow> 'fd set \<Rightarrow> 'fd set \<Rightarrow> 's \<times> 'fd call list \<Rightarrow> bool" where
  "sys_in dry B X st \<longleftrightarrow> within dry B (snd st) \<and> X \<subseteq> known B (snd st)"

lemma sys_in_mono: "sys_in dry B Y st \<Longrightarrow> X \<subseteq> Y \<Longrightarrow> sys_in dry B X st"
  by (auto simp: sys_in_def)

text \<open>An operation that, given the descriptors in \<open>X\<close>, keeps what is known, and gives \<open>F\<close> of its result too.\<close>

definition stays ::
    "bool \<Rightarrow> 'fd set \<Rightarrow> 'fd set \<Rightarrow> ('s \<times> 'fd call list, 'e, 'a) act \<Rightarrow> ('a \<Rightarrow> 'fd set) \<Rightarrow> bool" where
  "stays dry B X m F \<longleftrightarrow>
     (\<forall>Y. X \<subseteq> Y \<longrightarrow> holds (sys_in dry B Y) m (\<lambda>a. sys_in dry B (F a \<union> Y)) (sys_in dry B Y))"

named_theorems stays_rules \<open>operations that stay within the target\<close>

lemma staysI:
  "(\<And>Y. X \<subseteq> Y \<Longrightarrow> holds (sys_in dry B Y) m (\<lambda>a. sys_in dry B (F a \<union> Y)) (sys_in dry B Y)) \<Longrightarrow>
     stays dry B X m F"
  by (simp add: stays_def)

lemma staysD:
  "stays dry B X m F \<Longrightarrow> X \<subseteq> Y \<Longrightarrow>
     holds (sys_in dry B Y) m (\<lambda>a. sys_in dry B (F a \<union> Y)) (sys_in dry B Y)"
  by (simp add: stays_def)

lemma stays_log:
  assumes "\<And>r. call_in dry X (c r)" and "\<And>a. F a \<subseteq> set_option (call_gave (c (Inr a)))"
  shows "stays dry B X (logS c m) F"
proof (rule staysI)
  fix Y assume XY: "X \<subseteq> Y"
  have w: "within dry B (l @ [c r])" if "sys_in dry B Y (s0, l)" for s0 l r
  proof -
    have "X \<subseteq> known B l" using that XY by (auto simp: sys_in_def)
    from call_in_mono [OF assms(1) this] show ?thesis
      using that by (simp add: within_snoc sys_in_def)
  qed
  have "sys_in dry B Y (s1, l @ [c (Inl e)])" if "sys_in dry B Y (s0, l)" for s0 s1 l e
    using w [OF that, of "Inl e"] that by (auto simp: sys_in_def known_snoc)
  moreover have "sys_in dry B (F a \<union> Y) (s1, l @ [c (Inr a)])" if "sys_in dry B Y (s0, l)" for s0 s1 l a
    using w [OF that, of "Inr a"] that assms(2) [of a] by (auto simp: sys_in_def known_snoc)
  ultimately show "holds (sys_in dry B Y) (logS c m) (\<lambda>a. sys_in dry B (F a \<union> Y)) (sys_in dry B Y)"
    by (auto simp: holds_def logS_def split: prod.splits sum.splits)
qed

lemma stays_weaken:
  assumes "stays dry B X m F" and "X \<subseteq> Y" and "\<And>a. G a \<subseteq> F a \<union> Y"
  shows "stays dry B Y m G"
proof (rule staysI)
  fix Z assume YZ: "Y \<subseteq> Z"
  show "holds (sys_in dry B Z) m (\<lambda>a. sys_in dry B (G a \<union> Z)) (sys_in dry B Z)"
  proof (rule holds_weaken [OF staysD [OF assms(1)]])
    show "X \<subseteq> Z" using assms(2) YZ by blast
    fix a s assume "sys_in dry B (F a \<union> Z) s"
    then show "sys_in dry B (G a \<union> Z) s"
      by (rule sys_in_mono) (use assms(3) [of a] YZ in blast)
  qed
qed

lemma stays_bind:
  assumes "stays dry B X m F" and "\<And>a. stays dry B (F a \<union> X) (f a) G"
  shows "stays dry B X (bindS m f) G"
proof (rule staysI)
  fix Y assume XY: "X \<subseteq> Y"
  show "holds (sys_in dry B Y) (bindS m f) (\<lambda>a. sys_in dry B (G a \<union> Y)) (sys_in dry B Y)"
  proof (rule holds_bind)
    show "holds (sys_in dry B Y) m (\<lambda>a. sys_in dry B (F a \<union> Y)) (sys_in dry B Y)"
      by (rule staysD [OF assms(1) XY])
    fix a
    have "F a \<union> X \<subseteq> F a \<union> Y" using XY by blast
    from staysD [OF assms(2) this]
    show "holds (sys_in dry B (F a \<union> Y)) (f a) (\<lambda>a. sys_in dry B (G a \<union> Y)) (sys_in dry B Y)"
      by (rule holds_weaken) (erule sys_in_mono; blast)+
  qed
qed

lemma stays_return: "F a \<subseteq> X \<Longrightarrow> stays dry B X (returnS a) F"
  by (rule staysI) (auto simp: holds_def returnS_def sys_in_def)

lemma stays_fail [simp]: "stays dry B X (failS e) F"
  by (rule staysI) (simp add: holds_def failS_def)

lemma stays_read: "stays dry B X (readS f) (\<lambda>_. {})"
  by (rule staysI) (auto simp: holds_def readS_def split: sum.splits)

text \<open>What is read has the property of what may be read.\<close>

lemma stays_bind_read:
  assumes "\<And>s a. f s = Inr a \<Longrightarrow> stays dry B X (g a) G"
  shows "stays dry B X (bindS (readS f) g) G"
proof (rule staysI)
  fix Y assume XY: "X \<subseteq> Y"
  have "holds (sys_in dry B Y) (g a) (\<lambda>a. sys_in dry B (G a \<union> Y)) (sys_in dry B Y)" if "f s = Inr a" for s a
    by (rule staysD [OF assms [OF that] XY])
  then show "holds (sys_in dry B Y) (bindS (readS f) g) (\<lambda>a. sys_in dry B (G a \<union> Y)) (sys_in dry B Y)"
    unfolding holds_def bindS_def readS_def by (auto split: sum.splits)
qed

lemma stays_map_err [simp]: "stays dry B X (map_errS h m) F = stays dry B X m F"
  by (simp add: stays_def)

lemma stays_ignore:
  assumes "stays dry B X m F" shows "stays dry B X (ignoreS m) (\<lambda>_. {})"
proof (rule staysI)
  fix Y assume "X \<subseteq> Y"
  from staysD [OF assms this]
  have "holds (sys_in dry B Y) m (\<lambda>_. sys_in dry B Y) (sys_in dry B Y)"
    by (rule holds_weaken) (erule sys_in_mono; blast)+
  then show "holds (sys_in dry B Y) (ignoreS m) (\<lambda>a. sys_in dry B ({} \<union> Y)) (sys_in dry B Y)"
    by (simp add: holds_ignore)
qed

section \<open>The calls of \<open>fsat\<close>\<close>

text \<open>What a system lists are names.\<close>

definition lists_names :: "('s, 'fd) os \<Rightarrow> bool" where
  "lists_names os \<longleftrightarrow> (\<forall>s d names n. sys_read_dir os s d = Inr names \<longrightarrow> n \<in> set names \<longrightarrow>
     n \<noteq> [] \<and> SEP \<notin> set n)"

lemma stays_calls:
  "plain_name n \<Longrightarrow> d \<in> X \<Longrightarrow> stays dry B X (open_dir (logged os) d n) (\<lambda>fd. {fd})"
  "plain_name n \<Longrightarrow> d \<in> X \<Longrightarrow> stays dry B X (open_file (logged os) d n) (\<lambda>fd. {fd})"
  "d \<in> X \<Longrightarrow> stays dry B X (sys_dup (logged os) d) (\<lambda>fd. {fd})"
  "\<not> dry \<Longrightarrow> plain_name n \<Longrightarrow> d \<in> X \<Longrightarrow> stays dry B X (fsat_create (logged os) d n t) (\<lambda>fd. {fd})"
  "\<not> dry \<Longrightarrow> plain_name n \<Longrightarrow> d \<in> X \<Longrightarrow> stays dry B X (make_dir (logged os) d n) (\<lambda>_. {})"
  "\<not> dry \<Longrightarrow> f \<in> X \<Longrightarrow> stays dry B X (sys_set_len (logged os) f k) (\<lambda>_. {})"
  "\<not> dry \<Longrightarrow> f \<in> X \<Longrightarrow> stays dry B X (sys_write_all_at (logged os) f b k) (\<lambda>_. {})"
  "\<not> dry \<Longrightarrow> f \<in> X \<Longrightarrow> stays dry B X (fsat_chmod (logged os) f m) (\<lambda>_. {})"
  "\<not> dry \<Longrightarrow> f \<in> X \<Longrightarrow> stays dry B X (sys_fchmod (logged os) f m) (\<lambda>_. {})"
  "\<not> dry \<Longrightarrow> f \<in> X \<Longrightarrow> stays dry B X (set_mtime (logged os) f time) (\<lambda>_. {})"
  "\<not> dry \<Longrightarrow> plain_name a \<Longrightarrow> plain_name b \<Longrightarrow> d \<in> X \<Longrightarrow> stays dry B X (fsat_rename (logged os) d a b) (\<lambda>_. {})"
  "\<not> dry \<Longrightarrow> plain_name n \<Longrightarrow> d \<in> X \<Longrightarrow> stays dry B X (fsat_symlink (logged os) t' d n) (\<lambda>_. {})"
  "\<not> dry \<Longrightarrow> plain_name n \<Longrightarrow> d \<in> X \<Longrightarrow> stays dry B X (sys_unlinkat (logged os) d n isdir) (\<lambda>_. {})"
  by (simp_all add: open_dir_def open_file_def fsat_create_def make_dir_def fsat_chmod_def set_mtime_def
      fsat_rename_def fsat_symlink_def logged_def stays_log gave_def)

lemma stays_reads:
  "stays dry B X (fsat_stat (logged os) d n) (\<lambda>_. {})"
  "stays dry B X (stat_of (logged os) d) (\<lambda>_. {})"
  "stays dry B X (read_link (logged os) d n) (\<lambda>_. {})"
  by (simp_all add: fsat_stat_def stat_of_def read_link_def stays_read)

lemma stays_names:
  assumes "lists_names os" and "\<And>names. (\<And>n. n \<in> set names \<Longrightarrow> plain_name n) \<Longrightarrow> stays dry B X (g names) G"
  shows "stays dry B X (bindS (fsat_names (logged os) d) g) G"
  unfolding fsat_names_def
proof (rule stays_bind_read)
  fix s a
  assume "bindE (sys_read_dir (logged os) s d) (\<lambda>names. Inr (filter (\<lambda>name. name \<noteq> [0x2e] \<and> name \<noteq> [0x2e, 0x2e]) names)) = Inr a"
  then show "stays dry B X (g a) G"
    using assms(1) by (intro assms(2)) (auto simp: bindE_Inr_iff logged_def lists_names_def plain_name_def; blast)
qed

lemma stays_sum_each:
  assumes "\<And>x. x \<in> set xs \<Longrightarrow> stays dry B X (f x) (\<lambda>_. {})"
  shows "stays dry B X (sum_each f xs n) (\<lambda>_. {})"
  using assms
proof (induction xs arbitrary: n)
  case Nil
  show ?case by (simp add: stays_return)
next
  case (Cons x xs)
  show ?case
    unfolding sum_each.simps
    by (rule stays_bind [where F = "\<lambda>_. {}"]) (use Cons in auto)
qed

lemma stays_remove_left:
  assumes "lists_names os" and "plain_name n" and "d \<in> X"
  shows "stays dry B X (remove_left (logged os) dry k d n) (\<lambda>_. {})"
  using assms(2, 3)
proof (induction k arbitrary: d n X)
  case 0
  have u: "stays dry B X (bindS (if dry then returnS () else sys_unlinkat (logged os) d n False) (\<lambda>_. returnS 1)) (\<lambda>_. {})"
    by (rule stays_bind [where F = "\<lambda>_. {}"]) (use 0 in \<open>auto simp: stays_return stays_calls\<close>)
  show ?case
    unfolding remove_left.simps
    by (rule stays_bind [OF stays_reads(1)])
       (auto simp: stays_return u simp del: One_nat_def split: option.split ekind.split split del: if_split)
next
  case (Suc k)
  have w: "stays dry B Y (if dry then returnS () else sys_unlinkat (logged os) d n b) (\<lambda>_. {})" if "d \<in> Y" for Y b
    using Suc.prems that by (auto simp: stays_return stays_calls)
  have u: "stays dry B X (bindS (if dry then returnS () else sys_unlinkat (logged os) d n False) (\<lambda>_. returnS 1)) (\<lambda>_. {})"
    by (rule stays_bind [OF w]) (use Suc.prems in \<open>auto simp: stays_return\<close>)
  have c: "stays dry B Y (if dry then returnS () else ignoreS (fsat_chmod (logged os) sub 0x1C0)) (\<lambda>_. {})" if "sub \<in> Y" for Y sub
    using that by (auto simp: stays_return stays_calls intro: stays_ignore [where F = "\<lambda>_. {}"])
  have dir: "stays dry B X
      (bindS (open_dir (logged os) d n) (\<lambda>sub.
           bindS (if dry then returnS () else ignoreS (fsat_chmod (logged os) sub 0x1C0)) (\<lambda>_.
           bindS (fsat_names (logged os) sub) (\<lambda>names.
           bindS (sum_each (remove_left (logged os) dry k sub) names 0) (\<lambda>removed.
           bindS (if dry then returnS () else sys_unlinkat (logged os) d n True) (\<lambda>_.
           returnS (sat_add64 removed 1))))))) (\<lambda>_. {})"
    by (intro stays_bind [OF stays_calls(1)] stays_bind [OF c] stays_names [OF assms(1)]
        stays_bind [OF stays_sum_each] stays_bind [OF w] Suc.IH stays_return)
      (use Suc.prems in auto)
  show ?case
    unfolding remove_left.simps
    by (rule stays_bind [OF stays_reads(1)])
       (auto simp: stays_return dir u simp del: One_nat_def split: option.split ekind.split split del: if_split)
qed

lemma stays_remove:
  "lists_names os \<Longrightarrow> plain_name n \<Longrightarrow> d \<in> X \<Longrightarrow> stays dry B X (fsat_remove (logged os) d n k dry) (\<lambda>_. {})"
  by (simp add: fsat_remove_def stays_remove_left)

section \<open>The receiver's part\<close>

lemma logging_simps [simp]:
  "en_os (logging env) = logged (en_os env)" "en_opts (logging env) = en_opts env"
  "en_item (logging env) = en_item env" "en_hash (logging env) = en_hash env"
  by (simp_all add: logging_def)

abbreviation dir_fds :: "'fd rdir \<Rightarrow> 'fd set" where
  "dir_fds d \<equiv> set_option (rd_fd d)"

definition rv_fds :: "('s, 'fd) receiver \<Rightarrow> 'fd set" where
  "rv_fds r = dir_fds (rv_top r) \<union> (\<Union>w\<in>set (rv_open r). dir_fds (od_dir w)) \<union>
     (\<Union>p\<in>set (rv_pending r). dir_fds (aw_dir (snd p))) \<union> (\<Union>d\<in>set (rv_closing r). dir_fds d)"

definition names_seen :: "'fd opened \<Rightarrow> nat" where
  "names_seen w = (case od_seen w of None \<Rightarrow> 0 | Some seen \<Rightarrow> length seen)"

text \<open>What is held between two items: bounded, and nothing to close in a dry run.\<close>

definition rv_ok :: "('s, 'fd) copy_env \<Rightarrow> ('s, 'fd) receiver \<Rightarrow> bool" where
  "rv_ok env r \<longleftrightarrow>
     (o_dry_run (en_opts env) \<longrightarrow> rv_closing r = []) \<and>
     (\<forall>n\<in>set_option (rv_named r). plain_name (name_bytes n)) \<and>
     (\<forall>p\<in>set (rv_pending r). plain_name (name_bytes (h_name (aw_header (snd p))))) \<and>
     length (rv_open r) \<le> MAX_DEPTH \<and> length (rv_pending r) \<le> WINDOW \<and> distinct (map fst (rv_pending r)) \<and>
     rv_seen r = sum_list (map names_seen (rv_open r)) \<and> rv_seen r \<le> MAX_SEEN"

definition rv_bounded :: "('s, 'fd) receiver \<Rightarrow> bool" where
  "rv_bounded r \<longleftrightarrow> length (rv_open r) \<le> MAX_DEPTH \<and> length (rv_pending r) \<le> WINDOW \<and>
     rv_seen r = sum_list (map names_seen (rv_open r)) \<and> rv_seen r \<le> Suc MAX_SEEN"

definition rv_in ::
    "('s, 'fd) copy_env \<Rightarrow> 'fd set \<Rightarrow> (nat \<Rightarrow> file_id list \<Rightarrow> bool) \<Rightarrow> 'fd set \<Rightarrow> ('s \<times> 'fd call list, 'fd) receiver \<Rightarrow> bool" where
  "rv_in env B K X r \<longleftrightarrow> rv_ok (logging env) r \<and> K (length (rv_open r)) (map fst (rv_pending r)) \<and>
     sys_in (o_dry_run (en_opts env)) B (X \<union> rv_fds r) (rv_os r)"

definition rv_end ::
    "('s, 'fd) copy_env \<Rightarrow> 'fd set \<Rightarrow> ('s \<times> 'fd call list, 'fd) receiver \<Rightarrow> bool" where
  "rv_end env B r \<longleftrightarrow> within (o_dry_run (en_opts env)) B (snd (rv_os r)) \<and> rv_bounded r"

lemma rv_in_mono: "rv_in env B K Y r \<Longrightarrow> X \<subseteq> Y \<Longrightarrow> rv_in env B K X r"
  by (auto simp: rv_in_def elim: sys_in_mono)

lemma rv_in_end: "rv_in env B K X r \<Longrightarrow> rv_end env B r"
  by (simp add: rv_in_def rv_end_def rv_ok_def rv_bounded_def sys_in_def)

text \<open>An operation that, given the descriptors in \<open>X\<close>, keeps the receiver so, and \<open>K\<close> of how many directories are open
  and which files are pending; its result adds the descriptors of \<open>F\<close> and has \<open>P\<close>.\<close>

definition goes :: "('s, 'fd) copy_env \<Rightarrow> 'fd set \<Rightarrow> (nat \<Rightarrow> file_id list \<Rightarrow> bool) \<Rightarrow> (nat \<Rightarrow> file_id list \<Rightarrow> bool) \<Rightarrow> 'fd set \<Rightarrow> ('s \<times> 'fd call list, 'fd, 'a) ract
    \<Rightarrow> ('a \<Rightarrow> 'fd set) \<Rightarrow> ('a \<Rightarrow> bool) \<Rightarrow> bool" where
  "goes env B K K' X m F P \<longleftrightarrow>
     (\<forall>Y. X \<subseteq> Y \<longrightarrow> holds (rv_in env B K Y) m (\<lambda>a r. rv_in env B K' (F a \<union> Y) r \<and> P a) (rv_end env B))"

abbreviation keeps :: "('s, 'fd) copy_env \<Rightarrow> 'fd set \<Rightarrow> (nat \<Rightarrow> file_id list \<Rightarrow> bool) \<Rightarrow> 'fd set \<Rightarrow> ('s \<times> 'fd call list, 'fd, 'a) ract \<Rightarrow> bool" where
  "keeps env B K X m \<equiv> goes env B K K X m (\<lambda>_. {}) (\<lambda>_. True)"

lemma goesI:
  "(\<And>Y. X \<subseteq> Y \<Longrightarrow> holds (rv_in env B K Y) m (\<lambda>a r. rv_in env B K' (F a \<union> Y) r \<and> P a) (rv_end env B)) \<Longrightarrow>
     goes env B K K' X m F P"
  by (simp add: goes_def)

lemma goesD:
  "goes env B K K' X m F P \<Longrightarrow> X \<subseteq> Y \<Longrightarrow>
     holds (rv_in env B K Y) m (\<lambda>a r. rv_in env B K' (F a \<union> Y) r \<and> P a) (rv_end env B)"
  by (simp add: goes_def)

lemma goes_bind:
  assumes "goes env B K K' X m F P" and "\<And>a. P a \<Longrightarrow> goes env B K' K'' (F a \<union> X) (f a) G Q"
  shows "goes env B K K'' X (bindS m f) G Q"
proof (rule goesI)
  fix Y assume XY: "X \<subseteq> Y"
  show "holds (rv_in env B K Y) (bindS m f) (\<lambda>a r. rv_in env B K'' (G a \<union> Y) r \<and> Q a) (rv_end env B)"
  proof (rule holds_bind [OF goesD [OF assms(1) XY]])
    fix a
    have s: "F a \<union> X \<subseteq> F a \<union> Y" using XY by blast
    have "holds (rv_in env B K' (F a \<union> Y)) (f a) (\<lambda>b r. rv_in env B K'' (G b \<union> Y) r \<and> Q b) (rv_end env B)" if "P a"
      using goesD [OF assms(2) [OF that] s] by (rule holds_weaken) (auto elim: rv_in_mono)
    then show "holds (\<lambda>r. rv_in env B K' (F a \<union> Y) r \<and> P a) (f a) (\<lambda>b r. rv_in env B K'' (G b \<union> Y) r \<and> Q b) (rv_end env B)"
      by (auto simp: holds_def)
  qed
qed

lemma goes_then:
  "goes env B K K' X m (\<lambda>_. {}) P \<Longrightarrow> (\<And>a. P a \<Longrightarrow> goes env B K' K'' X (f a) G Q) \<Longrightarrow>
     goes env B K K'' X (bindS m f) G Q"
  by (rule goes_bind [where F = "\<lambda>_. {}" and P = P]) auto

lemma goes_return: "F a \<subseteq> X \<Longrightarrow> P a \<Longrightarrow> goes env B K K X (returnS a) F P"
  by (rule goesI) (auto simp: holds_def returnS_def elim!: rv_in_mono)

lemma goes_fail [simp]: "goes env B K K' X (failS e) F P"
  by (rule goesI) (auto simp: holds_def failS_def elim: rv_in_end)

lemma goes_weaken:
  assumes "goes env B K K' X m F P" and "X \<subseteq> Y" and "\<And>a. P a \<Longrightarrow> G a \<subseteq> F a \<union> Y" and "\<And>a. P a \<Longrightarrow> Q a"
  shows "goes env B K K' Y m G Q"
proof (rule goesI)
  fix Z assume YZ: "Y \<subseteq> Z"
  have "X \<subseteq> Z" using assms(2) YZ by blast
  from goesD [OF assms(1) this]
  show "holds (rv_in env B K Z) m (\<lambda>a r. rv_in env B K' (G a \<union> Z) r \<and> Q a) (rv_end env B)"
  proof (rule holds_weaken)
    fix a s assume "rv_in env B K' (F a \<union> Z) s \<and> P a"
    then show "rv_in env B K' (G a \<union> Z) s \<and> Q a"
      using assms(3, 4) [of a] YZ by (auto elim!: rv_in_mono)
  qed
qed

lemma goes_on_os:
  assumes "stays (o_dry_run (en_opts env)) B X m F"
  shows "goes env B K K X (on_os rel m) F (\<lambda>_. True)"
proof (rule goesI)
  fix Y assume XY: "X \<subseteq> Y"
  have h: "holds (sys_in (o_dry_run (en_opts env)) B (Y \<union> Z)) m
      (\<lambda>a. sys_in (o_dry_run (en_opts env)) B (F a \<union> (Y \<union> Z))) (sys_in (o_dry_run (en_opts env)) B (Y \<union> Z))" for Z
    by (rule staysD [OF assms]) (use XY in blast)
  show "holds (rv_in env B K Y) (on_os rel m) (\<lambda>a r. rv_in env B K (F a \<union> Y) r \<and> True) (rv_end env B)"
    unfolding holds_def
  proof (intro allI impI)
    fix r
    assume r: "rv_in env B K Y r"
    obtain s x where m: "m (rv_os r) = (s, x)" by fastforce
    have i: "sys_in (o_dry_run (en_opts env)) B (Y \<union> rv_fds r) (rv_os r)" and ok: "rv_ok (logging env) r"
      and K: "K (length (rv_open r)) (map fst (rv_pending r))"
      using r by (simp_all add: rv_in_def)
    have k: "rv_ok (logging env) (r\<lparr>rv_os := s\<rparr>)" "rv_fds (r\<lparr>rv_os := s\<rparr>) = rv_fds r"
        "rv_bounded (r\<lparr>rv_os := s\<rparr>)"
      using ok by (simp_all add: rv_ok_def rv_fds_def rv_bounded_def)
    show "case on_os rel m r of (s', r) \<Rightarrow>
        (case r of Inl x \<Rightarrow> rv_end env B s' | Inr a \<Rightarrow> rv_in env B K (F a \<union> Y) s' \<and> True)"
    proof (cases x)
      case (Inl e)
      then have "sys_in (o_dry_run (en_opts env)) B (Y \<union> rv_fds r) s"
        using holdsD_fail [OF h i] m by simp
      then show ?thesis using Inl k by (simp add: on_os_def m rv_end_def sys_in_def)
    next
      case (Inr a)
      then have "sys_in (o_dry_run (en_opts env)) B (F a \<union> (Y \<union> rv_fds r)) s"
        using holdsD [OF h i] m by simp
      then show ?thesis using Inr k K by (simp add: on_os_def m rv_in_def Un_assoc)
    qed
  qed
qed

lemma goes_change:
  assumes "\<And>Y r. X \<subseteq> Y \<Longrightarrow> rv_in env B K Y r \<Longrightarrow> rv_in env B K Y (f r)"
  shows "keeps env B K X (changeR f)"
  by (rule goesI) (auto simp: holds_def changeR_def assms)

lemma goes_summed [simp]: "keeps env B K X (summed f)"
  unfolding summed_def by (rule goes_change) (simp add: rv_in_def rv_ok_def rv_fds_def)

lemma goes_answer [simp]: "keeps env B K X (rv_answer a)"
  unfolding rv_answer_def by (rule goes_change) (simp add: rv_in_def rv_ok_def rv_fds_def)

lemma goes_read_exact: "goes env B K K X (read_exact n) (\<lambda>_. {}) (\<lambda>b. length b = n)"
proof (rule goesI)
  fix Y
  have "rv_in env B K Y (r\<lparr>rv_input := i\<rparr>) = rv_in env B K Y r" for r i
    by (simp add: rv_in_def rv_ok_def rv_fds_def)
  then show "holds (rv_in env B K Y) (read_exact n) (\<lambda>a r. rv_in env B K ({} \<union> Y) r \<and> length a = n) (rv_end env B)"
    by (auto simp: holds_def read_exact_def intro: rv_in_end [where X = Y])
qed

section \<open>The operations\<close>

text \<open>What an item's names are, as \<open>Name::new\<close> lets them be read.\<close>

fun item_names :: "item \<Rightarrow> fname list" where
  "item_names (Dir n _ _) = [n]"
| "item_names (File h) = [h_name h]"
| "item_names (Symlink n _) = [n]"
| "item_names (Skipped n) = [n]"
| "item_names _ = []"

definition decodes_names :: "(byte list \<Rightarrow> item option) \<Rightarrow> bool" where
  "decodes_names from_bytes \<longleftrightarrow>
     (\<forall>b it n. from_bytes b = Some it \<longrightarrow> n \<in> set (item_names it) \<longrightarrow> name_new (name_bytes n) = Inr n)"

lemma name_new_plain: "name_new b = Inr n \<Longrightarrow> plain_name (name_bytes n)"
  by (auto simp: name_new_Inr plain_name_def)

definition plain_item :: "item \<Rightarrow> bool" where
  "plain_item it \<longleftrightarrow> (\<forall>n\<in>set (item_names it). plain_name (name_bytes n))"

lemma hex_digit_not_sep:
  assumes "b < 16" shows "hex_digit b \<noteq> SEP"
proof
  assume h: "hex_digit b = SEP"
  show False
  proof (cases "b < 10")
    case True
    then have "b + 0x30 = 0x2f" using h by (simp add: hex_digit_def add.commute)
    then have "b = 0x2f - 0x30" unfolding eq_diff_eq .
    then show False using True by simp
  next
    case False
    then have "b + 0x57 = 0x2f" using h by (simp add: hex_digit_def add.commute)
    then have "b = 0x2f - 0x57" unfolding eq_diff_eq .
    then show False using assms by simp
  qed
qed

lemma plain_part [simp]: "plain_name (name_bytes (part_name env n))"
proof -
  have "b div 16 < 16" "b mod 16 < 16" for b :: byte
    using unsigned_less [of b, where 'a = nat] by (simp_all add: word_less_nat_alt unat_div unat_mod)
  then have "hex_digit (b div 16) \<noteq> SEP" "hex_digit (b mod 16) \<noteq> SEP" for b :: byte
    by (simp_all add: hex_digit_not_sep)
  then show ?thesis
    by (simp add: part_name_def Let_def plain_name_def ascii_def)
qed

lemma goes_next_item:
  assumes "decodes_names (en_item env)"
  shows "goes env B K K X (next_item (logging env)) (\<lambda>_. {}) plain_item"
proof -
  have "plain_item it" if "en_item env b = Some it" for b it
    using assms that unfolding decodes_names_def plain_item_def by (blast intro: name_new_plain)
  then show ?thesis
    unfolding next_item_def
    by (intro goes_bind [OF goes_read_exact])
       (auto intro!: goes_bind [OF goes_read_exact] goes_return split: sum.split option.split)
qed

lemma goes_saw [simp]: "keeps env B K X (saw name)"
proof (rule goesI)
  fix Y
  show "holds (rv_in env B K Y) (saw name) (\<lambda>a r. rv_in env B K ({} \<union> Y) r \<and> True) (rv_end env B)"
    unfolding holds_def
  proof (intro allI impI)
    fix r assume r: "rv_in env B K Y r"
    show "case saw name r of (s', r) \<Rightarrow>
        (case r of Inl x \<Rightarrow> rv_end env B s' | Inr a \<Rightarrow> rv_in env B K ({} \<union> Y) s' \<and> True)"
    proof (cases "\<exists>w ws seen. rv_open r = w # ws \<and> od_seen w = Some seen \<and> name \<notin> set seen")
      case False
      then have "saw name r = (r, Inr ())"
        by (auto simp: saw_def split: list.split option.split)
      then show ?thesis using r by simp
    next
      case True
      then obtain w ws seen where w: "rv_open r = w # ws" "od_seen w = Some seen" "name \<notin> set seen"
        by blast
      let ?r = "r\<lparr>rv_open := w\<lparr>od_seen := Some (name # seen)\<rparr> # ws, rv_seen := Suc (rv_seen r)\<rparr>"
      have "rv_seen r \<le> MAX_SEEN" using r by (simp add: rv_in_def rv_ok_def)
      then have s: "sat_add64 (rv_seen r) (Suc 0) = Suc (rv_seen r)"
        by (simp add: sat_add_def MAX_SEEN_def u64_max_def)
      have e: "saw name r = (if MAX_SEEN < Suc (rv_seen r) then (?r, Inl (failure_new F_TooMany [])) else (?r, Inr ()))"
        using w by (simp add: saw_def s Let_def)
      have "rv_fds ?r = rv_fds r" by (simp add: rv_fds_def w)
      then show ?thesis
        using r w by (auto simp: e rv_in_def rv_end_def rv_ok_def rv_bounded_def names_seen_def sys_in_def)
    qed
  qed
qed

lemma goes_rdir_stat: "dir_fds d \<subseteq> X \<Longrightarrow> keeps env B K X (rdir_stat (logging env) rel d n)"
  unfolding rdir_stat_def
  by (auto intro: goes_return goes_on_os stays_reads split: option.split)

lemma goes_place:
  assumes "plain_name (name_bytes n)"
  shows "goes env B K K X (rv_place n) (\<lambda>(d, _). dir_fds d) (\<lambda>(_, n). plain_name (name_bytes n))"
proof (rule goesI)
  fix Y
  have p [simp]: "rv_in env B K Z (r\<lparr>rv_placed := k\<rparr>) = rv_in env B K Z r"
      "rv_end env B (r\<lparr>rv_placed := k\<rparr>) = rv_end env B r" for Z r k
    by (simp_all add: rv_in_def rv_end_def rv_ok_def rv_fds_def rv_bounded_def)
  have t: "rv_in env B K (dir_fds (rv_top r) \<union> Y) r" if "rv_in env B K Y r" for r
    using that by (auto simp: rv_in_def sys_in_def rv_fds_def)
  have w: "rv_in env B K (dir_fds (od_dir w) \<union> Y) r" if "rv_in env B K Y r" "rv_open r = w # ws" for r w ws
    using that by (auto simp: rv_in_def sys_in_def rv_fds_def)
  have m: "plain_name (name_bytes m)" if "rv_in env B K Y r" "rv_named r = Some m" for r m
    using that by (simp add: rv_in_def rv_ok_def)
  show "holds (rv_in env B K Y) (rv_place n)
      (\<lambda>a r. rv_in env B K ((case a of (d, _) \<Rightarrow> dir_fds d) \<union> Y) r \<and> (case a of (_, n) \<Rightarrow> plain_name (name_bytes n)))
      (rv_end env B)"
    unfolding holds_def
  proof (intro allI impI)
    fix r assume r: "rv_in env B K Y r"
    then show "case rv_place n r of (s', r) \<Rightarrow>
        (case r of Inl x \<Rightarrow> rv_end env B s'
         | Inr a \<Rightarrow> rv_in env B K ((case a of (d, _) \<Rightarrow> dir_fds d) \<union> Y) s' \<and>
             (case a of (_, n) \<Rightarrow> plain_name (name_bytes n)))"
      using assms rv_in_end [OF r] t [OF r] w [OF r] m [OF r]
      by (cases "rv_open r"; cases "rv_named r") (simp_all add: rv_place_def Let_def)
  qed
qed

lemma goes_if:
  "(b \<Longrightarrow> goes env B K K' X m F P) \<Longrightarrow> (\<not> b \<Longrightarrow> goes env B K K' X m' F P) \<Longrightarrow>
     goes env B K K' X (if b then m else m') F P"
  by simp

lemma goes_pre:
  assumes "goes env B K K' X m F P" and "\<And>n ids. K0 n ids \<Longrightarrow> K n ids"
  shows "goes env B K0 K' X m F P"
proof (rule goesI)
  fix Y assume XY: "X \<subseteq> Y"
  show "holds (rv_in env B K0 Y) m (\<lambda>a r. rv_in env B K' (F a \<union> Y) r \<and> P a) (rv_end env B)"
    by (rule holds_weaken [OF goesD [OF assms(1) XY]]) (use assms(2) in \<open>auto simp: rv_in_def\<close>)
qed

lemma goes_unless: "(\<not> b \<Longrightarrow> keeps env B K X m) \<Longrightarrow> keeps env B K X (if b then returnS () else m)"
  by (auto intro: goes_return)

lemma goes_when: "(b \<Longrightarrow> keeps env B K X m) \<Longrightarrow> keeps env B K X (if b then m else returnS ())"
  by (auto intro: goes_return)

lemma goes_remove:
  assumes "lists_names (en_os env)" and "plain_name n" and "d \<in> X"
  shows "keeps env B K X (rv_remove (logging env) d n rel)"
  unfolding rv_remove_def Let_def logging_simps
  by (intro goes_bind [OF goes_on_os [OF stays_remove]] goes_bind [OF goes_summed] goes_when goes_summed)
     (use assms in auto)

lemma goes_guard:
  assumes "\<And>r. c r \<longleftrightarrow> L (length (rv_open r)) (map fst (rv_pending r))"
    and "\<And>n p. K n p \<Longrightarrow> \<not> L n p \<Longrightarrow> K' n p"
  shows "goes env B K K' X (\<lambda>r. if c r then (r, Inl e) else (r, Inr ())) (\<lambda>_. {}) (\<lambda>_. True)"
proof (rule goesI)
  fix Y
  have "rv_in env B K' Y r" if "rv_in env B K Y r" "\<not> c r" for r
    using that assms by (simp add: rv_in_def)
  then show "holds (rv_in env B K Y) (\<lambda>r. if c r then (r, Inl e) else (r, Inr ()))
      (\<lambda>a r. rv_in env B K' ({} \<union> Y) r \<and> True) (rv_end env B)"
    by (auto simp: holds_def intro: rv_in_end)
qed

text \<open>One more directory opened, where there is room.\<close>

lemma goes_open_dir:
  assumes "set_option fd \<subseteq> X"
  shows "goes env B (\<lambda>n _. n < MAX_DEPTH) (\<lambda>_ _. True) X (rv_open_dir (logging env) fd rel mode mtime parent)
    (\<lambda>_. {}) (\<lambda>_. True)"
proof (rule goesI)
  fix Y assume XY: "X \<subseteq> Y"
  let ?o = "rv_open_dir (logging env) fd rel mode mtime parent"
  have "rv_in env B (\<lambda>_ _. True) Y (fst (?o r))" if r: "rv_in env B (\<lambda>n _. n < MAX_DEPTH) Y r" for r
  proof -
    have "rv_fds (fst (?o r)) = set_option fd \<union> rv_fds r"
      by (simp add: rv_open_dir_def changeR_def rv_fds_def Un_ac)
    moreover have "rv_ok (logging env) (fst (?o r))" "rv_os (fst (?o r)) = rv_os r"
      using r by (auto simp: rv_open_dir_def changeR_def rv_in_def rv_ok_def names_seen_def)
    ultimately show ?thesis
      using r assms XY by (auto simp: rv_in_def elim!: sys_in_mono)
  qed
  then show "holds (rv_in env B (\<lambda>n _. n < MAX_DEPTH) Y) ?o
      (\<lambda>a r. rv_in env B (\<lambda>_ _. True) ({} \<union> Y) r \<and> True) (rv_end env B)"
    by (simp add: holds_def rv_open_dir_def changeR_def)
qed

lemma goes_enter_made:
  assumes "lists_names (en_os env)" and "plain_name (name_bytes n)" and "dir_fds d \<subseteq> X"
  shows "keeps env B K X (enter_made (logging env) d n rel kind)"
proof -
  have "keeps env B K X (bindS (rv_remove (logging env) fd (name_bytes n) rel) (\<lambda>_. returnS True))" if "rd_fd d = Some fd" for fd
    by (rule goes_bind [OF goes_remove [OF assms(1, 2)]]) (use assms(3) that in \<open>auto intro: goes_return\<close>)
  then show ?thesis
    unfolding enter_made_def
    by (auto intro: goes_return split: option.split ekind.split)
qed

lemma goes_enter_fd:
  assumes "plain_name (name_bytes n)" and "dir_fds d \<subseteq> X"
  shows "goes env B K K X (enter_fd (logging env) d n rel made) set_option (\<lambda>_. True)"
proof (cases "rd_fd d")
  case None
  then show ?thesis by (simp add: enter_fd_def goes_return)
next
  case (Some fd)
  have m: "keeps env B K X (on_os rel (make_dir (logged (en_os env)) fd (name_bytes n)))"
    if "\<not> o_dry_run (en_opts env)"
    by (rule goes_on_os, rule stays_calls) (use that assms Some in auto)
  have o: "goes env B K K X (bindS (on_os rel (open_dir (logged (en_os env)) fd (name_bytes n))) (\<lambda>fd. returnS (Some fd)))
      set_option (\<lambda>_. True)"
    by (intro goes_bind [OF goes_on_os [OF stays_calls(1)]] goes_return) (use assms Some in auto)
  show ?thesis
    using Some o by (auto simp: enter_fd_def intro!: goes_bind [OF m] goes_return)
qed

lemma goes_enter:
  assumes "lists_names (en_os env)" and "plain_name (name_bytes n)" and "dir_fds d \<subseteq> X"
  shows "keeps env B (\<lambda>_ _. True) X (enter (logging env) d n mode mtime)"
  unfolding enter_def Let_def logging_simps
  by (intro goes_bind [OF goes_guard [where K' = "\<lambda>n _. n < MAX_DEPTH"]] goes_bind [OF goes_saw]
      goes_bind [OF goes_rdir_stat] goes_bind [OF goes_enter_made] goes_bind [OF goes_enter_fd]
      goes_bind [OF goes_when] goes_bind [OF goes_summed] goes_when goes_summed goes_open_dir)
    (use assms in auto)

lemma goes_names:
  assumes "lists_names (en_os env)"
  shows "goes env B K K X (on_os rel (fsat_names (logged (en_os env)) d)) (\<lambda>_. {}) (\<lambda>names. \<forall>n\<in>set names. plain_name n)"
proof (rule goesI)
  fix Y assume "X \<subseteq> Y"
  have "keeps env B K X (on_os rel (fsat_names (logged (en_os env)) d))"
    by (rule goes_on_os) (simp add: fsat_names_def stays_read)
  from goesD [OF this \<open>X \<subseteq> Y\<close>]
  have h: "holds (rv_in env B K Y) (on_os rel (fsat_names (logged (en_os env)) d)) (\<lambda>a r. rv_in env B K ({} \<union> Y) r \<and> True) (rv_end env B)" .
  have "plain_name n" if on: "on_os rel (fsat_names (logged (en_os env)) d) r = (r', Inr names)" and n: "n \<in> set names"
    for r r' and names :: "byte list list" and n
  proof -
    obtain all where "sys_read_dir (en_os env) (fst (rv_os r)) d = Inr all"
        "names = filter (\<lambda>name. name \<noteq> [0x2e] \<and> name \<noteq> [0x2e, 0x2e]) all"
      using on
      by (cases "sys_read_dir (en_os env) (fst (rv_os r)) d")
         (auto simp: on_os_def fsat_names_def readS_def logged_def)
    then show ?thesis
      using assms n by (auto simp: lists_names_def plain_name_def)
  qed
  then show "holds (rv_in env B K Y) (on_os rel (fsat_names (logged (en_os env)) d))
      (\<lambda>a r. rv_in env B K ({} \<union> Y) r \<and> (\<forall>n\<in>set a. plain_name n)) (rv_end env B)"
    using h unfolding holds_def by (fastforce split: sum.splits)
qed

lemma goes_delete_each:
  assumes "lists_names (en_os env)" and "\<forall>n\<in>set names. plain_name n" and "fd \<in> X"
  shows "keeps env B K X (delete_each (logging env) tree d fd seen names)"
  using assms(2)
proof (induction names)
  case Nil
  show ?case by (simp add: goes_return)
next
  case (Cons n names)
  show ?case
    unfolding delete_each.simps
    by (intro goes_bind [OF goes_when] goes_remove) (use Cons assms in auto)
qed

lemma set_swap_remove: "n < length xs \<Longrightarrow> set (swap_remove n xs) \<subseteq> set xs"
  by (cases xs rule: rev_cases) (auto simp: swap_remove_def dest!: in_set_butlastD set_update_subset_insert [THEN subsetD])

lemma goes_close_dir:
  assumes "\<not> o_dry_run (en_opts env)" and "dir_fds d \<subseteq> X"
  shows "keeps env B K X (close_dir (logging env) d)"
proof (cases "rd_fd d")
  case None
  then show ?thesis by (simp add: close_dir_def goes_return)
next
  case (Some fd)
  have t: "keeps env B K X (case rd_mtime d of None \<Rightarrow> returnS ()
      | Some t \<Rightarrow> on_os (rd_rel d) (set_mtime (logged (en_os env)) fd t))"
    using Some assms by (auto intro: goes_return goes_on_os stays_calls split: option.split)
  have m: "keeps env B K X (case rd_mode d of None \<Rightarrow> returnS ()
      | Some m \<Rightarrow> on_os (rd_rel d) (fsat_chmod (logged (en_os env)) fd (mode_landed m)))"
    using Some assms by (auto intro: goes_return goes_on_os stays_calls split: option.split)
  show ?thesis
    unfolding close_dir_def Some option.case logging_simps by (rule goes_bind [OF m]) (use t in simp)
qed

lemma goes_close_one: "keeps env B K X (close_one (logging env))"
proof (rule goesI)
  fix Y
  show "holds (rv_in env B K Y) (close_one (logging env)) (\<lambda>a r. rv_in env B K ({} \<union> Y) r \<and> True) (rv_end env B)"
    unfolding holds_def
  proof (intro allI impI)
    fix r assume r: "rv_in env B K Y r"
    show "case close_one (logging env) r of (s', r) \<Rightarrow>
        (case r of Inl x \<Rightarrow> rv_end env B s' | Inr a \<Rightarrow> rv_in env B K ({} \<union> Y) s' \<and> True)"
    proof (cases "position (\<lambda>d. rd_key d \<notin> set (held_keys r)) (rv_closing r)")
      case None
      then show ?thesis using r by (simp add: close_one_def)
    next
      case (Some n)
      then have n: "n < length (rv_closing r)" by (auto dest: position_SomeD)
      then have dry: "\<not> o_dry_run (en_opts env)"
        using r by (auto simp: rv_in_def rv_ok_def)
      let ?d = "rv_closing r ! n"
      let ?r = "r\<lparr>rv_closing := swap_remove n (rv_closing r)\<rparr>"
      have f: "dir_fds ?d \<union> rv_fds ?r \<subseteq> rv_fds r"
        using n set_swap_remove [OF n] by (auto simp: rv_fds_def)
      have ok: "rv_in env B K (dir_fds ?d \<union> Y) ?r"
        using r dry f by (auto simp: rv_in_def rv_ok_def elim!: sys_in_mono)
      have "keeps env B K (dir_fds ?d) (bindS (close_dir (logging env) ?d) (\<lambda>_. returnS True))"
        by (intro goes_bind [OF goes_close_dir] goes_return dry) auto
      from goesD [OF this, of "dir_fds ?d \<union> Y"]
      have h: "holds (rv_in env B K (dir_fds ?d \<union> Y)) (bindS (close_dir (logging env) ?d) (\<lambda>_. returnS True))
          (\<lambda>_. rv_in env B K Y) (rv_end env B)"
        by (rule holds_weaken) (auto elim: rv_in_mono)
      show ?thesis
        using holds_at [OF h ok] by (simp only: close_one_def Some option.case Un_empty_left simp_thms)
    qed
  qed
qed

lemma goes_close_rounds: "keeps env B K X (close_rounds (logging env) n)"
  by (induction n) (auto intro!: goes_bind [OF goes_close_one] goes_when goes_return)

lemma goes_at:
  "(\<And>r. goes env B K K' X (m r) F P) \<Longrightarrow> goes env B K K' X (\<lambda>r. m r r) F P"
proof (rule goesI)
  fix Y assume a: "\<And>r. goes env B K K' X (m r) F P" and XY: "X \<subseteq> Y"
  show "holds (rv_in env B K Y) (\<lambda>r. m r r) (\<lambda>a r. rv_in env B K' (F a \<union> Y) r \<and> P a) (rv_end env B)"
    unfolding holds_def
  proof (intro allI impI)
    fix s assume "rv_in env B K Y s"
    then show "case m s s of (s', r) \<Rightarrow>
        (case r of Inl x \<Rightarrow> rv_end env B s' | Inr a \<Rightarrow> rv_in env B K' (F a \<union> Y) s' \<and> P a)"
      by (rule holds_at [OF goesD [OF a XY]])
  qed
qed

lemma goes_close_ready [simp]: "keeps env B K X (close_ready (logging env))"
  unfolding close_ready_def by (rule goes_at) (rule goes_close_rounds)

lemma goes_leave:
  assumes "lists_names (en_os env)"
  shows "keeps env B (\<lambda>_ _. True) X (leave (logging env))"
proof (rule goesI)
  fix Y
  let ?K = "\<lambda>_ _. True"
  show "holds (rv_in env B ?K Y) (leave (logging env)) (\<lambda>a r. rv_in env B ?K ({} \<union> Y) r \<and> True) (rv_end env B)"
    unfolding holds_def
  proof (intro allI impI)
    fix r assume r: "rv_in env B ?K Y r"
    show "case leave (logging env) r of (s', r) \<Rightarrow>
        (case r of Inl x \<Rightarrow> rv_end env B s' | Inr a \<Rightarrow> rv_in env B ?K ({} \<union> Y) s' \<and> True)"
    proof (cases "rv_open r")
      case Nil
      then show ?thesis using rv_in_end [OF r] by (simp add: leave_def)
    next
      case (Cons w ws)
      let ?d = "od_dir w"
      define rest where "rest = (\<lambda>_ :: unit. bindS (if o_dry_run (en_opts env) then returnS ()
                      else changeR (\<lambda>r. r\<lparr>rv_closing := rv_closing r @ [?d]\<rparr>)) (\<lambda>_. close_ready (logging env)))"
      define swept where "swept = (case od_seen w of None \<Rightarrow> returnS ()
            | Some seen \<Rightarrow>
                (case rd_fd ?d of
                  None \<Rightarrow> returnS ()
                | Some fd \<Rightarrow>
                    bindS (on_os (rd_rel ?d) (fsat_names (logged (en_os env)) fd))
                      (delete_each (logging env) (rv_tree r) ?d fd seen)))"
      let ?r = "r\<lparr>rv_open := ws, rv_seen := rv_seen r - names_seen w\<rparr>"
      have e: "leave (logging env) r = bindS swept rest ?r"
        by (simp add: leave_def Cons rest_def swept_def names_seen_def bindS_def changeR_def returnS_def split: option.split)
      have f: "dir_fds ?d \<union> rv_fds ?r \<subseteq> rv_fds r"
        by (auto simp: rv_fds_def Cons)
      have ok: "rv_in env B ?K (dir_fds ?d \<union> Y) ?r"
        using r f by (auto simp: rv_in_def rv_ok_def Cons elim!: sys_in_mono)
      have c: "keeps env B ?K (dir_fds ?d) (changeR (\<lambda>r. r\<lparr>rv_closing := rv_closing r @ [?d]\<rparr>))"
        if "\<not> o_dry_run (en_opts env)"
      proof (rule goes_change)
        fix Z q assume "dir_fds ?d \<subseteq> Z" "rv_in env B ?K Z q"
        moreover have "rv_fds (q\<lparr>rv_closing := rv_closing q @ [?d]\<rparr>) = dir_fds ?d \<union> rv_fds q"
          by (auto simp: rv_fds_def)
        ultimately show "rv_in env B ?K Z (q\<lparr>rv_closing := rv_closing q @ [?d]\<rparr>)"
          using that by (auto simp: rv_in_def rv_ok_def elim!: sys_in_mono)
      qed
      have x: "keeps env B ?K (dir_fds ?d) (rest u)" for u
        unfolding rest_def
        by (intro goes_bind [OF goes_unless] c) auto
      have s: "keeps env B ?K (dir_fds ?d) swept"
        unfolding swept_def
        by (auto intro!: goes_return goes_bind [OF goes_names] goes_delete_each assms split: option.split)
      have "keeps env B ?K (dir_fds ?d) (bindS swept rest)"
        by (rule goes_bind [OF s]) (use x in simp)
      from goesD [OF this, of "dir_fds ?d \<union> Y"]
      have h: "holds (rv_in env B ?K (dir_fds ?d \<union> Y)) (bindS swept rest) (\<lambda>_. rv_in env B ?K Y) (rv_end env B)"
        by (rule holds_weaken) (auto elim: rv_in_mono)
      show ?thesis
        unfolding e using holds_at [OF h ok] by (simp only: Un_empty_left simp_thms)
    qed
  qed
qed

lemma goes_want_part:
  assumes "dir_fds d \<subseteq> X"
  shows "keeps env B K X (want_part (logging env) d h rel)"
proof -
  have r: "keeps env B K X
      (bindS (on_os rel (open_file (logged (en_os env)) fd (name_bytes (part_name (logging env) (h_name h))))) (\<lambda>file.
       bindS (on_os rel (readS (\<lambda>s. sys_hash (logged (en_os env)) s file n))) (\<lambda>prefix. returnS (a prefix))))"
    if "rd_fd d = Some fd" for fd n and a :: "hash \<Rightarrow> copy_answer"
    by (intro goes_bind [OF goes_on_os [OF stays_calls(2)]] goes_bind [OF goes_on_os [OF stays_read]] goes_return)
       (use assms that in auto)
  show ?thesis
    unfolding want_part_def Let_def logging_simps
    by (intro goes_bind [OF goes_saw] goes_bind [OF goes_rdir_stat])
       (use assms r in \<open>auto intro: goes_return split: option.split\<close>)
qed

lemma goes_file_answer:
  assumes "dir_fds d \<subseteq> X" and "plain_name (name_bytes (h_name h))"
  shows "keeps env B K X (file_answer (logging env) d h rel there)"
proof -
  have r: "keeps env B K X
      (bindS (on_os rel (open_file (logged (en_os env)) fd (name_bytes (h_name h)))) (\<lambda>file.
       bindS (on_os rel (readS (\<lambda>s. sys_hash (logged (en_os env)) s file n))) (\<lambda>prefix. returnS (a prefix))))"
    if "rd_fd d = Some fd" for fd n and a :: "hash \<Rightarrow> copy_answer"
    by (intro goes_bind [OF goes_on_os [OF stays_calls(2)]] goes_bind [OF goes_on_os [OF stays_read]] goes_return)
       (use assms that in auto)
  show ?thesis
    unfolding file_answer_def
    using goes_want_part [OF assms(1)] r by (auto split: option.split)
qed

lemma goes_pending:
  assumes "dir_fds (aw_dir p) \<subseteq> X" and "plain_name (name_bytes (h_name (aw_header p)))"
  shows "goes env B (\<lambda>_ ids. length ids < WINDOW \<and> i \<notin> set ids) (\<lambda>_ _. True) X
    (changeR (\<lambda>r. r\<lparr>rv_pending := (i, p) # rv_pending r\<rparr>)) (\<lambda>_. {}) (\<lambda>_. True)"
proof (rule goesI)
  fix Y assume XY: "X \<subseteq> Y"
  let ?K = "\<lambda>_ ids. length ids < WINDOW \<and> i \<notin> set ids"
  have "rv_in env B (\<lambda>_ _. True) Y (r\<lparr>rv_pending := (i, p) # rv_pending r\<rparr>)" if r: "rv_in env B ?K Y r" for r
  proof -
    have "rv_fds (r\<lparr>rv_pending := (i, p) # rv_pending r\<rparr>) = dir_fds (aw_dir p) \<union> rv_fds r"
      by (auto simp: rv_fds_def)
    then show ?thesis
      using r assms XY by (auto simp: rv_in_def rv_ok_def elim!: sys_in_mono)
  qed
  then show "holds (rv_in env B ?K Y) (changeR (\<lambda>r. r\<lparr>rv_pending := (i, p) # rv_pending r\<rparr>))
      (\<lambda>a r. rv_in env B (\<lambda>_ _. True) ({} \<union> Y) r \<and> True) (rv_end env B)"
    by (simp add: holds_def changeR_def)
qed

lemma goes_file:
  assumes "dir_fds d \<subseteq> X" and "plain_name (name_bytes (h_name h))"
  shows "keeps env B (\<lambda>_ _. True) X (rv_file (logging env) d h)"
  unfolding rv_file_def Let_def logging_simps
  by (intro goes_bind [OF goes_guard [where L = "\<lambda>_ ids. WINDOW \<le> length ids \<or> h_id h \<in> set ids"
            and K' = "\<lambda>_ ids. length ids < WINDOW \<and> h_id h \<notin> set ids"]]
      goes_bind [OF goes_saw] goes_bind [OF goes_rdir_stat] goes_bind [OF goes_file_answer]
      goes_bind [OF goes_pending] goes_answer)
     (use assms in \<open>auto simp: map_of_eq_None_iff\<close>)

lemma goes_take_pending:
  "goes env B (\<lambda>_ _. True) (\<lambda>_ _. True) X (take_pending i) (\<lambda>p. dir_fds (aw_dir p))
     (\<lambda>p. plain_name (name_bytes (h_name (aw_header p))))"
proof (rule goesI)
  fix Y
  let ?K = "\<lambda>_ _. True"
  have "rv_in env B ?K (dir_fds (aw_dir p) \<union> Y) (r\<lparr>rv_pending := filter (\<lambda>(j, _). j \<noteq> i) (rv_pending r)\<rparr>) \<and>
      plain_name (name_bytes (h_name (aw_header p)))"
    if r: "rv_in env B ?K Y r" and p: "map_of (rv_pending r) i = Some p" for r p
  proof -
    have m: "(i, p) \<in> set (rv_pending r)" using p by (rule map_of_SomeD)
    have f: "dir_fds (aw_dir p) \<union> rv_fds (r\<lparr>rv_pending := filter (\<lambda>(j, _). j \<noteq> i) (rv_pending r)\<rparr>) \<subseteq> rv_fds r"
      using m by (auto simp: rv_fds_def)
    have d: "distinct (map fst (filter (\<lambda>(j, _). j \<noteq> i) (rv_pending r)))"
      using r by (simp add: rv_in_def rv_ok_def distinct_map_filter)
    have l: "length (filter (\<lambda>(j, _). j \<noteq> i) (rv_pending r)) \<le> WINDOW"
      using r le_trans [OF length_filter_le] by (auto simp: rv_in_def rv_ok_def)
    show ?thesis
      using r m f d l by (auto simp: rv_in_def rv_ok_def elim!: sys_in_mono)
  qed
  then show "holds (rv_in env B ?K Y) (take_pending i)
      (\<lambda>a r. rv_in env B ?K (dir_fds (aw_dir a) \<union> Y) r \<and> plain_name (name_bytes (h_name (aw_header a)))) (rv_end env B)"
    using rv_in_end [of env B ?K Y] by (auto simp: holds_def take_pending_def split: option.split)
qed

lemma goes_chunk:
  assumes "decodes_names (en_item env)"
  shows "keeps env B K X (rv_chunk (logging env))"
  unfolding rv_chunk_def
  by (intro goes_bind [OF goes_next_item [OF assms]])
     (auto intro!: goes_return goes_bind [OF goes_read_exact] goes_bind [OF goes_summed] split: item.split)

lemma goes_write_chunks:
  assumes "decodes_names (en_item env)" and "\<not> o_dry_run (en_opts env)" and "f \<in> X"
  shows "keeps env B K X (write_chunks (logging env) n rel f at)"
proof (induction n arbitrary: at)
  case (Suc n)
  have w: "keeps env B K X (on_os rel (sys_write_all_at (logged (en_os env)) f d k))" for d k
    by (rule goes_on_os, rule stays_calls) (use assms in auto)
  show ?case
    unfolding write_chunks.simps logging_simps
    by (rule goes_bind [OF goes_chunk [OF assms(1)]])
       (auto intro!: goes_return goes_bind [OF w] Suc split: option.split)
qed simp

lemma goes_written [simp]: "keeps env B K X (rv_written env' p k)"
  by (simp add: rv_written_def)

lemma goes_time:
  assumes "\<not> o_dry_run (en_opts env)" and "f \<in> X"
  shows "keeps env B K X (case t of None \<Rightarrow> returnS ()
    | Some time \<Rightarrow> if c time then on_os rel (set_mtime (logged (en_os env)) f time) else returnS ())"
  by (auto intro!: goes_return goes_on_os stays_calls assms split: option.split)

lemma goes_data:
  assumes "decodes_names (en_item env)" and "\<not> o_dry_run (en_opts env)"
  shows "keeps env B (\<lambda>_ _. True) X (rv_data (logging env) i k)"
  unfolding rv_data_def
proof (rule goes_bind [OF goes_take_pending])
  fix p :: "'b awaited"
  assume n: "plain_name (name_bytes (h_name (aw_header p)))"
  show "keeps env B (\<lambda>_ _. True) (dir_fds (aw_dir p) \<union> X) (case rd_fd (aw_dir p) of None \<Rightarrow> failS copy_malformed
       | Some dir \<Rightarrow>
           let part = part_name (logging env) (h_name (aw_header p)) in
           bindS (on_os (aw_rel p) (fsat_create (en_os (logging env)) dir (name_bytes part) (k = 0))) (\<lambda>file.
           bindS (on_os (aw_rel p) (sys_set_len (en_os (logging env)) file k)) (\<lambda>_.
           bindS (\<lambda>r. write_chunks (logging env) (Suc (length (rv_input r))) (aw_rel p) file k r) (\<lambda>_.
           bindS (on_os (aw_rel p) (sys_fchmod (en_os (logging env)) file (mode_landed (h_mode (aw_header p))))) (\<lambda>_.
           bindS (case h_mtime (aw_header p) of
                    None \<Rightarrow> returnS ()
                  | Some time \<Rightarrow>
                      if o_keep_times (en_opts (logging env)) then on_os (aw_rel p) (set_mtime (en_os (logging env)) file time)
                      else returnS ()) (\<lambda>_.
           bindS (on_os (aw_rel p)
                    (fsat_rename (en_os (logging env)) dir (name_bytes part) (name_bytes (h_name (aw_header p))))) (\<lambda>_.
           bindS (rv_written (logging env) p k) (\<lambda>_.
           close_ready (logging env)))))))))"
  proof (cases "rd_fd (aw_dir p)")
    case (Some dir)
    show ?thesis
      unfolding Some option.case Let_def logging_simps
      by (intro goes_bind [OF goes_on_os [OF stays_calls(4)]] goes_bind [OF goes_on_os [OF stays_calls(6)]]
          goes_bind [OF goes_at [OF goes_write_chunks]] goes_bind [OF goes_on_os [OF stays_calls(9)]]
          goes_bind [OF goes_time] goes_bind [OF goes_on_os [OF stays_calls(11)]]
          goes_bind [OF goes_written] goes_close_ready)
         (use assms n Some in auto)
  qed simp
qed

lemma goes_differs: "keeps env B (\<lambda>_ _. True) X (rv_differs (logging env) i k)"
  unfolding rv_differs_def
  by (intro goes_bind [OF goes_take_pending] goes_bind [OF goes_summed] goes_written)

lemma goes_same: "keeps env B (\<lambda>_ _. True) X (rv_same (logging env) i)"
  unfolding rv_same_def
proof (intro goes_bind [OF goes_take_pending] goes_bind [OF goes_summed] goes_unless)
  fix p :: "'b awaited"
  assume n: "plain_name (name_bytes (h_name (aw_header p)))" and dry: "\<not> o_dry_run (en_opts (logging env))"
  show "keeps env B (\<lambda>_ _. True) ({} \<union> (dir_fds (aw_dir p) \<union> X))
     (case rd_fd (aw_dir p) of
          None \<Rightarrow> failS copy_malformed
        | Some dir \<Rightarrow>
            let mode = mode_landed (h_mode (aw_header p)) in
            bindS (on_os (aw_rel p) (open_file (en_os (logging env)) dir (name_bytes (h_name (aw_header p))))) (\<lambda>file.
            bindS (on_os (aw_rel p) (stat_of (en_os (logging env)) file)) (\<lambda>here.
            bindS (if e_mode here \<noteq> mode then on_os (aw_rel p) (sys_fchmod (en_os (logging env)) file mode)
                   else returnS ()) (\<lambda>_.
            bindS (case h_mtime (aw_header p) of
                     None \<Rightarrow> returnS ()
                   | Some t \<Rightarrow>
                       if o_keep_times (en_opts (logging env)) \<and> e_mtime here \<noteq> Some t
                       then on_os (aw_rel p) (set_mtime (en_os (logging env)) file t) else returnS ()) (\<lambda>_.
            close_ready (logging env))))))"
  proof (cases "rd_fd (aw_dir p)")
    case (Some dir)
    show ?thesis
      unfolding Some option.case Let_def logging_simps
      by (intro goes_bind [OF goes_on_os [OF stays_calls(2)]] goes_bind [OF goes_on_os [OF stays_reads(2)]]
          goes_bind [OF goes_when] goes_on_os [OF stays_calls(9)]
          goes_bind [OF goes_time] goes_close_ready)
         (use n dry Some in auto)
  qed simp
qed

lemma goes_link_replace:
  assumes "lists_names (en_os env)" and "\<not> o_dry_run (en_opts env)" and "fd \<in> X" and "plain_name (name_bytes n)"
  shows "keeps env B K X (link_replace (logging env) fd n link rel)"
proof -
  have r: "stays (o_dry_run (en_opts env)) B X
      (ignoreS (fsat_remove (logged (en_os env)) fd (name_bytes (part_name (logging env) n)) MAX_DEPTH False)) (\<lambda>_. {})"
    using stays_ignore [OF stays_remove [OF assms(1) plain_part assms(3), of "o_dry_run (en_opts env)"]] assms(2)
    by simp
  show ?thesis
    unfolding link_replace_def Let_def logging_simps
    by (intro goes_bind [OF goes_on_os [OF r]] goes_bind [OF goes_on_os [OF stays_calls(12)]]
        goes_on_os [OF stays_calls(11)])
       (use assms in auto)
qed

lemma goes_symlink:
  assumes "lists_names (en_os env)" and "dir_fds d \<subseteq> X" and "plain_name (name_bytes n)"
  shows "keeps env B K X (rv_symlink (logging env) d n link)"
proof -
  let ?rel = "rd_rel d @ [name_bytes n]"
  let ?shown = "summed (\<lambda>m. note_change m Made_Link (rel_bytes ?rel) None None)"
  let ?counted = "summed (\<lambda>m. m\<lparr>s_links := sat_add64 (s_links m) 1\<rparr>)"
  have c: "keeps env B K X (bindS m (\<lambda>_. ?counted))" if "keeps env B K X m" for m
    by (rule goes_bind [OF that]) simp
  have i: "keeps env B K X (if o_dry_run (en_opts env) then ?shown else m)"
    if "\<not> o_dry_run (en_opts env) \<Longrightarrow> keeps env B K X m" for m
    using that by simp
  have x: "keeps env B K X (on_os ?rel (fsat_symlink (logged (en_os env)) (link_bytes link) fd (name_bytes n)))"
    if "rd_fd d = Some fd" "\<not> o_dry_run (en_opts env)" for fd
    by (rule goes_on_os, rule stays_calls) (use that assms in auto)
  have y: "keeps env B K X (link_replace (logging env) fd n link ?rel)"
    if "rd_fd d = Some fd" "\<not> o_dry_run (en_opts env)" for fd
    by (rule goes_link_replace) (use that assms in auto)
  have z: "keeps env B K X (bindS (on_os ?rel (read_link (logged (en_os env)) fd (name_bytes n))) (\<lambda>target.
      if target = link_bytes link then returnS ()
      else bindS (if o_dry_run (en_opts env) then ?shown else link_replace (logging env) fd n link ?rel) (\<lambda>_. ?counted)))"
    if "rd_fd d = Some fd" for fd
    by (intro goes_then [OF goes_on_os [OF stays_reads(3)]] goes_if c goes_summed y [OF that]) (auto intro: goes_return)
  show ?thesis
    unfolding rv_symlink_def Let_def logging_simps
    by (intro goes_then [OF goes_saw] goes_then [OF goes_rdir_stat])
       (use assms in \<open>auto intro!: c i x y z split: option.split ekind.split simp del: One_nat_def split del: if_split\<close>)
qed

lemma goes_item:
  assumes "lists_names (en_os env)" and "decodes_names (en_item env)" and it: "plain_item it"
  shows "keeps env B (\<lambda>_ _. True) X (rv_item (logging env) it)"
proof (rule goesI)
  fix Y assume XY: "X \<subseteq> Y"
  let ?K = "\<lambda>_ _. True"
  show "holds (rv_in env B ?K Y) (rv_item (logging env) it) (\<lambda>a r. rv_in env B ?K ({} \<union> Y) r \<and> True) (rv_end env B)"
    unfolding holds_def
  proof (intro allI impI)
    fix r assume r: "rv_in env B ?K Y r"
    have e: "rv_end env B r" by (rule rv_in_end [OF r])
    let ?goal = "\<lambda>q. case q of (s', x) \<Rightarrow>
        (case x of Inl x \<Rightarrow> rv_end env B s' | Inr (a :: bool) \<Rightarrow> rv_in env B ?K Y s')"
    have on: "?goal (bindS m (\<lambda>_. returnS False) r)" if "keeps env B ?K (rv_fds r) m" for m :: "('a \<times> 'b call list, 'b, unit) ract"
    proof -
      have k: "keeps env B ?K (rv_fds r) (bindS m (\<lambda>_. returnS False))"
        by (rule goes_bind [OF that]) (simp add: goes_return)
      have "rv_in env B ?K (rv_fds r \<union> Y) r"
        using r by (auto simp: rv_in_def sys_in_def)
      from holds_at [OF goesD [OF k] this]
      show ?thesis by (auto split: sum.splits prod.splits elim: rv_in_mono)
    qed
    have place: "keeps env B ?K (rv_fds r) (bindS (rv_place n) (\<lambda>(d, n). f d n))"
      if "plain_name (name_bytes n)"
        and "\<And>d n. plain_name (name_bytes n) \<Longrightarrow> keeps env B ?K (dir_fds d \<union> rv_fds r) (f d n)"
      for n and f :: "'b rdir \<Rightarrow> fname \<Rightarrow> ('a \<times> 'b call list, 'b, unit) ract"
      by (rule goes_bind [OF goes_place [OF that(1)]]) (use that(2) in auto)
    have skip: "keeps env B ?K (rv_fds r) (bindS (saw (name_bytes n)) (\<lambda>_. summed f))" for n f
      by (rule goes_bind [OF goes_saw]) simp
    have top: "dir_fds (rv_top r) \<subseteq> rv_fds r" by (auto simp: rv_fds_def)
    have open_top: "?goal (bindS (bindS (case rd_fd (rv_top r) of None \<Rightarrow> returnS None
          | Some fd \<Rightarrow> bindS (on_os [] (sys_dup (logged (en_os env)) fd)) (\<lambda>fd'. returnS (Some fd')))
        (\<lambda>fd. rv_open_dir (logging env) fd [] None t (rv_top r))) (\<lambda>_. returnS False) r)"
      if "rv_open r = []" for t
    proof -
      let ?Z = "\<lambda>n _. n = 0"
      have d: "goes env B ?Z ?Z (rv_fds r) (case rd_fd (rv_top r) of None \<Rightarrow> returnS None
          | Some fd \<Rightarrow> bindS (on_os [] (sys_dup (logged (en_os env)) fd)) (\<lambda>fd'. returnS (Some fd')))
          set_option (\<lambda>_. True)"
        using top by (auto intro!: goes_return goes_bind [OF goes_on_os [OF stays_calls(3)]] split: option.split)
      have o: "goes env B ?Z ?K (rv_fds r) (bindS (case rd_fd (rv_top r) of None \<Rightarrow> returnS None
          | Some fd \<Rightarrow> bindS (on_os [] (sys_dup (logged (en_os env)) fd)) (\<lambda>fd'. returnS (Some fd')))
        (\<lambda>fd. rv_open_dir (logging env) fd [] None t (rv_top r))) (\<lambda>_. {}) (\<lambda>_. True)"
        by (intro goes_bind [OF d] goes_pre [OF goes_open_dir]) (auto simp: MAX_DEPTH_def)
      have k: "goes env B ?Z ?K (rv_fds r) (bindS (bindS (case rd_fd (rv_top r) of None \<Rightarrow> returnS None
          | Some fd \<Rightarrow> bindS (on_os [] (sys_dup (logged (en_os env)) fd)) (\<lambda>fd'. returnS (Some fd')))
        (\<lambda>fd. rv_open_dir (logging env) fd [] None t (rv_top r))) (\<lambda>_. returnS False)) (\<lambda>_. {}) (\<lambda>_. True)"
        by (rule goes_bind [OF o]) (simp add: goes_return)
      have "rv_in env B ?Z (rv_fds r \<union> Y) r"
        using r that by (auto simp: rv_in_def sys_in_def)
      from holds_at [OF goesD [OF k] this]
      show ?thesis by (auto split: sum.splits prod.splits elim: rv_in_mono)
    qed
    have named: "plain_name (name_bytes n)" if "rv_named r = Some n" for n
      using r that by (simp add: rv_in_def rv_ok_def)
    have "?goal (rv_item (logging env) it r)"
    proof (cases it)
      case (Dir n m t)
      show ?thesis
        using it unfolding Dir rv_item_def item.case Let_def
        by (intro on place goes_enter assms) (auto simp: plain_item_def)
    next
      case (File h)
      show ?thesis
        using it unfolding File rv_item_def item.case Let_def
        by (intro on place goes_file assms) (auto simp: plain_item_def)
    next
      case (Symlink n l)
      show ?thesis
        using it unfolding Symlink rv_item_def item.case Let_def
        by (intro on place goes_symlink assms) (auto simp: plain_item_def)
    next
      case (Contents m t)
      show ?thesis
      proof (cases "rv_open r = []")
        case True
        show ?thesis
        proof (cases "rv_named r")
          case None
          then show ?thesis
            unfolding Contents rv_item_def item.case Let_def logging_simps
            using open_top [OF True] True by (simp add: None del: bindS_return)
        next
          case (Some n)
          have "keeps env B ?K (rv_fds r) (bindS (rv_place n) (\<lambda>(d, n). enter (logging env) d n m t))"
            by (intro place goes_enter assms named [OF Some]) auto
          from on [OF this] show ?thesis
            unfolding Contents rv_item_def item.case Let_def logging_simps
            by (simp add: Some True del: bindS_return)
        qed
      next
        case False
        then show ?thesis using e by (simp add: Contents rv_item_def)
      qed
    qed (use e r in \<open>simp_all add: rv_item_def Let_def on skip goes_leave assms goes_data goes_differs goes_same\<close>)
    then show "case rv_item (logging env) it r of (s', r) \<Rightarrow>
        (case r of Inl x \<Rightarrow> rv_end env B s' | Inr a \<Rightarrow> rv_in env B ?K ({} \<union> Y) s' \<and> True)"
      by (simp only: Un_empty_left simp_thms)
  qed
qed

lemma goes_rounds:
  assumes "lists_names (en_os env)" and "decodes_names (en_item env)"
  shows "keeps env B (\<lambda>_ _. True) X (rv_rounds (logging env) n)"
proof (induction n)
  case (Suc n)
  let ?K = "\<lambda>_ _. True"
  have f: "keeps env B ?K X (\<lambda>r. (r\<lparr>rv_summary := summary_none\<rparr>,
               Inr ((rv_summary r)\<lparr>s_changes := sort_key c_path (s_changes (rv_summary r))\<rparr>)))"
    by (rule goesI) (simp add: holds_def rv_in_def rv_ok_def rv_fds_def)
  show ?case
    unfolding rv_rounds.simps
    by (intro goes_then [OF goes_next_item [OF assms(2)]] goes_then [OF goes_item [OF assms]] goes_if f Suc)
qed simp

definition target_fds :: "'fd target \<Rightarrow> 'fd set" where
  "target_fds t = (case t of Into fd \<Rightarrow> set_option fd | As_Name fd _ \<Rightarrow> set_option fd)"

definition target_ok :: "'fd target \<Rightarrow> bool" where
  "target_ok t = (case t of Into _ \<Rightarrow> True | As_Name _ n \<Rightarrow> name_new (name_bytes n) = Inr n)"

lemma run_ends:
  assumes "lists_names (en_os env)" and "decodes_names (en_item env)" and "target_ok target"
  shows "rv_end env (target_fds target) (fst (rv_run (logging env) (receiver_init (s, []) input target)))"
proof -
  let ?r = "receiver_init (s, []) input target" and ?K = "\<lambda>_ _. True"
  have i: "rv_in env (target_fds target) ?K {} ?r"
    using assms(3)
    by (cases target)
       (auto simp: receiver_init_def rv_in_def rv_ok_def rv_fds_def sys_in_def target_fds_def target_ok_def
         known_def dest: name_new_plain)
  have "keeps env (target_fds target) ?K {} (rv_run (logging env))"
    unfolding rv_run_def by (rule goes_at) (rule goes_rounds [OF assms(1, 2)])
  from holds_at [OF goesD [OF this order_refl] i]
  show ?thesis
    by (auto split: prod.splits sum.splits intro: rv_in_end)
qed

section \<open>Within the target\<close>

definition received_calls ::
    "('s, 'fd) copy_env \<Rightarrow> byte list \<Rightarrow> 'fd target \<Rightarrow> 's \<Rightarrow> 'fd call list" where
  "received_calls env input target s = snd (fst (receive (logging env) input target (s, [])))"

lemma received_calls_run:
  "received_calls env input target s =
     snd (rv_os (fst (rv_run (logging env) (receiver_init (s, []) input target))))"
  by (simp add: received_calls_def receive_def split: prod.split)

lemma rv_run_rounds:
  "rv_run env (receiver_init s input target) = rv_rounds env (Suc (length input)) (receiver_init s input target)"
  by (simp add: rv_run_def receiver_init_def split: target.split del: rv_rounds.simps)

lemma received_within:
  "lists_names (en_os env) \<Longrightarrow> decodes_names (en_item env) \<Longrightarrow> target_ok target \<Longrightarrow>
     within (o_dry_run (en_opts env)) (target_fds target) (received_calls env input target s)"
  using run_ends [of env target s input] by (simp add: received_calls_run rv_end_def)

text \<open>Every call is by one entry's name on a directory that is the target's or was opened from it so.\<close>

lemma within_reached:
  "within dry B cs \<Longrightarrow> n < length cs \<Longrightarrow> call_in dry (known B (take n cs)) (cs ! n)"
proof (induction cs arbitrary: B n)
  case (Cons c cs)
  then show ?case by (cases n) auto
qed simp


text \<open>A system where nothing is there, and everything succeeds.\<close>

definition empty_os :: "(unit, nat) os" where
  "empty_os = \<lparr>
     sys_statat = (\<lambda>s d n. Inl E_NotFound), sys_fstat = (\<lambda>s d. Inl E_Else), sys_readlink = (\<lambda>s d n. Inl E_Else),
     sys_read_dir = (\<lambda>s d. Inr []), sys_hash = (\<lambda>s d n. Inr []), sys_metadata = (\<lambda>s p. Inl E_NotFound),
     sys_exists = (\<lambda>s p. False), sys_open_dir = (\<lambda>d n. returnS (Suc d)), sys_open_path = (\<lambda>p. returnS 1),
     sys_dup = (\<lambda>d. returnS (Suc d)), sys_open_file = (\<lambda>d n. returnS (Suc d)), sys_create_dir_all = (\<lambda>p. returnS ()),
     sys_create = (\<lambda>d n t m. returnS (Suc d)), sys_mkdirat = (\<lambda>d n m. returnS ()), sys_set_len = (\<lambda>f n. returnS ()),
     sys_write_all_at = (\<lambda>f b n. returnS ()), sys_fchmod = (\<lambda>f m. returnS ()), sys_futimens = (\<lambda>f t n. returnS ()),
     sys_renameat = (\<lambda>d a b. returnS ()), sys_symlinkat = (\<lambda>t d n. returnS ()), sys_unlinkat = (\<lambda>d n b. returnS ())\<rparr>"

text \<open>Items of one byte: a symlink \<open>a\<close>, the end, and a directory's contents.\<close>

definition few_items :: "byte list \<Rightarrow> item option" where
  "few_items b = (if b = [1] then Some (Symlink (Name [0x61]) (LinkTarget [0x62]))
                  else if b = [2] then Some All_Done
                  else if b = [3] then Some (Contents (Mode 0x1ED) None) else None)"

definition link_env :: "bool \<Rightarrow> (unit, nat) copy_env" where
  "link_env dry = \<lparr>en_os = empty_os,
     en_opts = \<lparr>o_keep_times = False, o_delete = False, o_dry_run = dry, o_excludes = Excludes []\<rparr>,
     en_item = few_items, en_hash = (\<lambda>_. [])\<rparr>"

lemma link_env_dry [simp]: "o_dry_run (en_opts (link_env dry)) = dry"
  by (simp add: link_env_def)

lemma link_env_ok:
  "lists_names (en_os (link_env dry))" "decodes_names (en_item (link_env dry))"
  by (auto simp: link_env_def empty_os_def lists_names_def decodes_names_def few_items_def name_new_def
      MAX_FILE_NAME_def)


text \<open>A call that only opens what is there to look at.\<close>

definition only_looks :: "'fd call \<Rightarrow> bool" where
  "only_looks c = (case c of C_Open_Dir _ _ _ \<Rightarrow> True | C_Open_File _ _ _ \<Rightarrow> True | C_Dup _ _ \<Rightarrow> True | _ \<Rightarrow> False)"

lemma within_dry: "within True B cs \<Longrightarrow> c \<in> set cs \<Longrightarrow> only_looks c"
proof (induction cs arbitrary: B)
  case (Cons x cs)
  have "call_in True B x \<Longrightarrow> only_looks x"
    by (cases x) (simp_all add: only_looks_def)
  then show ?case using Cons by auto
qed simp

text \<open>A dry run changes nothing: whatever the sender sends, all a receiving end calls of the system
  beside looking is to open entries within the target, directories and files to read.\<close>

theorem dry_runs_only_look:
  assumes "lists_names (en_os env)" and "decodes_names (en_item env)" and "target_ok target"
    and "o_dry_run (en_opts env)" and "c \<in> set (received_calls env input target s)"
  shows "only_looks c"
  by (rule within_dry [of "target_fds target"]) (use received_within [OF assms(1-3), of input s] assms(4, 5) in auto)

lemma dry_runs_only_look_witness:
  "received_calls (link_env True) [0, 0, 0, 1, 3] (Into (Some 0)) () = [C_Dup 0 (Some 1)] \<and>
     only_looks (C_Dup 0 (Some (1 :: nat)))"
proof -
  let ?in = "[0, 0, 0, 1, 3] :: byte list"
  let ?c = "received_calls (link_env True) ?in (Into (Some 0)) ()"
  have "snd (rv_os (fst (rv_rounds (logging (link_env True)) (Suc (Suc k)) (receiver_init ((), []) ?in (Into (Some 0))))))
      = [C_Dup 0 (Some 1)]" for k
    by (cases k)
      (simp_all add: receiver_init_def next_item_def read_exact_def bindS_def
        body_len_def u32_of_be_def MAX_ITEM_def link_env_def few_items_def returnS_def rv_item_def failS_def
        on_os_def logged_def logging_def empty_os_def logS_def changeR_def rv_open_dir_def gave_def)
  from this [of "Suc (Suc (Suc (Suc 0)))"] have c: "?c = [C_Dup 0 (Some 1)]"
    by (simp add: received_calls_run rv_run_rounds del: rv_rounds.simps)
  show ?thesis
    using dry_runs_only_look [OF link_env_ok [of True], where target = "Into (Some 0)" and s = "()" and input = "?in"
        and c = "C_Dup 0 (Some 1)"]
    by (simp add: c target_ok_def)
qed

text \<open>C36: What a receiving end holds is bounded, wherever the stream ends, well or not: at most \<open>MAX_DEPTH\<close>
  directories open, a window of files awaited, and of the names \<open>--delete\<close> keeps, those of the open directories, at most one over
  \<open>MAX_SEEN\<close>, which ends the copy.\<close>

theorem receivers_hold_little:
  assumes "lists_names (en_os env)" and "decodes_names (en_item env)" and "target_ok target"
  shows "let r = fst (rv_run (logging env) (receiver_init (s, []) input target)) in
    length (rv_open r) \<le> MAX_DEPTH \<and> length (rv_pending r) \<le> WINDOW \<and>
    rv_seen r = sum_list (map names_seen (rv_open r)) \<and> rv_seen r \<le> Suc MAX_SEEN"
  using run_ends [OF assms, of s input] by (simp add: Let_def rv_end_def rv_bounded_def)

lemma receivers_hold_little_witness:
  "length (rv_pending (fst (rv_run (logging (link_env False)) (receiver_init ((), []) [0, 0, 0, 1] (Into None))))) \<le> WINDOW"
  using receivers_hold_little [OF link_env_ok [of False], of "Into None" "()" "[0, 0, 0, 1]"]
  by (simp add: target_ok_def Let_def)

end
