(* ===== verification/Koh_Receive_Count.thy ===== *)
theory Koh_Receive_Count
  imports Koh_Receive_Proofs
begin

text \<open>
  A copy that ends well accounts for each file that came: the items a stream of bytes holds are read
  without the receiver, and its counts are compared with them.
\<close>

section \<open>What a stream holds\<close>

definition item_here :: "('s, 'fd) copy_env \<Rightarrow> byte list \<Rightarrow> (item \<times> byte list) option" where
  "item_here env i =
     (if length i < 4 then None
      else case body_len (take 4 i) MAX_ITEM of
        Inl _ \<Rightarrow> None
      | Inr len \<Rightarrow>
          if length i < 4 + len then None
          else map_option (\<lambda>it. (it, drop (4 + len) i)) (en_item env (take len (drop 4 i))))"

lemma item_here_shorter: "item_here env i = Some (it, rest) \<Longrightarrow> length rest < length i"
  by (auto simp: item_here_def split: if_splits sum.splits)

text \<open>The items up to the one that ends it, a chunk's bytes skipped.\<close>

function copy_items :: "('s, 'fd) copy_env \<Rightarrow> byte list \<Rightarrow> item list" where
  "copy_items env i =
     (case item_here env i of
        None \<Rightarrow> []
      | Some (it, rest) \<Rightarrow>
          it # (case it of All_Done \<Rightarrow> [] | Chunk_Of n \<Rightarrow> copy_items env (drop (data_len n) rest)
                | _ \<Rightarrow> copy_items env rest))"
  by pat_completeness auto
termination
  by (relation "measure (\<lambda>(_, i). length i)") (auto dest!: item_here_shorter)

declare copy_items.simps [simp del]

definition is_file :: "item \<Rightarrow> bool" where
  "is_file it = (case it of File _ \<Rightarrow> True | _ \<Rightarrow> False)"

definition headers :: "('s, 'fd) copy_env \<Rightarrow> byte list \<Rightarrow> nat" where
  "headers env i = length (filter is_file (copy_items env i))"

text \<open>How many come after an item.\<close>

definition headers_after :: "('s, 'fd) copy_env \<Rightarrow> item \<Rightarrow> byte list \<Rightarrow> nat" where
  "headers_after env it rest =
     (case it of All_Done \<Rightarrow> 0 | Chunk_Of n \<Rightarrow> headers env (drop (data_len n) rest) | _ \<Rightarrow> headers env rest)"

lemma headers_next:
  "item_here env i = Some (it, rest) \<Longrightarrow> headers env i = (if is_file it then 1 else 0) + headers_after env it rest"
  unfolding headers_def headers_after_def
  by (subst copy_items.simps) (cases it, auto simp: is_file_def)

lemma headers_le: "headers env i \<le> length i"
proof (induction i rule: length_induct)
  case (1 i)
  show ?case
  proof (cases "item_here env i")
    case None
    then show ?thesis unfolding headers_def by (subst copy_items.simps) simp
  next
    case (Some p)
    obtain it rest where p: "p = (it, rest)" by (cases p)
    have r: "length rest < length i" using Some p by (auto dest: item_here_shorter)
    have "headers_after env it rest \<le> length rest"
    proof (cases it)
      case (Chunk_Of n)
      have "length (drop (data_len n) rest) < length i" using r by simp
      with 1 have "headers env (drop (data_len n) rest) \<le> length (drop (data_len n) rest)" by blast
      then show ?thesis by (simp add: headers_after_def Chunk_Of)
    qed (use 1 r in \<open>auto simp: headers_after_def\<close>)
    then show ?thesis
      using headers_next [OF Some [unfolded p]] r by simp
  qed
qed

lemma next_item_here:
  "next_item env r = (r', Inr it) \<Longrightarrow> \<exists>rest. item_here env (rv_input r) = Some (it, rest) \<and> r' = r\<lparr>rv_input := rest\<rparr>"
  by (auto simp: next_item_def bindS_def read_exact_def item_here_def failS_def returnS_def add.commute
      split: if_splits sum.splits option.splits prod.splits)

section \<open>The account\<close>

definition settled :: "summary \<Rightarrow> nat" where
  "settled m = s_new m + s_replaced m + s_unchanged m"

text \<open>Files settled, awaited and to come are all there are, but for \<open>d\<close> under way; answers given and to come are as many, but
  for \<open>e\<close>.\<close>

definition account :: "('s, 'fd) copy_env \<Rightarrow> nat \<Rightarrow> nat \<Rightarrow> nat \<Rightarrow> file_id list \<Rightarrow> ('s, 'fd) receiver \<Rightarrow> bool" where
  "account env d e c ids r \<longleftrightarrow>
     settled (rv_summary r) + length (rv_pending r) + d + headers env (rv_input r) = c \<and>
     length (rv_answers r) + e + headers env (rv_input r) = c \<and>
     map fst (rv_pending r) = ids \<and> distinct ids \<and> c \<le> u64_max"

definition steady :: "('s, 'fd) copy_env \<Rightarrow> ('s, 'fd, 'a) ract \<Rightarrow> bool" where
  "steady env m \<longleftrightarrow> (\<forall>d e c ids. holds (account env d e c ids) m (\<lambda>_. account env d e c ids) (\<lambda>_. True))"

lemma steadyI:
  "(\<And>d e c ids. holds (account env d e c ids) m (\<lambda>_. account env d e c ids) (\<lambda>_. True)) \<Longrightarrow> steady env m"
  by (simp add: steady_def)

lemma steadyD: "steady env m \<Longrightarrow> holds (account env d e c ids) m (\<lambda>_. account env d e c ids) (\<lambda>_. True)"
  by (simp add: steady_def)

lemma steady_bind [intro]: "steady env m \<Longrightarrow> (\<And>a. steady env (f a)) \<Longrightarrow> steady env (bindS m f)"
  unfolding steady_def by (blast intro: holds_bind)

lemma steady_basic [simp, intro]:
  "steady env (returnS a)" "steady env (failS x)" "steady env (on_os rel n)"
  "steady env (saw bytes)" "steady env (rv_place name)"
  unfolding steady_def holds_def
  by (auto simp: returnS_def failS_def on_os_def saw_def rv_place_def account_def Let_def
      split: prod.splits sum.splits list.splits option.splits)

lemma steady_summed [intro]:
  "(\<And>m. settled (f m) = settled m) \<Longrightarrow> steady env (summed f)"
  unfolding steady_def holds_def by (simp add: summed_def changeR_def account_def)

lemma steady_if [intro]: "steady env m \<Longrightarrow> steady env n \<Longrightarrow> steady env (if b then m else n)"
  by simp

lemma steady_option [intro]:
  "steady env m \<Longrightarrow> (\<And>x. steady env (f x)) \<Longrightarrow> steady env (case t of None \<Rightarrow> m | Some x \<Rightarrow> f x)"
  by (cases t) auto

lemma steady_at: "(\<And>r. steady env (m r)) \<Longrightarrow> steady env (\<lambda>r. m r r)"
proof (rule steadyI)
  fix d e c ids assume a: "\<And>r. steady env (m r)"
  show "holds (account env d e c ids) (\<lambda>r. m r r) (\<lambda>_. account env d e c ids) (\<lambda>_. True)"
    unfolding holds_def
  proof (intro allI impI)
    fix s assume "account env d e c ids s"
    then show "case m s s of (s', r) \<Rightarrow> (case r of Inl x \<Rightarrow> True | Inr b \<Rightarrow> account env d e c ids s')"
      by (rule holds_at [OF steadyD [OF a]])
  qed
qed

lemma settled_note [simp]: "settled (note_change m k p a b) = settled m"
  by (simp add: note_change_def settled_def Let_def)

lemma settled_fields [simp]:
  "settled (m\<lparr>s_deleted := n\<rparr>) = settled m" "settled (m\<lparr>s_dirs := n\<rparr>) = settled m"
  "settled (m\<lparr>s_links := n\<rparr>) = settled m" "settled (m\<lparr>s_skipped := n\<rparr>) = settled m"
  "settled (m\<lparr>s_sent_bytes := n\<rparr>) = settled m" "settled (m\<lparr>s_resumed := n\<rparr>) = settled m"
  "settled (m\<lparr>s_changes := l\<rparr>) = settled m"
  by (simp_all add: settled_def)

lemmas steady_rules = steady_bind steady_if steady_option steady_basic steady_summed

lemma steady_part [simp]:
  "steady env (rdir_stat env' rel d n)" "steady env (rv_remove env' fd bytes rel)"
  "steady env (rv_open_dir env' f rel m t p)" "steady env (\<lambda>r. if b r then (r, Inl x) else (r, Inr y))"
  subgoal unfolding rdir_stat_def by (intro steady_rules)
  subgoal unfolding rv_remove_def Let_def by (intro steady_rules) simp_all
  subgoal by (simp add: rv_open_dir_def changeR_def steady_def holds_def account_def)
  subgoal by (simp add: steady_def holds_def)
  done

lemma steady_enter [simp]: "steady env (enter env' d n m t)"
proof -
  have a: "steady env (enter_made env' d n rel k)" for rel k
    unfolding enter_made_def by (auto split: option.split ekind.split intro!: steady_rules)
  have b: "steady env (enter_fd env' d n rel b)" for rel b
    unfolding enter_fd_def by (intro steady_rules)
  show ?thesis
    unfolding enter_def Let_def by (intro steady_rules a b) simp_all
qed

lemma steady_delete_each [simp]: "steady env (delete_each env' tree d fd seen names)"
  by (induction names) (simp_all add: steady_bind)

lemma steady_close_dir [simp]: "steady env (close_dir env' d)"
  unfolding close_dir_def by (intro steady_rules)

lemma steady_close_one [simp]: "steady env (close_one env')"
proof (rule steadyI)
  fix d e c ids
  have "steady env (bindS (close_dir env' x) (\<lambda>_. returnS True))" for x
    by (intro steady_rules) simp
  note h = holds_at [OF steadyD [OF this]]
  have "account env d e c ids (r\<lparr>rv_closing := xs\<rparr>) = account env d e c ids r" for r xs
    by (simp add: account_def)
  then show "holds (account env d e c ids) (close_one env') (\<lambda>_. account env d e c ids) (\<lambda>_. True)"
    unfolding holds_def close_one_def by (auto simp: h split: option.split)
qed

lemma steady_close_ready [simp]: "steady env (close_ready env')"
proof -
  have "steady env (close_rounds env' n)" for n
    by (induction n) (simp_all add: steady_bind)
  then show ?thesis
    unfolding close_ready_def by (rule steady_at)
qed

lemma steady_leave [simp]: "steady env (leave env')"
proof (rule steadyI)
  fix d e c ids
  let ?A = "account env d e c ids"
  have f: "?A (r\<lparr>rv_open := ws\<rparr>) = ?A r" "?A (r\<lparr>rv_seen := n\<rparr>) = ?A r" "?A (r\<lparr>rv_closing := xs\<rparr>) = ?A r" for r ws n xs
    by (simp_all add: account_def)
  have c: "steady env (changeR (\<lambda>r. r\<lparr>rv_seen := g r\<rparr>))" "steady env (changeR (\<lambda>r. r\<lparr>rv_closing := k r\<rparr>))" for g k
    by (simp_all add: steady_def holds_def changeR_def account_def)
  have s: "steady env (bindS
           (case od_seen w of
              None \<Rightarrow> returnS ()
            | Some seen \<Rightarrow>
                bindS (changeR (\<lambda>r. r\<lparr>rv_seen := rv_seen r - length seen\<rparr>)) (\<lambda>_.
                case rd_fd (od_dir w) of
                  None \<Rightarrow> returnS ()
                | Some fd \<Rightarrow>
                    bindS (on_os (rd_rel (od_dir w)) (fsat_names (en_os env') fd))
                      (delete_each env' tree (od_dir w) fd seen)))
           (\<lambda>_. bindS (if o_dry_run (en_opts env') then returnS ()
                      else changeR (\<lambda>r. r\<lparr>rv_closing := rv_closing r @ [od_dir w]\<rparr>)) (\<lambda>_.
                close_ready env')))" for w tree
    by (intro steady_rules c) simp_all
  show "holds ?A (leave env') (\<lambda>_. ?A) (\<lambda>_. True)"
    unfolding holds_def
  proof (intro allI impI)
    fix r assume r: "?A r"
    show "case leave env' r of (s', x) \<Rightarrow> (case x of Inl x \<Rightarrow> True | Inr a \<Rightarrow> ?A s')"
    proof (cases "rv_open r")
      case (Cons w ws)
      have "?A (r\<lparr>rv_open := ws\<rparr>)" using r by (simp add: f)
      from holds_at [OF steadyD [OF s] this, of w "rv_tree r"] show ?thesis
        by (simp only: leave_def Cons list.case)
    qed (simp add: leave_def)
  qed
qed

section \<open>The steps that count\<close>

text \<open>\<open>counts env d e d' e' m\<close>: what is under way goes from \<open>d\<close> files and \<open>e\<close> answers to \<open>d'\<close> and \<open>e'\<close>.\<close>

definition counts :: "('s, 'fd) copy_env \<Rightarrow> nat \<Rightarrow> nat \<Rightarrow> nat \<Rightarrow> nat \<Rightarrow> ('s, 'fd, 'a) ract \<Rightarrow> bool" where
  "counts env d e d' e' m \<longleftrightarrow>
     (\<forall>c ids. holds (account env d e c ids) m (\<lambda>_ r. \<exists>ids'. account env d' e' c ids' r) (\<lambda>_. True))"

lemma countsI:
  "(\<And>c r r' x. account env d e c (map fst (rv_pending r)) r \<Longrightarrow> m r = (r', Inr x) \<Longrightarrow>
      account env d' e' c (map fst (rv_pending r')) r') \<Longrightarrow> counts env d e d' e' m"
  unfolding counts_def holds_def by (fastforce simp: account_def split: sum.splits)

lemma countsD:
  "counts env d e d' e' m \<Longrightarrow> account env d e c ids r \<Longrightarrow> m r = (r', Inr x) \<Longrightarrow> \<exists>ids'. account env d' e' c ids' r'"
  unfolding counts_def by (blast dest: holdsD)

lemma counts_bind:
  assumes "counts env d e d1 e1 m" and "\<And>a. counts env d1 e1 d' e' (f a)"
  shows "counts env d e d' e' (bindS m f)"
proof -
  have "holds (account env d e c ids) (bindS m f) (\<lambda>_ r. \<exists>ids'. account env d' e' c ids' r) (\<lambda>_. True)" for c ids
  proof (rule holds_bind)
    show "holds (account env d e c ids) m (\<lambda>_ r. \<exists>ids'. account env d1 e1 c ids' r) (\<lambda>_. True)"
      using assms(1) by (simp add: counts_def)
    show "holds (\<lambda>r. \<exists>ids'. account env d1 e1 c ids' r) (f a) (\<lambda>_ r. \<exists>ids'. account env d' e' c ids' r) (\<lambda>_. True)" for a
      unfolding holds_def
    proof (intro allI impI, elim exE)
      fix s ids'
      have h: "holds (account env d1 e1 c ids') (f a) (\<lambda>_ r. \<exists>ids'. account env d' e' c ids' r) (\<lambda>_. True)"
        using assms(2) [of a] by (simp add: counts_def)
      assume "account env d1 e1 c ids' s"
      then show "case f a s of (s', r) \<Rightarrow> (case r of Inl x \<Rightarrow> True | Inr b \<Rightarrow> \<exists>ids'. account env d' e' c ids' s')"
        by (rule holds_at [OF h])
    qed
  qed
  then show ?thesis by (simp add: counts_def)
qed

lemma counts_steady: "steady env m \<Longrightarrow> counts env d e d e m"
  unfolding steady_def counts_def holds_def by (fastforce split: sum.splits prod.splits)

lemma counts_fail [simp]: "counts env d e d' e' (failS x)"
  by (simp add: counts_def holds_def failS_def)

lemma counts_at: "(\<And>r. counts env d e d' e' (m r)) \<Longrightarrow> counts env d e d' e' (\<lambda>r. m r r)"
proof (rule countsI)
  fix c r r' x
  assume m: "\<And>r. counts env d e d' e' (m r)" and a: "account env d e c (map fst (rv_pending r)) r" "m r r = (r', Inr x)"
  obtain ids' where "account env d' e' c ids' r'"
    using countsD [OF m a] by blast
  then show "account env d' e' c (map fst (rv_pending r')) r'"
    by (simp add: account_def)
qed

lemma counts_take_pending: "counts env d e (Suc d) e (take_pending i)"
proof (rule countsI)
  fix c r r' and p :: "'b awaited"
  assume a: "account env d e c (map fst (rv_pending r)) r" and t: "take_pending i r = (r', Inr p)"
  from t have m: "map_of (rv_pending r) i = Some p"
      and r': "r' = r\<lparr>rv_pending := filter (\<lambda>(j, _). j \<noteq> i) (rv_pending r)\<rparr>"
    by (auto simp: take_pending_def split: option.splits)
  have "length xs = Suc (length (filter (\<lambda>(j, _). j \<noteq> i) xs)) \<and> distinct (map fst (filter (\<lambda>(j, _). j \<noteq> i) xs))"
    if "distinct (map fst xs)" "map_of xs i = Some p" for xs
    using that
  proof (induction xs)
    case (Cons x xs)
    have "filter (\<lambda>(j, _). j \<noteq> i) xs = xs" if "i \<notin> fst ` set xs"
      using that by (intro filter_True) force
    then show ?case using Cons by (cases x) (auto split: if_splits)
  qed simp
  then show "account env (Suc d) e c (map fst (rv_pending r')) r'"
    using a m by (auto simp: account_def r')
qed

lemma counts_settled:
  assumes "\<And>m. settled m < u64_max \<Longrightarrow> settled (f m) = Suc (settled m)"
  shows "counts env (Suc d) e d e (summed f)"
  by (rule countsI) (auto simp: summed_def changeR_def account_def assms)

lemma settled_written:
  assumes "settled m < u64_max"
  shows "settled (if b then m\<lparr>s_replaced := sat_add64 (s_replaced m) 1\<rparr> else m\<lparr>s_new := sat_add64 (s_new m) 1\<rparr>) = Suc (settled m)"
    "settled (m\<lparr>s_unchanged := sat_add64 (s_unchanged m) 1\<rparr>) = Suc (settled m)"
  using assms by (auto simp: settled_def)

lemma counts_written: "counts env (Suc d) e d e (rv_written env' p k)"
  unfolding rv_written_def
proof (rule counts_settled)
  fix m :: summary
  assume "settled m < u64_max"
  from settled_written(1) [OF this, of "aw_existed p"]
  show "settled (let m1 = (if aw_existed p then m\<lparr>s_replaced := sat_add64 (s_replaced m) 1\<rparr>
               else m\<lparr>s_new := sat_add64 (s_new m) 1\<rparr>);
         m2 = (if 0 < k then m1\<lparr>s_resumed := sat_add64 (s_resumed m1) 1\<rparr> else m1)
     in if o_dry_run (en_opts env')
        then note_change m2 (if aw_existed p then Replaced_File else New_File) (rel_bytes (aw_rel p))
               (Some (h_size (aw_header p))) (aw_was p)
        else m2) = Suc (settled m)"
    by (simp add: Let_def)
qed

lemma counts_then: "counts env d e d' e' m \<Longrightarrow> (\<And>a. steady env (f a)) \<Longrightarrow> counts env d e d' e' (bindS m f)"
  by (rule counts_bind [OF _ counts_steady])

lemma steady_chunk [simp]: "steady env (rv_chunk env)"
proof (rule steadyI)
  fix d e c ids
  have "account env d e c ids r'" if a: "account env d e c ids r" and m: "rv_chunk env r = (r', Inr x)" for r r' x
  proof -
    obtain it r1 where n: "next_item env r = (r1, Inr it)"
        and rest: "(case it of Sent_All \<Rightarrow> returnS None
         | Chunk_Of len \<Rightarrow>
             bindS (read_exact (data_len len)) (\<lambda>data.
             bindS (summed (\<lambda>m. m\<lparr>s_sent_bytes := sat_add64 (s_sent_bytes m) (data_len len)\<rparr>)) (\<lambda>_.
             returnS (Some data)))
         | _ \<Rightarrow> failS copy_malformed) r1 = (r', Inr x)"
      using m unfolding rv_chunk_def bindS_Inr by blast
    obtain left where h: "item_here env (rv_input r) = Some (it, left)" and r1: "r1 = r\<lparr>rv_input := left\<rparr>"
      using next_item_here [OF n] by blast
    have "headers env (rv_input r) = headers env (rv_input r') \<and> settled (rv_summary r') = settled (rv_summary r) \<and>
        rv_pending r' = rv_pending r \<and> rv_answers r' = rv_answers r"
      using rest headers_next [OF h]
      by (cases it)
         (auto simp: r1 failS_def returnS_def is_file_def headers_after_def bindS_def read_exact_def summed_def changeR_def
           split: if_splits)
    then show ?thesis using a by (simp add: account_def)
  qed
  then show "holds (account env d e c ids) (rv_chunk env) (\<lambda>_. account env d e c ids) (\<lambda>_. True)"
    by (auto simp: holds_def split: prod.split sum.split)
qed

lemma steady_write_chunks [simp]: "steady env (write_chunks env n rel f at)"
  by (induction n arbitrary: at) (auto intro!: steady_bind steady_option)

lemma counts_data: "counts env d e d e (rv_data env i k)"
proof -
  have ch: "steady env (\<lambda>r. write_chunks env (Suc (length (rv_input r))) rel fd k r)" for rel and fd :: 'b
    by (rule steady_at) (rule steady_write_chunks)
  have "counts env (Suc d) e d e (bindS (on_os rel m1) (\<lambda>file.
           bindS (on_os rel (m2 file)) (\<lambda>_.
           bindS (\<lambda>r. write_chunks env (Suc (length (rv_input r))) rel file k r) (\<lambda>_.
           bindS (on_os rel (m3 file)) (\<lambda>_.
           bindS (case t of None \<Rightarrow> returnS () | Some time \<Rightarrow> if b then on_os rel (m4 file time) else returnS ()) (\<lambda>_.
           bindS (on_os rel m5) (\<lambda>_.
           bindS (rv_written env p k) (\<lambda>_. close_ready env))))))))"
    for rel and m1 :: "('a, io_kind, 'b) act" and m2 m3 :: "'b \<Rightarrow> ('a, io_kind, unit) act"
      and m4 :: "'b \<Rightarrow> time \<Rightarrow> ('a, io_kind, unit) act" and m5 :: "('a, io_kind, unit) act" and t b p
    by (intro counts_bind [OF counts_steady [OF steady_basic(3)]] counts_bind [OF counts_steady [OF ch]]
        counts_bind [OF counts_steady [OF steady_option]] counts_then [OF counts_written] steady_if
        steady_basic steady_close_ready)
  then show ?thesis
    unfolding rv_data_def Let_def
    by (intro counts_bind [OF counts_take_pending]) (simp split: option.split)
qed

lemma counts_differs: "counts env d e d e (rv_differs env i k)"
  unfolding rv_differs_def
  by (intro counts_bind [OF counts_take_pending] counts_bind [OF counts_steady] counts_written steady_summed) simp

lemma counts_same: "counts env d e d e (rv_same env i)"
proof -
  have u: "counts env (Suc d) e d e (summed (\<lambda>m. m\<lparr>s_unchanged := sat_add64 (s_unchanged m) 1\<rparr>))"
    by (rule counts_settled) (rule settled_written(2))
  have "steady env (bindS (on_os rel m1) (\<lambda>file.
            bindS (on_os rel (m2 file)) (\<lambda>here.
            bindS (if b here then on_os rel (m3 file) else returnS ()) (\<lambda>_.
            bindS (case t of None \<Rightarrow> returnS () | Some t \<Rightarrow> if b' here t then on_os rel (m4 file t) else returnS ()) (\<lambda>_.
            close_ready env)))))"
    for rel and m1 :: "('a, io_kind, 'b) act" and m2 :: "'b \<Rightarrow> ('a, io_kind, dir_entry) act"
      and m3 :: "'b \<Rightarrow> ('a, io_kind, unit) act" and m4 :: "'b \<Rightarrow> time \<Rightarrow> ('a, io_kind, unit) act" and t b b'
    by (intro steady_rules) simp
  then show ?thesis
    unfolding rv_same_def Let_def
    by (intro counts_bind [OF counts_take_pending] counts_then [OF u] steady_if) (simp_all split: option.split)
qed

lemma steady_file_answer [simp]: "steady env (file_answer env' d h rel there)"
proof -
  have o: "steady env (bindS (on_os rel m1) (\<lambda>file. bindS (on_os rel (m2 file)) (\<lambda>x. returnS (a x))))"
    for m1 :: "('a, io_kind, 'b) act" and m2 :: "'b \<Rightarrow> ('a, io_kind, hash) act" and a :: "hash \<Rightarrow> copy_answer"
    by (intro steady_rules)
  have w: "steady env (want_part env' d h rel)"
    unfolding want_part_def Let_def
    by (intro steady_bind steady_part) (auto simp: o split: option.split)
  show ?thesis
    unfolding file_answer_def by (intro steady_option steady_if o w steady_basic)
qed

lemma counts_file: "counts env (Suc d) (Suc e) d e (rv_file env h0 h)"
  unfolding counts_def
proof (intro allI)
  fix c ids
  let ?A = "account env (Suc d) (Suc e) c ids"
  define rest where "rest = (\<lambda>_ :: unit. bindS (saw (name_bytes (h_name h))) (\<lambda>_.
      bindS (rdir_stat env (rd_rel h0 @ [name_bytes (h_name h)]) h0 (h_name h)) (\<lambda>there.
      bindS (file_answer env h0 h (rd_rel h0 @ [name_bytes (h_name h)]) there) (\<lambda>answer.
      bindS (changeR (\<lambda>r. r\<lparr>rv_pending := (h_id h,
               \<lparr>aw_dir = h0, aw_header = h, aw_rel = rd_rel h0 @ [name_bytes (h_name h)], aw_existed = there \<noteq> None,
                aw_was = (case there of
                            Some e \<Rightarrow> if e_kind e = K_File then Some (e_size e) else None | None \<Rightarrow> None)\<rparr>) #
               rv_pending r\<rparr>)) (\<lambda>_.
      rv_answer answer)))))"
  have e: "rv_file env h0 h = bindS (\<lambda>r. if WINDOW \<le> length (rv_pending r) \<or> map_of (rv_pending r) (h_id h) \<noteq> None
                 then (r, Inl copy_malformed) else (r, Inr ())) rest"
    by (simp add: rv_file_def rest_def Let_def)
  have p: "holds ?A (bindS (changeR (\<lambda>r. r\<lparr>rv_pending := (h_id h, p) # rv_pending r\<rparr>)) (\<lambda>_. rv_answer a))
      (\<lambda>_ r. \<exists>ids'. account env d e c ids' r) (\<lambda>_. True)" if "h_id h \<notin> set ids" for p a
    using that by (auto simp: holds_def bindS_def changeR_def rv_answer_def account_def)
  have r: "holds ?A (rest u) (\<lambda>_ r. \<exists>ids'. account env d e c ids' r) (\<lambda>_. True)" if "h_id h \<notin> set ids" for u
    unfolding rest_def
    by (intro holds_bind [OF steadyD] steady_basic steady_part steady_file_answer p that)
  show "holds ?A (rv_file env h0 h) (\<lambda>_ r. \<exists>ids'. account env d e c ids' r) (\<lambda>_. True)"
    unfolding e
  proof (rule holds_bind [where R = "\<lambda>_ r. h_id h \<notin> set ids \<and> ?A r"])
    show "holds (\<lambda>s. h_id h \<notin> set ids \<and> ?A s) (rest u) (\<lambda>_ r. \<exists>ids'. account env d e c ids' r) (\<lambda>_. True)" for u
      by (rule holds_assuming) (rule r)
  qed (auto simp: holds_def account_def map_of_eq_None_iff)
qed

lemma steady_symlink [simp]: "steady env (rv_symlink env' d n link)"
proof -
  have r: "steady env (link_replace env' fd n link rel)" for fd rel
    unfolding link_replace_def Let_def by (intro steady_rules)
  have c: "steady env (bindS (if b then summed (\<lambda>m. note_change m Made_Link p None None) else m1)
      (\<lambda>_. summed (\<lambda>m. m\<lparr>s_links := sat_add64 (s_links m) 1\<rparr>)))" if "steady env m1" for m1 b p
    by (intro steady_rules that) simp_all
  have l: "steady env (bindS (on_os rel m1) (\<lambda>target. if target = x then returnS () else m2))" if "steady env m2"
    for m1 :: "('a, io_kind, byte list) act" and m2 x rel
    by (intro steady_rules that)
  show ?thesis
    unfolding rv_symlink_def Let_def
    by (intro steady_bind steady_basic steady_part)
       (auto simp del: One_nat_def split: option.split ekind.split split del: if_split intro!: l c r)
qed

section \<open>The run\<close>

text \<open>An item that does not end the copy settles what it is; the end finds nothing awaited.\<close>

definition under_way :: "item \<Rightarrow> nat" where
  "under_way it = (if is_file it then 1 else 0)"

lemma counts_item:
  assumes "it \<noteq> All_Done"
  shows "counts env (under_way it) (under_way it) 0 0 (rv_item env it)"
proof (rule countsI)
  fix c r r' x
  assume a: "account env (under_way it) (under_way it) c (map fst (rv_pending r)) r"
    and m: "rv_item env it r = (r', Inr x)"
  have run: "account env 0 0 c (map fst (rv_pending r')) r'"
    if "counts env (under_way it) (under_way it) 0 0 g" "bindS g (\<lambda>_. returnS False) r = (r', Inr x)"
    for g :: "('a, 'b, unit) ract"
  proof -
    have "counts env (under_way it) (under_way it) 0 0 (bindS g (\<lambda>_. returnS False))"
      by (rule counts_then [OF that(1)]) simp
    from countsD [OF this a that(2)] show ?thesis by (auto simp: account_def)
  qed
  have place: "counts env d e d' e' (bindS (rv_place n) (\<lambda>(p, n). g p n))"
    if "\<And>p n. counts env d e d' e' (g p n)" for d e d' e' n and g :: "'b rdir \<Rightarrow> fname \<Rightarrow> ('a, 'b, unit) ract"
    by (rule counts_bind [OF counts_steady [OF steady_basic(5)]]) (simp add: that split: prod.split)
  note st = counts_steady [where d = 0 and e = 0, simplified]
  show "account env 0 0 c (map fst (rv_pending r')) r'"
  proof (cases it)
    case (Dir n t u)
    show ?thesis
      by (rule run [of "bindS (rv_place n) (\<lambda>(parent, n). enter env parent n t u)"])
         (use m in \<open>auto simp: Dir rv_item_def under_way_def is_file_def intro!: place counts_steady\<close>)
  next
    case (File h)
    show ?thesis
      by (rule run [of "bindS (rv_place (h_name h)) (\<lambda>(parent, n). rv_file env parent (h\<lparr>h_name := n\<rparr>))"])
         (use m counts_file [of env 0 0] in \<open>auto simp: File rv_item_def under_way_def is_file_def intro!: place\<close>)
  next
    case (Symlink n l)
    show ?thesis
      by (rule run [of "bindS (rv_place n) (\<lambda>(parent, n). rv_symlink env parent n l)"])
         (use m in \<open>auto simp: Symlink rv_item_def under_way_def is_file_def intro!: place counts_steady\<close>)
  next
    case (Contents t u)
    have top: "steady env (bindS (case rd_fd d of None \<Rightarrow> returnS None
                              | Some fd \<Rightarrow> bindS (on_os [] (sys_dup (en_os env) fd)) (\<lambda>fd'. returnS (Some fd')))
                         (\<lambda>fd. rv_open_dir env fd [] None v d))" for d v
      by (intro steady_rules steady_part)
    show ?thesis
    proof (cases "rv_named r")
      case None
      show ?thesis
        using m None
        by (intro run [of "bindS (case rd_fd (rv_top r) of None \<Rightarrow> returnS None
              | Some fd \<Rightarrow> bindS (on_os [] (sys_dup (en_os env) fd)) (\<lambda>fd'. returnS (Some fd')))
            (\<lambda>fd. rv_open_dir env fd [] None (if o_keep_times (en_opts env) then u else None) (rv_top r))"])
          (simp_all add: Contents rv_item_def under_way_def is_file_def counts_steady [OF top] split: if_splits)
    next
      case (Some n)
      show ?thesis
        by (rule run [of "bindS (rv_place n) (\<lambda>(parent, n). enter env parent n t u)"])
           (use m Some in \<open>auto simp: Contents rv_item_def under_way_def is_file_def intro!: place counts_steady split: if_splits\<close>)
    qed
  next
    case End_Dir
    show ?thesis
      by (rule run [of "leave env"])
         (use m in \<open>auto simp: End_Dir rv_item_def under_way_def is_file_def intro!: counts_steady split: if_splits\<close>)
  next
    case (Skipped n)
    have sk: "steady env (bindS (saw (name_bytes n)) (\<lambda>_. summed (\<lambda>m. m\<lparr>s_skipped := sat_add64 (s_skipped m) 1\<rparr>)))"
      by (intro steady_rules) simp
    show ?thesis
      by (rule run [of "bindS (saw (name_bytes n)) (\<lambda>_. summed (\<lambda>m. m\<lparr>s_skipped := sat_add64 (s_skipped m) 1\<rparr>))"])
         (use m counts_steady [OF sk, of 0 0] in \<open>simp_all add: Skipped rv_item_def under_way_def is_file_def split: if_splits\<close>)
  next
    case (Data_From i k)
    show ?thesis
      by (rule run [of "rv_data env i k"])
         (use m in \<open>auto simp: Data_From rv_item_def under_way_def is_file_def intro!: counts_data split: if_splits\<close>)
  next
    case (Differs i k)
    show ?thesis
      by (rule run [of "rv_differs env i k"])
         (use m in \<open>auto simp: Differs rv_item_def under_way_def is_file_def intro!: counts_differs split: if_splits\<close>)
  next
    case (Same i)
    show ?thesis
      by (rule run [of "rv_same env i"])
         (use m in \<open>auto simp: Same rv_item_def under_way_def is_file_def intro!: counts_same split: if_splits\<close>)
  qed (use m assms in \<open>simp_all add: rv_item_def Let_def\<close>)
qed

lemma rounds_settle:
  "account env 0 0 c (map fst (rv_pending r)) r \<Longrightarrow> rv_rounds env n r = (r', Inr m) \<Longrightarrow>
     settled m = c \<and> length (rv_answers r') = c"
proof (induction n arbitrary: r)
  case 0
  then show ?case by (simp add: failS_def)
next
  case (Suc n)
  obtain r1 it where n: "next_item env r = (r1, Inr it)"
      and more: "bindS (rv_item env it) (\<lambda>over.
       if over then (\<lambda>r. (r\<lparr>rv_summary := summary_none\<rparr>,
               Inr ((rv_summary r)\<lparr>s_changes := sort_key c_path (s_changes (rv_summary r))\<rparr>)))
       else rv_rounds env n) r1 = (r', Inr m)"
    using Suc.prems(2) unfolding rv_rounds.simps bindS_Inr by blast
  obtain left where h: "item_here env (rv_input r) = Some (it, left)" and r1: "r1 = r\<lparr>rv_input := left\<rparr>"
    using next_item_here [OF n] by blast
  note hs = headers_next [OF h]
  show ?case
  proof (cases "it = All_Done")
    case True
    then have z: "headers env (rv_input r) = 0" using hs by (simp add: is_file_def headers_after_def)
    show ?thesis
      using more Suc.prems(1) z
      by (auto simp: True rv_item_def Let_def bindS_def r1 account_def split: if_splits)
  next
    case False
    show ?thesis
    proof (cases "\<exists>k. it = Chunk_Of k")
      case True
      then show ?thesis using more by (auto simp: bindS_def rv_item_def Let_def)
    next
      case nochunk: False
      have "headers_after env it left = headers env left"
        using False nochunk by (cases it) (auto simp: headers_after_def)
      then have a: "account env (under_way it) (under_way it) c (map fst (rv_pending r1)) r1"
        using Suc.prems(1) hs by (auto simp: account_def r1 under_way_def)
      obtain r2 over where i: "rv_item env it r1 = (r2, Inr over)"
          and go: "(if over then (\<lambda>r. (r\<lparr>rv_summary := summary_none\<rparr>,
               Inr ((rv_summary r)\<lparr>s_changes := sort_key c_path (s_changes (rv_summary r))\<rparr>)))
             else rv_rounds env n) r2 = (r', Inr m)"
        using more unfolding bindS_Inr by blast
      have "\<not> over"
        using i False by (cases it) (auto simp: rv_item_def Let_def bindS_def returnS_def split: if_splits prod.splits sum.splits option.splits)
      moreover obtain ids where "account env 0 0 c ids r2"
        using countsD [OF counts_item [OF False] a i] by blast
      ultimately show ?thesis
        using Suc.IH [of r2] go by (simp add: account_def)
    qed
  qed
qed


text \<open>Items of one byte: a file's header, that it differs, and the end.\<close>

definition file_items :: "byte list \<Rightarrow> item option" where
  "file_items b =
     (if b = [1] then Some (File \<lparr>h_id = 7, h_name = Name [0x61], h_mode = Mode 0x1A4, h_mtime = None, h_size = 3\<rparr>)
      else if b = [2] then Some (Differs 7 0) else if b = [3] then Some All_Done else None)"

definition dry_env :: "(unit, nat) copy_env" where
  "dry_env = (link_env True)\<lparr>en_item := file_items\<rparr>"


end
