(* ===== verification/Koh_Send.thy ===== *)
theory Koh_Send
  imports Koh_Receive
begin

text \<open>
  \<open>src/src/sync/send.rs\<close>: the sending end of a copy, whole, over any system. What the receiver replies is a list
  of what each look at the channel brings, \<open>None\<close> for a look that finds it empty; the stream's task takes
  \<open>sd_room\<close> more messages and is then gone. A relative path is its names. What \<open>read_at\<close> says after a
  signal interrupted it is what it says when it is tried again.
\<close>

section \<open>The sender's state\<close>

definition MESSAGE :: nat where "MESSAGE = CHUNK + MAX_ITEM"

datatype source = Source_Path path | Source_Beneath path "fname list"

text \<open>The system's calls, with \<open>File::open\<close> of a path and \<open>read_at\<close>; postcard's bytes of an item.\<close>

record ('s, 'fd) send_env =
  se_os :: "('s, 'fd) os"
  se_open :: "path \<Rightarrow> ('s, io_kind, 'fd) act"
  se_read_at :: "'s \<Rightarrow> 'fd \<Rightarrow> nat \<Rightarrow> io_kind + byte list"
  se_opts :: opts
  se_encode :: "item \<Rightarrow> byte list"

record ('s, 'fd) sender =
  sd_os :: 's
  sd_sent :: "byte list list"
  sd_room :: nat
  sd_buf :: "byte list"
  sd_replies :: "copy_reply option list"
  sd_pending :: "(file_id \<times> 'fd \<times> path) list"
  sd_next :: file_id
  sd_tree :: "byte list list"
  sd_over :: "(failure + summary) option"

type_synonym ('s, 'fd, 'a) sact = "(('s, 'fd) sender, failure, 'a) act"

definition on_src :: "path \<Rightarrow> ('s, io_kind, 'a) act \<Rightarrow> ('s, 'fd, 'a) sact" where
  "on_src path m = (\<lambda>r. case m (sd_os r) of (s, x) \<Rightarrow> (r\<lparr>sd_os := s\<rparr>, map_sum (failure_io path) (\<lambda>a. a) x))"

definition changeS :: "(('s, 'fd) sender \<Rightarrow> ('s, 'fd) sender) \<Rightarrow> ('s, 'fd, unit) sact" where
  "changeS f = (\<lambda>r. (f r, Inr ()))"

section \<open>What is written\<close>

definition out_flush :: "('s, 'fd, unit) sact" where
  "out_flush = (\<lambda>r.
     if sd_buf r = [] then (r, Inr ())
     else if sd_room r = 0 then (r\<lparr>sd_buf := []\<rparr>, Inl copy_cut)
     else (r\<lparr>sd_sent := sd_sent r @ [sd_buf r], sd_buf := [], sd_room := sd_room r - 1\<rparr>, Inr ()))"

definition out_item :: "('s, 'fd) send_env \<Rightarrow> item \<Rightarrow> byte list \<Rightarrow> ('s, 'fd, unit) sact" where
  "out_item env it data =
     (case encode (se_encode env) it MAX_ITEM of
        Inl _ \<Rightarrow> failS (failure_new F_Other [])
      | Inr head \<Rightarrow>
          bindS (\<lambda>r. if CHUNK < sat_add64 (sat_add64 (length (sd_buf r)) (length head)) (length data)
                     then out_flush r else (r, Inr ())) (\<lambda>_.
          changeS (\<lambda>r. r\<lparr>sd_buf := sd_buf r @ head @ data\<rparr>)))"

section \<open>Answers\<close>

text \<open>A file's bytes from an offset, as many as the buffer holds; a file has none past the offsets there are.\<close>

definition file_read :: "('s, 'fd) send_env \<Rightarrow> 's \<Rightarrow> 'fd \<Rightarrow> nat \<Rightarrow> io_kind + byte list" where
  "file_read env s file at =
     (if u64_max \<le> at then Inr [] else map_sum (\<lambda>e. e) (take CHUNK) (se_read_at env s file at))"

text \<open>The loop over a file's bytes, with more rounds than there are offsets.\<close>

primrec sd_chunks :: "('s, 'fd) send_env \<Rightarrow> nat \<Rightarrow> 'fd \<Rightarrow> path \<Rightarrow> nat \<Rightarrow> ('s, 'fd, unit) sact" where
  "sd_chunks env 0 file path at = failS (failure_new F_Other path)"
| "sd_chunks env (Suc n) file path at =
     bindS (on_src path (readS (\<lambda>s. file_read env s file at))) (\<lambda>data.
       if data = [] then returnS ()
       else case data_len_new (length data) of
         None \<Rightarrow> failS (failure_new F_Other path)
       | Some len \<Rightarrow>
           bindS (out_item env (Chunk_Of len) data) (\<lambda>_.
           sd_chunks env n file path (sat_add64 at (length data))))"

definition answer_id :: "copy_answer \<Rightarrow> file_id" where
  "answer_id a = (case a of Want i _ _ \<Rightarrow> i | Check i _ \<Rightarrow> i)"

text \<open>From where a file's bytes go, or that none do: the receiver has the same.\<close>

definition answer_from :: "('s, 'fd) send_env \<Rightarrow> 'fd \<Rightarrow> path \<Rightarrow> copy_answer \<Rightarrow> ('s, 'fd, nat option) sact" where
  "answer_from env file path a =
     (let hash = (\<lambda>len. on_src path (readS (\<lambda>s. sys_hash (se_os env) s file len))) in
      case a of
        Want _ have (Some prefix) \<Rightarrow>
          if 0 < have then bindS (hash have) (\<lambda>h. returnS (Some (if h = prefix then have else 0)))
          else returnS (Some 0)
      | Want _ have None \<Rightarrow> returnS (Some 0)
      | Check _ theirs \<Rightarrow> bindS (hash u64_max) (\<lambda>h. returnS (if h = theirs then None else Some 0)))"

definition answer_with ::
    "('s, 'fd) send_env \<Rightarrow> 'fd \<Rightarrow> path \<Rightarrow> file_id \<Rightarrow> nat option \<Rightarrow> ('s, 'fd, unit) sact" where
  "answer_with env file path i src =
     (case src of
        None \<Rightarrow> out_item env (Same i) []
      | Some at \<Rightarrow>
          if o_dry_run (se_opts env) then out_item env (Differs i at) []
          else
            bindS (out_item env (Data_From i at) []) (\<lambda>_.
            bindS (sd_chunks env (Suc u64_max) file path at) (\<lambda>_.
            out_item env Sent_All [])))"

definition sd_answer :: "('s, 'fd) send_env \<Rightarrow> copy_answer \<Rightarrow> ('s, 'fd, unit) sact" where
  "sd_answer env a = (\<lambda>r.
     case map_of (sd_pending r) (answer_id a) of
       None \<Rightarrow> (r, Inl copy_malformed)
     | Some (file, path) \<Rightarrow>
         bindS (answer_from env file path a) (answer_with env file path (answer_id a))
           (r\<lparr>sd_pending := filter (\<lambda>p. fst p \<noteq> answer_id a) (sd_pending r)\<rparr>))"

text \<open>\<open>answers\<close>, its loop over what the channel brings, and the whole.\<close>

fun take_answers :: "('s, 'fd) send_env \<Rightarrow> copy_reply option list \<Rightarrow> ('s, 'fd, unit) sact" where
  "take_answers env [] = changeS (\<lambda>r. r\<lparr>sd_replies := []\<rparr>)"
| "take_answers env (None # rs) = changeS (\<lambda>r. r\<lparr>sd_replies := rs\<rparr>)"
| "take_answers env (Some (End_Copy e) # rs) =
     bindS (changeS (\<lambda>r. r\<lparr>sd_replies := rs, sd_over := Some e\<rparr>)) (\<lambda>_. failS copy_cut)"
| "take_answers env (Some (Answer a) # rs) =
     bindS (changeS (\<lambda>r. r\<lparr>sd_replies := rs\<rparr>)) (\<lambda>_.
     bindS (sd_answer env a) (\<lambda>_. take_answers env rs))"

definition wait_answers :: "('s, 'fd) send_env \<Rightarrow> ('s, 'fd, unit) sact" where
  "wait_answers env = (\<lambda>r.
     let rs = dropWhile (\<lambda>x. x = None) (sd_replies r) in
     if rs = [] then take_answers env [Some (End_Copy (Inl copy_cut))] r else take_answers env rs r)"

definition answers_due :: "('s, 'fd) send_env \<Rightarrow> bool \<Rightarrow> ('s, 'fd, unit) sact" where
  "answers_due env waits =
     (if waits then bindS out_flush (\<lambda>_. wait_answers env)
      else (\<lambda>r. take_answers env (sd_replies r) r))"

section \<open>Entries\<close>

definition sd_file :: "('s, 'fd) send_env \<Rightarrow> 'fd \<Rightarrow> fname \<Rightarrow> path \<Rightarrow> ('s, 'fd, unit) sact" where
  "sd_file env file name path =
     bindS (on_src path (stat_of (se_os env) file)) (\<lambda>meta. \<lambda>r.
       let i = sd_next r;
           header = \<lparr>h_id = i, h_name = name,
                     h_mode = (case mode_new (e_mode meta) of None \<Rightarrow> Mode 0x1A4 | Some m \<Rightarrow> m),
                     h_mtime = e_mtime meta, h_size = e_size meta\<rparr>
       in bindS (changeS (\<lambda>r. r\<lparr>sd_next := i + 1\<rparr>)) (\<lambda>_.
          bindS (out_item env (File header) []) (\<lambda>_.
          bindS (changeS (\<lambda>r. r\<lparr>sd_pending := (i, file, path) # filter (\<lambda>p. fst p \<noteq> i) (sd_pending r)\<rparr>)) (\<lambda>_.
          (\<lambda>r. answers_due env (WINDOW \<le> length (sd_pending r)) r)))) r)"

text \<open>\<open>entry\<close>, what it does with a directory given.\<close>

definition sd_entry ::
    "('s, 'fd) send_env \<Rightarrow> (fname \<Rightarrow> byte list list \<Rightarrow> 'fd \<Rightarrow> ('s, 'fd, unit) sact) \<Rightarrow> bool \<Rightarrow> 'fd \<Rightarrow> fname \<Rightarrow>
       byte list list \<Rightarrow> ('s, 'fd, unit) sact" where
  "sd_entry env send_sub is_top dir name rel =
     (let os = se_os env; shown = rel_bytes rel in
      bindS (on_src shown (fsat_stat os dir (name_bytes name))) (\<lambda>there.
        case map_option e_kind there of
          None \<Rightarrow> failS (failure_new F_NotFound shown)
        | Some K_Dir \<Rightarrow> bindS (on_src shown (open_dir os dir (name_bytes name))) (send_sub name rel)
        | Some K_File \<Rightarrow> bindS (on_src shown (open_file os dir (name_bytes name))) (\<lambda>file. sd_file env file name shown)
        | Some K_Link \<Rightarrow>
            bindS (on_src shown (read_link os dir (name_bytes name))) (\<lambda>target.
              case link_target_new target of
                Inl _ \<Rightarrow> failS (failure_new F_NameTooLong shown)
              | Inr target \<Rightarrow>
                  bindS (out_item env (Symlink name target) []) (\<lambda>_. answers_due env False))
        | Some K_Other \<Rightarrow>
            if is_top then failS (failure_new F_NotCopyable shown) else out_item env (Skipped name) []))"

text \<open>Whether an entry is left out, by its path from the top directory.\<close>

definition left_out :: "('s, 'fd) send_env \<Rightarrow> byte list list \<Rightarrow> byte list list \<Rightarrow> byte list \<Rightarrow> bool" where
  "left_out env tree path name =
     (let at = (case strip_prefix tree path of Some p \<Rightarrow> p | None \<Rightarrow> path) in
      excludes (o_excludes (se_opts env)) name (rel_bytes at) = Some True)"

fun sd_each ::
    "('s, 'fd) send_env \<Rightarrow> (fname \<Rightarrow> byte list list \<Rightarrow> ('s, 'fd, unit) sact) \<Rightarrow> byte list list \<Rightarrow> byte list list \<Rightarrow>
       ('s, 'fd, unit) sact" where
  "sd_each env send_entry rel [] = returnS ()"
| "sd_each env send_entry rel (entry # entries) =
     (case name_new entry of
        Inl _ \<Rightarrow> failS (failure_new F_NameTooLong (rel_bytes (rel @ [entry])))
      | Inr name \<Rightarrow>
          bindS (\<lambda>r. if left_out env (sd_tree r) (rel @ [entry]) (name_bytes name) then (r, Inr ())
                     else send_entry name (rel @ [entry]) r) (\<lambda>_.
          sd_each env send_entry rel entries))"

text \<open>\<open>dir\<close>, by how many more directories deep it may go, itself among them.\<close>

primrec sd_dir ::
    "('s, 'fd) send_env \<Rightarrow> nat \<Rightarrow> bool \<Rightarrow> fname option \<Rightarrow> byte list list \<Rightarrow> 'fd \<Rightarrow> ('s, 'fd, unit) sact" where
  "sd_dir env 0 is_top name rel dir = failS (failure_new F_TooDeep (rel_bytes rel))"
| "sd_dir env (Suc k) is_top name rel dir =
     bindS (on_src (rel_bytes rel) (stat_of (se_os env) dir)) (\<lambda>meta.
     bindS (on_src (rel_bytes rel) (fsat_names (se_os env) dir)) (\<lambda>names.
     let m = (case mode_new (e_mode meta) of None \<Rightarrow> Mode 0x1ED | Some m \<Rightarrow> m) in
     bindS (out_item env (case name of Some n \<Rightarrow> Dir n m (e_mtime meta) | None \<Rightarrow> Contents m (e_mtime meta)) []) (\<lambda>_.
     bindS (changeS (\<lambda>r. r\<lparr>sd_tree := (if is_top then rel else sd_tree r)\<rparr>)) (\<lambda>_.
     bindS (sd_each env (sd_entry env (\<lambda>n. sd_dir env k False (Some n)) False dir) rel (sort names)) (\<lambda>_.
     out_item env End_Dir [])))))"

text \<open>\<open>dir\<close> and \<open>entry\<close> at the top, \<open>depth\<close> 1.\<close>

definition top_dir :: "('s, 'fd) send_env \<Rightarrow> fname option \<Rightarrow> byte list list \<Rightarrow> 'fd \<Rightarrow> ('s, 'fd, unit) sact" where
  "top_dir env = sd_dir env MAX_DEPTH True"

definition top_entry :: "('s, 'fd) send_env \<Rightarrow> 'fd \<Rightarrow> fname \<Rightarrow> byte list list \<Rightarrow> ('s, 'fd, unit) sact" where
  "top_entry env = sd_entry env (\<lambda>n. top_dir env (Some n)) True"

section \<open>Sources\<close>

text \<open>A path that names what is in it ends in \<open>.\<close>.\<close>

definition names_contents :: "path \<Rightarrow> bool" where
  "names_contents path \<longleftrightarrow> (length path \<ge> 2 \<and> drop (length path - 2) path = [SEP, 0x2e]) \<or> path = [0x2e]"

definition path_name :: "path \<Rightarrow> failure + fname option" where
  "path_name path =
     (if names_contents path then Inr None
      else case path_file_name path of
        None \<Rightarrow> Inl (failure_new F_NoName path)
      | Some bytes \<Rightarrow> (case name_new bytes of Inl _ \<Rightarrow> Inl (failure_new F_NoName path) | Inr n \<Rightarrow> Inr (Some n)))"

definition sd_source :: "('s, 'fd) send_env \<Rightarrow> source \<Rightarrow> ('s, 'fd, unit) sact" where
  "sd_source env src =
     (case src of
        Source_Path path \<Rightarrow>
          (case path_name path of
             Inl e \<Rightarrow> failS e
           | Inr name \<Rightarrow>
               bindS (on_src path (readS (\<lambda>s. sys_metadata (se_os env) s path))) (\<lambda>meta.
                 if meta = FT_Directory then
                   bindS (on_src path (open_dir_path (se_os env) path)) (\<lambda>dir.
                   top_dir env name (case name of None \<Rightarrow> [] | Some n \<Rightarrow> [name_bytes n]) dir)
                 else case name of
                   None \<Rightarrow> failS (failure_new F_NotADirectory path)
                 | Some n \<Rightarrow>
                     if meta = FT_Regular then
                       bindS (on_src path (se_open env path)) (\<lambda>file. sd_file env file n path)
                     else failS (failure_new F_NotCopyable path)))
      | Source_Beneath root path \<Rightarrow>
          (let names = map name_bytes path; shown = rel_bytes names in
           bindS (on_src shown (open_dir_path (se_os env) root)) (\<lambda>root_fd.
             if path = [] then top_dir env None names root_fd
             else
               bindS (on_src shown (walk (se_os env) root_fd (butlast path))) (\<lambda>parent.
               top_entry env parent (last path) names))))"

section \<open>A copy sent\<close>

fun sd_sources :: "('s, 'fd) send_env \<Rightarrow> source list \<Rightarrow> ('s, 'fd, unit) sact" where
  "sd_sources env [] = returnS ()"
| "sd_sources env (src # srcs) = bindS (sd_source env src) (\<lambda>_. sd_sources env srcs)"

text \<open>The headers still to be answered, each round of the loop answering one at least: as many rounds as there are.\<close>

primrec sd_rest :: "('s, 'fd) send_env \<Rightarrow> nat \<Rightarrow> ('s, 'fd, unit) sact" where
  "sd_rest env 0 = failS copy_cut"
| "sd_rest env (Suc n) = (\<lambda>r.
     if sd_pending r = [] then (r, Inr ())
     else bindS (answers_due env True) (\<lambda>_. sd_rest env n) r)"

definition sd_all :: "('s, 'fd) send_env \<Rightarrow> source list \<Rightarrow> ('s, 'fd, unit) sact" where
  "sd_all env srcs =
     bindS (sd_sources env srcs) (\<lambda>_. \<lambda>r. sd_rest env (Suc (length (sd_pending r))) r)"

definition sender_init :: "'s \<Rightarrow> nat \<Rightarrow> copy_reply option list \<Rightarrow> ('s, 'fd) sender" where
  "sender_init s room replies =
     \<lparr>sd_os = s, sd_sent = [], sd_room = room, sd_buf = [], sd_replies = replies, sd_pending = [], sd_next = 0,
      sd_tree = [], sd_over = None\<rparr>"

text \<open>The receiver's word, past the answers still to come.\<close>

fun last_word :: "copy_reply option list \<Rightarrow> (failure + summary) option" where
  "last_word [] = None"
| "last_word (Some (End_Copy e) # rs) = Some e"
| "last_word (_ # rs) = last_word rs"

definition send ::
    "('s, 'fd) send_env \<Rightarrow> source list \<Rightarrow> nat \<Rightarrow> copy_reply option list \<Rightarrow> 's \<Rightarrow>
       ('s, 'fd) sender \<times> (failure + summary)" where
  "send env srcs room replies s =
     (let (r, sent) = sd_all env srcs (sender_init s room replies) in
      case sd_over r of
        Some over \<Rightarrow> (r, over)
      | None \<Rightarrow>
          (let closing = (case sent of Inr _ \<Rightarrow> All_Done | Inl e \<Rightarrow> Gave_Up e);
               r = fst (bindS (out_item env closing []) (\<lambda>_. out_flush) r)
           in case last_word (sd_replies r) of
                Some e \<Rightarrow> (r, e)
              | None \<Rightarrow> (r, bindE sent (\<lambda>_. Inl copy_cut))))"

end
