(* ===== verification/Koh_Send_Proofs.thy ===== *)
theory Koh_Send_Proofs
  imports Koh_Send Koh_Receive_Proofs "HOL-Library.Sublist"
begin

text \<open>
  What a sending end writes is a sentence of the copy's protocol, whatever the system says and the
  receiver replies: \<open>speak\<close> is the protocol, an item at a time.
\<close>

section \<open>The protocol\<close>

text \<open>How deep in directories the sender is, the headers that await an answer, and whether a file's bytes are
  under way; or that it has said its last.\<close>

datatype talk = Saying nat "file_id list" bool | Said

definition speak :: "bool \<Rightarrow> talk \<Rightarrow> item \<times> byte list \<Rightarrow> talk option" where
  "speak dry t = (\<lambda>(it, data).
     case t of
       Said \<Rightarrow> None
     | Saying d asked sending \<Rightarrow>
         (case it of
            Chunk_Of len \<Rightarrow> if sending \<and> length data = data_len len \<and> data \<noteq> [] then Some t else None
          | _ \<Rightarrow> if data \<noteq> [] then None else
          (case it of
            Gave_Up _ \<Rightarrow> Some Said
          | Sent_All \<Rightarrow> if sending then Some (Saying d asked False) else None
          | _ \<Rightarrow> if sending then None else
          (case it of
            Dir _ _ _ \<Rightarrow> if d < MAX_DEPTH then Some (Saying (Suc d) asked False) else None
          | Contents _ _ \<Rightarrow> if d < MAX_DEPTH then Some (Saying (Suc d) asked False) else None
          | End_Dir \<Rightarrow> if 0 < d then Some (Saying (d - 1) asked False) else None
          | File h \<Rightarrow>
              if length asked < WINDOW then Some (Saying d (h_id h # filter (\<lambda>i. i \<noteq> h_id h) asked) False) else None
          | Symlink _ _ \<Rightarrow> Some t
          | Skipped _ \<Rightarrow> Some t
          | Same i \<Rightarrow> if i \<in> set asked then Some (Saying d (filter (\<lambda>j. j \<noteq> i) asked) False) else None
          | Differs i _ \<Rightarrow>
              if dry \<and> i \<in> set asked then Some (Saying d (filter (\<lambda>j. j \<noteq> i) asked) False) else None
          | Data_From i _ \<Rightarrow>
              if \<not> dry \<and> i \<in> set asked then Some (Saying d (filter (\<lambda>j. j \<noteq> i) asked) True) else None
          | All_Done \<Rightarrow> if d = 0 \<and> asked = [] then Some Said else None
          | _ \<Rightarrow> None))))"

fun speaks :: "bool \<Rightarrow> talk \<Rightarrow> (item \<times> byte list) list \<Rightarrow> talk option" where
  "speaks dry t [] = Some t"
| "speaks dry t (x # xs) = Option.bind (speak dry t x) (\<lambda>t. speaks dry t xs)"

lemma speaks_snoc: "speaks dry t (xs @ [x]) = Option.bind (speaks dry t xs) (\<lambda>t. speak dry t x)"
  by (induction dry t xs rule: speaks.induct) (auto simp: Option.bind_assoc split: bind_splits)

definition said :: "('s, 'fd) send_env \<Rightarrow> (item \<times> byte list) list \<Rightarrow> byte list" where
  "said env its =
     concat (map (\<lambda>(it, data). (case encode (se_encode env) it MAX_ITEM of Inl _ \<Rightarrow> [] | Inr head \<Rightarrow> head) @ data) its)"

lemma said_snoc:
  "encode (se_encode env) it MAX_ITEM = Inr head \<Longrightarrow> said env (its @ [(it, data)]) = said env its @ head @ data"
  by (simp add: said_def)

section \<open>What a sender has said\<close>

definition most_message :: nat where "most_message = CHUNK + MAX_ITEM + 4"

definition talks :: "('s, 'fd) send_env \<Rightarrow> copy_reply option list \<Rightarrow> talk \<Rightarrow> ('s, 'fd) sender \<Rightarrow> bool" where
  "talks env replies t r \<longleftrightarrow>
     (\<exists>its. speaks (o_dry_run (se_opts env)) (Saying 0 [] False) its = Some t \<and>
       (concat (sd_sent r) @ sd_buf r = said env its \<or> sd_room r = 0 \<and> prefix (concat (sd_sent r)) (said env its))) \<and>
     (\<forall>m\<in>set (sd_sent r). m \<noteq> [] \<and> length m \<le> most_message) \<and> length (sd_buf r) \<le> most_message \<and>
     set (sd_replies r) \<subseteq> set replies \<and>
     (\<forall>m. sd_over r = Some (Inr m) \<longrightarrow> Some (End_Copy (Inr m)) \<in> set replies)"

definition still :: "('s, 'fd) send_env \<Rightarrow> copy_reply option list \<Rightarrow> ('s, 'fd) sender \<Rightarrow> bool" where
  "still env replies r \<longleftrightarrow> (\<exists>d asked sending. talks env replies (Saying d asked sending) r)"

text \<open>Between files: the headers unanswered are those the sender holds, \<open>n\<close> at most.\<close>

definition quiet :: "('s, 'fd) send_env \<Rightarrow> copy_reply option list \<Rightarrow> nat \<Rightarrow> nat \<Rightarrow> ('s, 'fd) sender \<Rightarrow> bool" where
  "quiet env replies d n r \<longleftrightarrow>
     talks env replies (Saying d (map fst (sd_pending r)) False) r \<and> length (sd_pending r) \<le> n"

definition at_talk ::
    "('s, 'fd) send_env \<Rightarrow> copy_reply option list \<Rightarrow> talk \<Rightarrow> (file_id \<times> 'fd \<times> path) list \<Rightarrow> ('s, 'fd) sender \<Rightarrow> bool" where
  "at_talk env replies t pend r \<longleftrightarrow> talks env replies t r \<and> sd_pending r = pend"

lemma talks_still: "talks env replies (Saying d asked sending) r \<Longrightarrow> still env replies r"
  by (auto simp: still_def)

lemma quiet_still: "quiet env replies d n r \<Longrightarrow> still env replies r"
  by (auto simp: quiet_def intro: talks_still)

lemma talks_frame [simp]:
  "talks env replies t (r\<lparr>sd_os := s\<rparr>) = talks env replies t r"
  "talks env replies t (r\<lparr>sd_pending := p\<rparr>) = talks env replies t r"
  "talks env replies t (r\<lparr>sd_next := k\<rparr>) = talks env replies t r"
  "talks env replies t (r\<lparr>sd_tree := q\<rparr>) = talks env replies t r"
  by (simp_all add: talks_def)

section \<open>What each operation keeps\<close>

lemma holds_src:
  assumes "\<And>r s. P (r\<lparr>sd_os := s\<rparr>) = P r"
  shows "holds P (on_src path m) (\<lambda>_. P) P"
  using assms by (auto simp: holds_def on_src_def split: prod.splits sum.splits)

lemma holds_src_bind:
  assumes "\<And>r s. P (r\<lparr>sd_os := s\<rparr>) = P r" "\<And>r. P r \<Longrightarrow> E r" "\<And>a. holds P (f a) Q E"
  shows "holds P (bindS (on_src path m) f) Q E"
  by (rule holds_bind [OF holds_weaken [OF holds_src [OF assms(1)]] assms(3)]) (auto intro: assms(2))

lemma holds_change: "(\<And>r. P r \<Longrightarrow> Q () (f r)) \<Longrightarrow> holds P (changeS f) Q E"
  by (simp add: holds_def changeS_def)

lemma talks_flush:
  "holds (at_talk env replies (Saying d asked sending) pend) out_flush
     (\<lambda>_. at_talk env replies (Saying d asked sending) pend) (still env replies)"
proof (unfold holds_def, intro allI impI)
  fix r assume at: "at_talk env replies (Saying d asked sending) pend r"
  then have t: "talks env replies (Saying d asked sending) r" and p: "sd_pending r = pend" by (simp_all add: at_talk_def)
  then obtain its where its: "speaks (o_dry_run (se_opts env)) (Saying 0 [] False) its = Some (Saying d asked sending)"
    "concat (sd_sent r) @ sd_buf r = said env its \<or> sd_room r = 0 \<and> prefix (concat (sd_sent r)) (said env its)"
    by (auto simp: talks_def)
  consider (none) "sd_buf r = []" | (gone) "sd_buf r \<noteq> []" "sd_room r = 0" | (sent) "sd_buf r \<noteq> []" "sd_room r \<noteq> 0" by blast
  then show "case out_flush r of (s', x) \<Rightarrow> (case x of Inl _ \<Rightarrow> still env replies s'
      | Inr a \<Rightarrow> at_talk env replies (Saying d asked sending) pend s')"
  proof cases
    case none
    then show ?thesis using at by (simp add: out_flush_def)
  next
    case gone
    have "prefix (concat (sd_sent r)) (said env its)" using its(2) by (metis prefixI)
    then have "talks env replies (Saying d asked sending) (r\<lparr>sd_buf := []\<rparr>)"
      using t its(1) gone(2) by (auto simp: talks_def)
    then show ?thesis using gone by (simp add: out_flush_def talks_still)
  next
    case sent
    then have "talks env replies (Saying d asked sending) (r\<lparr>sd_sent := sd_sent r @ [sd_buf r], sd_buf := [], sd_room := sd_room r - 1\<rparr>)"
      using t its by (auto simp: talks_def)
    then show ?thesis using sent p by (simp add: out_flush_def at_talk_def)
  qed
qed

lemma head_short: "encode postcard it MAX_ITEM = Inr head \<Longrightarrow> length head \<le> MAX_ITEM + 4"
  by (auto simp: encode_def Let_def split: if_splits)

lemma talks_add:
  assumes "talks env replies t r" "encode (se_encode env) it MAX_ITEM = Inr head"
    and "speak (o_dry_run (se_opts env)) t (it, data) = Some t'"
    and "length (sd_buf r @ head @ data) \<le> most_message"
  shows "talks env replies t' (r\<lparr>sd_buf := sd_buf r @ head @ data\<rparr>)"
proof -
  obtain its where its: "speaks (o_dry_run (se_opts env)) (Saying 0 [] False) its = Some t"
    "concat (sd_sent r) @ sd_buf r = said env its \<or> sd_room r = 0 \<and> prefix (concat (sd_sent r)) (said env its)"
    using assms(1) by (auto simp: talks_def)
  have "speaks (o_dry_run (se_opts env)) (Saying 0 [] False) (its @ [(it, data)]) = Some t'"
    using its(1) assms(3) by (simp add: speaks_snoc)
  moreover have "concat (sd_sent r) @ (sd_buf r @ head @ data) = said env (its @ [(it, data)]) \<or>
      sd_room r = 0 \<and> prefix (concat (sd_sent r)) (said env (its @ [(it, data)]))"
    using its(2) assms(2) by (auto simp: said_snoc)
  ultimately show ?thesis using assms(1,4) by (auto simp: talks_def)
qed

lemma talks_item:
  assumes "speak (o_dry_run (se_opts env)) (Saying d asked sending) (it, data) = Some t'" "length data \<le> CHUNK"
  shows "holds (at_talk env replies (Saying d asked sending) pend) (out_item env it data)
     (\<lambda>_. at_talk env replies t' pend) (still env replies)"
proof (cases "encode (se_encode env) it MAX_ITEM")
  case (Inl e)
  then show ?thesis by (auto simp: out_item_def at_talk_def intro!: holds_fail talks_still)
next
  case (Inr head)
  let ?at = "at_talk env replies (Saying d asked sending) pend"
  let ?small = "\<lambda>r. length (sd_buf r @ head @ data) \<le> most_message"
  have room: "holds ?at (\<lambda>r. if CHUNK < sat_add64 (sat_add64 (length (sd_buf r)) (length head)) (length data)
      then out_flush r else (r, Inr ())) (\<lambda>_ r. ?at r \<and> ?small r) (still env replies)"
  proof (unfold holds_def, intro allI impI)
    fix r assume at: "?at r"
    show "case (if CHUNK < sat_add64 (sat_add64 (length (sd_buf r)) (length head)) (length data)
        then out_flush r else (r, Inr ())) of (s', x) \<Rightarrow> (case x of Inl _ \<Rightarrow> still env replies s' | Inr _ \<Rightarrow> ?at s' \<and> ?small s')"
    proof (cases "CHUNK < sat_add64 (sat_add64 (length (sd_buf r)) (length head)) (length data)")
      case True
      have "sd_buf (fst (out_flush r)) = []" by (simp add: out_flush_def)
      then show ?thesis
        using True holds_at [OF talks_flush at] head_short [OF Inr] assms(2)
        by (auto simp: most_message_def split: prod.splits sum.splits)
    next
      case False
      then have "length (sd_buf r) + length head + length data \<le> CHUNK"
        by (simp add: sat_add_def CHUNK_def u64_max_def split: if_splits)
      then show ?thesis using False at by (simp add: most_message_def)
    qed
  qed
  have add: "holds (\<lambda>r. ?at r \<and> ?small r) (changeS (\<lambda>r. r\<lparr>sd_buf := sd_buf r @ head @ data\<rparr>))
      (\<lambda>_. at_talk env replies t' pend) (still env replies)"
    using talks_add [OF _ Inr assms(1)] by (intro holds_change) (simp add: at_talk_def)
  show ?thesis unfolding out_item_def Inr sum.case by (rule holds_bind [OF room add])
qed


lemma at_talk_os [simp]: "at_talk env replies t pend (r\<lparr>sd_os := s\<rparr>) = at_talk env replies t pend r"
  by (simp add: at_talk_def)

lemma at_talk_still: "at_talk env replies (Saying d asked sending) pend r \<Longrightarrow> still env replies r"
  by (auto simp: at_talk_def intro: talks_still)

text \<open>A read gives what the buffer holds at most.\<close>

lemma file_read_short: "file_read env s file at = Inr data \<Longrightarrow> length data \<le> CHUNK"
  by (cases "se_read_at env s file at") (auto simp: file_read_def split: if_splits)

lemma holds_file_read:
  assumes "\<And>r s. P (r\<lparr>sd_os := s\<rparr>) = P r" "\<And>r. P r \<Longrightarrow> E r"
    and "\<And>data. length data \<le> CHUNK \<Longrightarrow> holds P (f data) Q E"
  shows "holds P (bindS (on_src path (readS (\<lambda>s. file_read env s file at))) f) Q E"
proof (rule holds_bind)
  show "holds P (on_src path (readS (\<lambda>s. file_read env s file at))) (\<lambda>data r. length data \<le> CHUNK \<and> P r) E"
  proof (unfold holds_def, intro allI impI)
    fix r assume "P r"
    then show "case on_src path (readS (\<lambda>s. file_read env s file at)) r of (s', x) \<Rightarrow>
        (case x of Inl _ \<Rightarrow> E s' | Inr data \<Rightarrow> length data \<le> CHUNK \<and> P s')"
      using assms(1) [where r = r] assms(2) file_read_short [of env "sd_os r"]
      by (cases "file_read env (sd_os r) file at") (auto simp: on_src_def readS_def)
  qed
  show "holds (\<lambda>r. length data \<le> CHUNK \<and> P r) (f data) Q E" for data
    by (rule holds_assuming) (rule assms(3))
qed

lemma talks_chunks:
  "holds (at_talk env replies (Saying d asked True) pend) (sd_chunks env n file path at)
     (\<lambda>_. at_talk env replies (Saying d asked True) pend) (still env replies)"
proof (induction n arbitrary: at)
  case 0
  show ?case by (auto intro!: holds_fail at_talk_still)
next
  case (Suc n)
  show ?case unfolding sd_chunks.simps
  proof (rule holds_file_read)
    fix data :: "byte list" assume short: "length data \<le> CHUNK"
    show "holds (at_talk env replies (Saying d asked True) pend)
      (if data = [] then returnS ()
       else case data_len_new (length data) of None \<Rightarrow> failS (failure_new F_Other path)
       | Some len \<Rightarrow> bindS (out_item env (Chunk_Of len) data) (\<lambda>_. sd_chunks env n file path (sat_add64 at (length data))))
      (\<lambda>_. at_talk env replies (Saying d asked True) pend) (still env replies)"
    proof (cases "data = []")
      case True
      then show ?thesis by (simp add: holds_return)
    next
      case False
      then have len: "data_len_new (length data) = Some (DataLen (length data))"
        using short by (cases data) (auto simp: data_len_new_def)
      have "speak (o_dry_run (se_opts env)) (Saying d asked True) (Chunk_Of (DataLen (length data)), data) = Some (Saying d asked True)"
        using False by (simp add: speak_def)
      note item = talks_item [OF this short]
      show ?thesis using False len holds_bind [OF item Suc.IH] by simp
    qed
  qed (auto intro: at_talk_still)
qed

lemma talks_answer_with:
  assumes "i \<in> set asked"
  shows "holds (at_talk env replies (Saying d asked False) pend) (answer_with env file path i src)
     (\<lambda>_. at_talk env replies (Saying d (filter (\<lambda>j. j \<noteq> i) asked) False) pend) (still env replies)"
proof -
  note item = talks_item [where env = env and d = d and data = "[]", simplified]
  show ?thesis
  proof (cases src)
    case None
    have "speak (o_dry_run (se_opts env)) (Saying d asked False) (Same i, []) =
        Some (Saying d (filter (\<lambda>j. j \<noteq> i) asked) False)"
      using assms by (simp add: speak_def)
    from item [OF this] show ?thesis using None by (simp add: answer_with_def)
  next
    case (Some at)
    show ?thesis
    proof (cases "o_dry_run (se_opts env)")
      case True
      have "speak (o_dry_run (se_opts env)) (Saying d asked False) (Differs i at, []) =
          Some (Saying d (filter (\<lambda>j. j \<noteq> i) asked) False)"
        using assms True by (simp add: speak_def)
      from item [OF this] show ?thesis using Some True by (simp add: answer_with_def)
    next
      case False
      have "speak (o_dry_run (se_opts env)) (Saying d asked False) (Data_From i at, []) =
          Some (Saying d (filter (\<lambda>j. j \<noteq> i) asked) True)"
        using assms False by (simp add: speak_def)
      note begins = item [OF this]
      have "speak (o_dry_run (se_opts env)) (Saying d (filter (\<lambda>j. j \<noteq> i) asked) True) (Sent_All, []) =
          Some (Saying d (filter (\<lambda>j. j \<noteq> i) asked) False)"
        by (simp add: speak_def)
      note ends = item [OF this]
      have "holds (at_talk env replies (Saying d asked False) pend)
        (bindS (out_item env (Data_From i at) []) (\<lambda>_. bindS (sd_chunks env (Suc u64_max) file path at) (\<lambda>_. out_item env Sent_All [])))
        (\<lambda>_. at_talk env replies (Saying d (filter (\<lambda>j. j \<noteq> i) asked) False) pend) (still env replies)"
        by (rule holds_bind [OF begins], rule holds_bind [OF talks_chunks], rule ends)
      then show ?thesis using Some False by (simp only: answer_with_def option.case if_False)
    qed
  qed
qed

lemma talks_answer_from:
  "holds (at_talk env replies (Saying d asked sending) pend) (answer_from env file path a)
     (\<lambda>_. at_talk env replies (Saying d asked sending) pend) (still env replies)"
  unfolding answer_from_def Let_def
  by (cases a; simp split: option.split)
    (auto intro!: holds_return holds_src_bind intro: at_talk_still)

lemma filter_fst: "map fst (filter (\<lambda>p. fst p \<noteq> i) ps) = filter (\<lambda>j. j \<noteq> i) (map fst ps)"
  by (induction ps) auto

lemma quiet_answer:
  "holds (quiet env replies d n) (sd_answer env a)
     (\<lambda>_. quiet env replies d (n - 1)) (still env replies)"
proof (unfold holds_def, intro allI impI)
  fix r assume q: "quiet env replies d n r"
  let ?i = "answer_id a"
  let ?left = "filter (\<lambda>p. fst p \<noteq> ?i) (sd_pending r)"
  show "case sd_answer env a r of (s', x) \<Rightarrow> (case x of Inl _ \<Rightarrow> still env replies s' | Inr _ \<Rightarrow> quiet env replies d (n - 1) s')"
  proof (cases "map_of (sd_pending r) ?i")
    case None
    then show ?thesis using quiet_still [OF q] by (simp add: sd_answer_def)
  next
    case (Some p)
    obtain fd path where p: "p = (fd, path)" by (rule prod.exhaust)
    have i: "?i \<in> set (map fst (sd_pending r))" "(?i, p) \<in> set (sd_pending r)"
      using Some by (force dest: map_of_SomeD)+
    have "length ?left < length (sd_pending r)"
      using i(2) by (intro length_filter_less) auto
    then have less: "length ?left \<le> n - 1" using q unfolding quiet_def by linarith
    have at: "at_talk env replies (Saying d (map fst (sd_pending r)) False) ?left (r\<lparr>sd_pending := ?left\<rparr>)"
      using q by (simp add: quiet_def at_talk_def)
    have "holds (at_talk env replies (Saying d (map fst (sd_pending r)) False) ?left)
        (bindS (answer_from env fd path a) (answer_with env fd path ?i))
        (\<lambda>_. at_talk env replies (Saying d (filter (\<lambda>j. j \<noteq> ?i) (map fst (sd_pending r))) False) ?left) (still env replies)"
      by (rule holds_bind [OF talks_answer_from talks_answer_with [OF i(1)]])
    from holds_at [OF this at] show ?thesis
      using Some p less by (auto simp: sd_answer_def quiet_def at_talk_def filter_fst split: prod.splits sum.splits)
  qed
qed

lemma quiet_mono: "quiet env replies d n r \<Longrightarrow> n \<le> m \<Longrightarrow> quiet env replies d m r"
  by (simp add: quiet_def)

text \<open>A change of what is still to be heard.\<close>

lemma quiet_replies: "quiet env replies d n r \<Longrightarrow> set rs \<subseteq> set replies \<Longrightarrow> quiet env replies d n (r\<lparr>sd_replies := rs\<rparr>)"
  by (simp add: quiet_def talks_def)

lemma quiet_take:
  "set rs \<subseteq> set replies \<Longrightarrow>
    holds (quiet env replies d n) (take_answers env rs) (\<lambda>_. quiet env replies d n) (still env replies)"
proof (induction env rs rule: take_answers.induct)
  case (1 env)
  then show ?case by (auto intro!: holds_change quiet_replies)
next
  case (2 env rs)
  then show ?case by (auto intro!: holds_change quiet_replies)
next
  case (3 env e rs)
  have "still env replies (r\<lparr>sd_replies := rs, sd_over := Some e\<rparr>)" if "quiet env replies d n r" for r
    using that 3 by (auto simp: quiet_def talks_def intro!: talks_still [unfolded talks_def])
  then show ?case by (auto intro!: holds_bind [OF holds_change [where Q = "\<lambda>_. still env replies"] holds_fail])
next
  case (4 env a rs)
  then have rs: "set rs \<subseteq> set replies" by simp
  have "holds (quiet env replies d n) (sd_answer env a) (\<lambda>_. quiet env replies d n) (still env replies)"
    by (rule holds_weaken [OF quiet_answer]) (auto intro: quiet_mono)
  then have "holds (quiet env replies d n) (bindS (sd_answer env a) (\<lambda>_. take_answers env rs))
      (\<lambda>_. quiet env replies d n) (still env replies)"
    by (rule holds_bind) (rule "4.IH" [OF rs])
  then show ?case
    by (auto intro!: holds_bind [OF holds_change [where Q = "\<lambda>_. quiet env replies d n"]] quiet_replies rs)
qed


lemma quiet_wait:
  "holds (quiet env replies d n) (wait_answers env) (\<lambda>_. quiet env replies d (n - 1)) (still env replies)"
proof (unfold holds_def, intro allI impI)
  fix r assume q: "quiet env replies d n r"
  let ?rs = "dropWhile (\<lambda>x. x = None) (sd_replies r)"
  have heard: "set ?rs \<subseteq> set replies"
    using q set_dropWhileD by (fastforce simp: quiet_def talks_def)
  show "case wait_answers env r of (s', x) \<Rightarrow> (case x of Inl _ \<Rightarrow> still env replies s' | Inr _ \<Rightarrow> quiet env replies d (n - 1) s')"
  proof (cases ?rs)
    case Nil
    have "still env replies (r\<lparr>sd_replies := [], sd_over := Some (Inl copy_cut)\<rparr>)"
      using q by (auto simp: quiet_def talks_def intro!: talks_still [unfolded talks_def])
    then show ?thesis using Nil by (simp add: wait_answers_def bindS_def changeS_def failS_def)
  next
    case (Cons x rs)
    have "x \<noteq> None" using hd_dropWhile [of "\<lambda>x. x = None" "sd_replies r"] Cons by auto
    then consider (ended) e where "x = Some (End_Copy e)" | (answer) a where "x = Some (Answer a)"
      by (metis copy_reply.exhaust option.exhaust)
    then show ?thesis
    proof cases
      case (ended e)
      have "wait_answers env r = take_answers env (x # rs) r"
        using Cons by (simp add: wait_answers_def del: dropWhile_eq_Nil_conv)
      moreover have "snd (take_answers env (x # rs) r) = Inl copy_cut"
        by (simp add: ended bindS_def changeS_def failS_def)
      ultimately show ?thesis
        using holds_at [OF quiet_take q, of "x # rs"] heard Cons
        by (auto split: prod.splits sum.splits)
    next
      case (answer a)
      have rs: "set rs \<subseteq> set replies" using heard Cons by simp
      have "holds (quiet env replies d n) (bindS (sd_answer env a) (\<lambda>_. take_answers env rs))
          (\<lambda>_. quiet env replies d (n - 1)) (still env replies)"
        by (rule holds_bind [OF quiet_answer quiet_take [OF rs]])
      from holds_at [OF this quiet_replies [OF q rs]] show ?thesis
        using Cons answer by (simp add: wait_answers_def bindS_def changeS_def del: dropWhile_eq_Nil_conv)
    qed
  qed
qed

text \<open>What says nothing of files does the same between files.\<close>

lemma quiet_of:
  assumes "\<And>pend. holds (at_talk env replies (Saying d (map fst pend) False) pend) m
      (\<lambda>_. at_talk env replies (Saying d' (map fst pend) False) pend) (still env replies)"
  shows "holds (quiet env replies d n) m (\<lambda>_. quiet env replies d' n) (still env replies)"
proof (unfold holds_def, intro allI impI)
  fix r assume q: "quiet env replies d n r"
  then have "at_talk env replies (Saying d (map fst (sd_pending r)) False) (sd_pending r) r"
    by (simp add: quiet_def at_talk_def)
  from holds_at [OF assms this] show "case m r of (s', x) \<Rightarrow>
      (case x of Inl _ \<Rightarrow> still env replies s' | Inr _ \<Rightarrow> quiet env replies d' n s')"
    using q by (auto simp: quiet_def at_talk_def split: prod.splits sum.splits)
qed

lemma quiet_item:
  "(\<And>asked. speak (o_dry_run (se_opts env)) (Saying d asked False) (it, []) = Some (Saying d' asked False)) \<Longrightarrow>
    holds (quiet env replies d n) (out_item env it []) (\<lambda>_. quiet env replies d' n) (still env replies)"
  by (rule quiet_of, rule talks_item) simp_all

lemma quiet_heard: "quiet env replies d n r \<Longrightarrow> set (sd_replies r) \<subseteq> set replies"
  by (simp add: quiet_def talks_def)

lemma bindS_change: "bindS (changeS f) g r = g () (f r)"
  by (simp add: bindS_def changeS_def)

lemma quiet_due:
  "holds (quiet env replies d (Suc n)) (answers_due env True) (\<lambda>_. quiet env replies d n) (still env replies)"
  "holds (quiet env replies d n) (answers_due env False) (\<lambda>_. quiet env replies d n) (still env replies)"
proof -
  show "holds (quiet env replies d (Suc n)) (answers_due env True) (\<lambda>_. quiet env replies d n) (still env replies)"
    unfolding answers_due_def if_True
    by (rule holds_bind [OF quiet_of [OF talks_flush]], rule quiet_wait [where n = "Suc n", simplified])
  have "case take_answers env (sd_replies r) r of (s', x) \<Rightarrow>
      (case x of Inl _ \<Rightarrow> still env replies s' | Inr _ \<Rightarrow> quiet env replies d n s')"
    if q: "quiet env replies d n r" for r
    by (rule holds_at [OF quiet_take [OF quiet_heard [OF q]] q])
  then show "holds (quiet env replies d n) (answers_due env False) (\<lambda>_. quiet env replies d n) (still env replies)"
    by (simp add: answers_due_def holds_def)
qed

lemma quiet_os [simp]: "quiet env replies d n (r\<lparr>sd_os := s\<rparr>) = quiet env replies d n r"
  by (simp add: quiet_def)

section \<open>Entries\<close>

abbreviation few :: nat where "few \<equiv> WINDOW - 1"

lemma quiet_file:
  "holds (quiet env replies d few) (sd_file env fd name path) (\<lambda>_. quiet env replies d few) (still env replies)"
  unfolding sd_file_def
proof (rule holds_src_bind)
  fix meta
  let ?m = "\<lambda>i h. bindS (changeS (\<lambda>r. r\<lparr>sd_next := i + 1\<rparr>)) (\<lambda>_.
      bindS (out_item env (File h) []) (\<lambda>_.
      bindS (changeS (\<lambda>r. r\<lparr>sd_pending := (i, fd, path) # filter (\<lambda>p. fst p \<noteq> i) (sd_pending r)\<rparr>)) (\<lambda>_.
      (\<lambda>r. answers_due env (WINDOW \<le> length (sd_pending r)) r))))"
  have go: "case ?m (h_id h) h r of (s', x) \<Rightarrow>
      (case x of Inl _ \<Rightarrow> still env replies s' | Inr _ \<Rightarrow> quiet env replies d few s')"
    if q: "quiet env replies d few r" for h r
  proof -
    let ?A = "map fst (sd_pending r)" and ?B = "h_id h # filter (\<lambda>j. j \<noteq> h_id h) (map fst (sd_pending r))"
    let ?p = "(h_id h, fd, path) # filter (\<lambda>p. fst p \<noteq> h_id h) (sd_pending r)"
    have len: "length (sd_pending r) < WINDOW"
      using q by (simp add: quiet_def WINDOW_def)
    have "length (filter (\<lambda>p. fst p \<noteq> h_id h) (sd_pending r)) < WINDOW"
      by (rule le_less_trans [OF length_filter_le len])
    then have p: "length ?p \<le> WINDOW" "map fst ?p = ?B" by (simp_all add: filter_fst)
    have "speak (o_dry_run (se_opts env)) (Saying d ?A False) (File h, []) = Some (Saying d ?B False)"
      using len by (simp add: speak_def)
    note head = talks_item [OF this, of replies "sd_pending r", simplified]
    have hold: "holds (at_talk env replies (Saying d ?B False) (sd_pending r))
        (changeS (\<lambda>r. r\<lparr>sd_pending := (h_id h, fd, path) # filter (\<lambda>p. fst p \<noteq> h_id h) (sd_pending r)\<rparr>))
        (\<lambda>_. quiet env replies d WINDOW) (still env replies)"
      using p by (intro holds_change) (simp add: at_talk_def quiet_def)
    have due: "holds (quiet env replies d WINDOW) (\<lambda>r. answers_due env (WINDOW \<le> length (sd_pending r)) r)
        (\<lambda>_. quiet env replies d few) (still env replies)"
    proof (unfold holds_def, intro allI impI)
      fix r assume q: "quiet env replies d WINDOW r"
      show "case answers_due env (WINDOW \<le> length (sd_pending r)) r of (s', x) \<Rightarrow>
          (case x of Inl _ \<Rightarrow> still env replies s' | Inr _ \<Rightarrow> quiet env replies d few s')"
      proof (cases "WINDOW \<le> length (sd_pending r)")
        case True
        then show ?thesis
          using holds_at [OF quiet_due(1) [of env replies d few]] q by (simp add: WINDOW_def)
      next
        case False
        then have "quiet env replies d few r" using q by (simp add: quiet_def WINDOW_def)
        then show ?thesis using holds_at [OF quiet_due(2)] False by (simp del: One_nat_def)
      qed
    qed
    have "at_talk env replies (Saying d ?A False) (sd_pending r) (r\<lparr>sd_next := h_id h + 1\<rparr>)"
      using q by (simp add: quiet_def at_talk_def)
    from holds_at [OF holds_bind [OF head holds_bind [OF hold due]] this]
    show ?thesis by (simp only: bindS_change)
  qed
  show "holds (quiet env replies d few) (\<lambda>r. let i = sd_next r;
        header = \<lparr>h_id = i, h_name = name,
                  h_mode = (case mode_new (e_mode meta) of None \<Rightarrow> Mode 0x1A4 | Some m \<Rightarrow> m),
                  h_mtime = e_mtime meta, h_size = e_size meta\<rparr>
      in ?m i header r) (\<lambda>_. quiet env replies d few) (still env replies)"
  proof (unfold holds_def, intro allI impI)
    fix r assume q: "quiet env replies d few r"
    let ?h = "\<lparr>h_id = sd_next r, h_name = name,
        h_mode = (case mode_new (e_mode meta) of None \<Rightarrow> Mode 0x1A4 | Some m \<Rightarrow> m),
        h_mtime = e_mtime meta, h_size = e_size meta\<rparr>"
    show "case (let i = sd_next r;
        header = \<lparr>h_id = i, h_name = name,
                  h_mode = (case mode_new (e_mode meta) of None \<Rightarrow> Mode 0x1A4 | Some m \<Rightarrow> m),
                  h_mtime = e_mtime meta, h_size = e_size meta\<rparr>
      in ?m i header r) of (s', x) \<Rightarrow> (case x of Inl _ \<Rightarrow> still env replies s' | Inr _ \<Rightarrow> quiet env replies d few s')"
      using go [OF q, of ?h] by (simp only: Let_def file_header.simps)
  qed
qed (auto intro: quiet_still)


text \<open>An operation that keeps the sender between files, as deep as it was.\<close>

abbreviation sends_on ::
    "('s, 'fd) send_env \<Rightarrow> copy_reply option list \<Rightarrow> nat \<Rightarrow> ('s, 'fd, unit) sact \<Rightarrow> bool" where
  "sends_on env replies d m \<equiv> holds (quiet env replies d few) m (\<lambda>_. quiet env replies d few) (still env replies)"

lemma sends_fail: "sends_on env replies d (failS e)"
  by (auto intro!: holds_fail intro: quiet_still)

lemma sends_src: "(\<And>a. sends_on env replies d (f a)) \<Longrightarrow> sends_on env replies d (bindS (on_src path m) f)"
  by (rule holds_src_bind) (auto intro: quiet_still)

lemma sends_entry:
  assumes "\<And>n rel dir. sends_on env replies d (send_sub n rel dir)"
  shows "sends_on env replies d (sd_entry env send_sub is_top dir name rel)"
proof -
  have link: "sends_on env replies d (bindS (out_item env (Symlink name target) []) (\<lambda>_. answers_due env False))" for target
    by (rule holds_bind [OF quiet_item quiet_due(2)]) (simp add: speak_def)
  have skipped: "sends_on env replies d (out_item env (Skipped name) [])"
    by (rule quiet_item) (simp add: speak_def)
  show ?thesis
    unfolding sd_entry_def Let_def
    by (intro sends_src)
      (auto simp del: One_nat_def split: option.split ekind.split sum.split intro!: sends_src sends_fail assms quiet_file link skipped)
qed

lemma sends_each:
  assumes "\<And>n path. sends_on env replies d (send_entry n path)"
  shows "sends_on env replies d (sd_each env send_entry rel entries)"
proof (induction entries)
  case Nil
  show ?case by (simp add: holds_return)
next
  case (Cons entry entries)
  show ?case
  proof (cases "name_new entry")
    case (Inl e)
    then show ?thesis by (simp add: sends_fail del: One_nat_def)
  next
    case (Inr name)
    have "sends_on env replies d (\<lambda>r. if left_out env (sd_tree r) (rel @ [entry]) (name_bytes name) then (r, Inr ())
        else send_entry name (rel @ [entry]) r)"
      using assms [of name "rel @ [entry]"] by (simp add: holds_def)
    then show ?thesis using Inr holds_bind [OF _ Cons.IH] by (simp del: One_nat_def)
  qed
qed

lemma sends_dir: "d + k \<le> MAX_DEPTH \<Longrightarrow> sends_on env replies d (sd_dir env k is_top name rel dir)"
proof (induction k arbitrary: d is_top name rel dir)
  case 0
  show ?case by (simp add: sends_fail del: One_nat_def)
next
  case (Suc k)
  let ?q = "\<lambda>d. quiet env replies d few"
  have head: "holds (?q d) (out_item env (case name of Some n \<Rightarrow> Dir n m t | None \<Rightarrow> Contents m t) [])
      (\<lambda>_. ?q (Suc d)) (still env replies)" for m t
    using Suc.prems by (intro quiet_item) (auto simp: speak_def split: option.split)
  have tree: "holds (?q (Suc d)) (changeS (\<lambda>r. r\<lparr>sd_tree := (if is_top then rel else sd_tree r)\<rparr>)) (\<lambda>_. ?q (Suc d)) (still env replies)"
    by (intro holds_change) (simp add: quiet_def)
  have each: "sends_on env replies (Suc d) (sd_each env (sd_entry env (\<lambda>n. sd_dir env k False (Some n)) False dir) rel names)" for names
    using Suc.prems by (intro sends_each sends_entry Suc.IH) simp
  have leave: "holds (?q (Suc d)) (out_item env End_Dir []) (\<lambda>_. ?q d) (still env replies)"
    by (rule quiet_item) (simp add: speak_def)
  show ?case unfolding sd_dir.simps Let_def
    by (intro sends_src) (rule holds_bind [OF head], rule holds_bind [OF tree], rule holds_bind [OF each leave])
qed

lemma sends_top: "sends_on env replies 0 (top_dir env name rel dir)" "sends_on env replies 0 (top_entry env dir n rel)"
  unfolding top_dir_def top_entry_def by (intro sends_dir sends_entry; simp)+

lemma sends_source: "sends_on env replies 0 (sd_source env src)"
  unfolding sd_source_def Let_def
  by (cases src)
    (auto simp del: One_nat_def split: sum.split option.split intro!: sends_src sends_fail sends_top quiet_file)

lemma sends_sources: "sends_on env replies 0 (sd_sources env srcs)"
proof (induction srcs)
  case Nil
  show ?case by (simp add: holds_return)
next
  case (Cons src srcs)
  show ?case using holds_bind [OF sends_source Cons.IH] by simp
qed

section \<open>The end\<close>

lemma quiet_rest:
  "holds (quiet env replies 0 n) (sd_rest env (Suc n)) (\<lambda>_ r. quiet env replies 0 0 r) (still env replies)"
proof (induction n)
  case 0
  show ?case by (auto simp: holds_def quiet_def)
next
  case (Suc n)
  have "holds (quiet env replies 0 (Suc n)) (bindS (answers_due env True) (\<lambda>_. sd_rest env (Suc n)))
      (\<lambda>_ r. quiet env replies 0 0 r) (still env replies)"
    by (rule holds_bind [OF quiet_due(1) Suc.IH])
  then show ?case
    unfolding sd_rest.simps(2) [of env "Suc n"] holds_def by (auto simp: quiet_def simp del: sd_rest.simps)
qed

lemma sends_all:
  "holds (quiet env replies 0 few) (sd_all env srcs) (\<lambda>_ r. quiet env replies 0 0 r) (still env replies)"
  unfolding sd_all_def
proof (rule holds_bind [OF sends_sources])
  show "holds (quiet env replies 0 few) (\<lambda>r. sd_rest env (Suc (length (sd_pending r))) r)
      (\<lambda>_ r. quiet env replies 0 0 r) (still env replies)"
  proof (unfold holds_def, intro allI impI)
    fix r assume "quiet env replies 0 few r"
    then have "quiet env replies 0 (length (sd_pending r)) r" by (simp add: quiet_def)
    from holds_at [OF quiet_rest this]
    show "case sd_rest env (Suc (length (sd_pending r))) r of (s', x) \<Rightarrow>
        (case x of Inl _ \<Rightarrow> still env replies s' | Inr _ \<Rightarrow> quiet env replies 0 0 s')" .
  qed
qed

lemma init_quiet: "quiet env replies 0 n (sender_init s room replies)"
proof -
  have "\<exists>its. speaks (o_dry_run (se_opts env)) (Saying 0 [] False) its = Some (Saying 0 [] False) \<and> said env its = []"
    by (rule exI [of _ "[]"]) (simp add: said_def)
  then show ?thesis by (auto simp: quiet_def talks_def sender_init_def)
qed

text \<open>The last item and the flush: said whole where the stream's task takes messages and the item encodes.\<close>

lemma flushed: "sd_buf (fst (out_flush r)) = []" "sd_over (fst (out_flush r)) = sd_over r"
    "sd_replies (fst (out_flush r)) = sd_replies r"
    "snd (out_flush r) = Inl e \<Longrightarrow> sd_room (fst (out_flush r)) = 0"
  by (auto simp: out_flush_def split: if_splits)

lemma talks_flushed: "talks env replies t r \<Longrightarrow> talks env replies t (fst (out_flush r))"
  unfolding talks_def out_flush_def by (cases "sd_buf r = []"; cases "sd_room r = 0") (auto, metis prefixI)

lemma out_item_keeps:
  "sd_over (fst (out_item env it data r)) = sd_over r" "sd_replies (fst (out_item env it data r)) = sd_replies r"
  using flushed(2,3) [of r]
  by (auto simp: out_item_def bindS_def changeS_def failS_def split: sum.splits prod.splits)

lemma out_item_fails:
  "out_item env it data r = (r', Inl e) \<Longrightarrow> length (se_encode env it) \<le> MAX_ITEM \<Longrightarrow> sd_room r' = 0"
  using flushed(4) [of r]
  by (auto simp: out_item_def encode_def bindS_def changeS_def split: sum.splits prod.splits if_splits)

lemma last_said:
  assumes "talks env replies (Saying d asked sending) r"
    and "speak (o_dry_run (se_opts env)) (Saying d asked sending) (it, []) = Some Said"
  defines "r' \<equiv> fst (bindS (out_item env it []) (\<lambda>_. out_flush) r)"
  shows "sd_over r' = sd_over r \<and> sd_replies r' = sd_replies r \<and> (\<exists>t. talks env replies t r' \<and>
    (0 < sd_room r' \<longrightarrow> length (se_encode env it) \<le> MAX_ITEM \<longrightarrow> t = Said \<and> sd_buf r' = []))"
proof -
  obtain r1 x where item: "out_item env it [] r = (r1, x)" by fastforce
  have at: "at_talk env replies (Saying d asked sending) (sd_pending r) r" using assms(1) by (simp add: at_talk_def)
  note kept = holds_at [OF talks_item [OF assms(2), where pend = "sd_pending r" and replies = replies, simplified] at]
  have same: "sd_over r1 = sd_over r" "sd_replies r1 = sd_replies r"
    using out_item_keeps [of env it "[]" r] item by simp_all
  show ?thesis
  proof (cases x)
    case (Inl e)
    then have "still env replies r1" using kept item by simp
    then show ?thesis
      using Inl item same out_item_fails [of env it "[]" r r1 e] by (auto simp: r'_def bindS_def still_def)
  next
    case (Inr u)
    then have "talks env replies Said r1" using kept item by (simp add: at_talk_def)
    then have "talks env replies Said (fst (out_flush r1))" by (rule talks_flushed)
    moreover have "r' = fst (out_flush r1)" using Inr item by (simp add: r'_def bindS_def)
    ultimately show ?thesis using same by (auto simp: flushed(1-3))
  qed
qed

lemma last_word_heard: "last_word rs = Some e \<Longrightarrow> Some (End_Copy e) \<in> set rs"
  by (induction rs rule: last_word.induct) auto

lemma send_talks:
  assumes "send env srcs room replies s = (r, result)"
  shows "\<exists>t. talks env replies t r \<and>
    (sd_over r = None \<longrightarrow> 0 < sd_room r \<longrightarrow> (\<forall>it. length (se_encode env it) \<le> MAX_ITEM) \<longrightarrow> t = Said \<and> sd_buf r = []) \<and>
    (\<forall>m. result = Inr m \<longrightarrow> Some (End_Copy (Inr m)) \<in> set replies)"
proof -
  obtain r1 sent where all: "sd_all env srcs (sender_init s room replies) = (r1, sent)" by fastforce
  have went: "case sent of Inl _ \<Rightarrow> still env replies r1 | Inr _ \<Rightarrow> quiet env replies 0 0 r1"
    using holds_at [OF sends_all init_quiet [of env replies few s room], of srcs] all by simp
  show ?thesis
  proof (cases "sd_over r1")
    case (Some over)
    then have "r = r1" "result = over" using assms all by (simp_all add: send_def)
    moreover have "still env replies r1" using went quiet_still by (auto split: sum.splits)
    ultimately show ?thesis using Some by (auto simp: still_def talks_def)
  next
    case None
    define it where "it = (case sent of Inr _ \<Rightarrow> All_Done | Inl e \<Rightarrow> Gave_Up e)"
    obtain d asked sending where t: "talks env replies (Saying d asked sending) r1"
      "speak (o_dry_run (se_opts env)) (Saying d asked sending) (it, []) = Some Said"
    proof (cases sent)
      case (Inl e)
      then have "still env replies r1" using went by simp
      then show ?thesis using that Inl unfolding still_def it_def by (fastforce simp: speak_def)
    next
      case (Inr u)
      then have "talks env replies (Saying 0 [] False) r1" using went by (auto simp: quiet_def)
      then show ?thesis using that Inr unfolding it_def by (fastforce simp: speak_def)
    qed
    define r2 where "r2 = fst (bindS (out_item env it []) (\<lambda>_. out_flush) r1)"
    note last = last_said [OF t, folded r2_def]
    have heard: "set (sd_replies r2) \<subseteq> set replies" using last by (auto simp: talks_def)
    have r: "r = r2" "result = (case last_word (sd_replies r2) of Some e \<Rightarrow> e | None \<Rightarrow> bindE sent (\<lambda>_. Inl copy_cut))"
      using assms all None by (auto simp: send_def r2_def it_def Let_def split: option.splits)
    have "Some (End_Copy (Inr m)) \<in> set replies" if "result = Inr m" for m
      using that r(2) heard last_word_heard [of "sd_replies r2" "Inr m"] by (auto simp: bindE_Inr_iff split: option.splits)
    moreover have "\<exists>t. talks env replies t r \<and> (sd_over r = None \<longrightarrow> 0 < sd_room r \<longrightarrow>
        (\<forall>it. length (se_encode env it) \<le> MAX_ITEM) \<longrightarrow> t = Said \<and> sd_buf r = [])"
    proof -
      obtain t where "talks env replies t r2" "0 < sd_room r2 \<longrightarrow> length (se_encode env it) \<le> MAX_ITEM \<longrightarrow> t = Said \<and> sd_buf r2 = []"
        using last by auto
      then show ?thesis unfolding r(1) by (intro exI [of _ t]) simp
    qed
    ultimately show ?thesis by auto
  qed
qed


section \<open>The rounds are enough\<close>

lemma chunk_rounds:
  "u64_max - at < n \<Longrightarrow> sd_chunks env (n + j) file path at r = sd_chunks env n file path at r"
proof (induction n arbitrary: at r)
  case (Suc n)
  show ?case
  proof (cases "file_read env (sd_os r) file at")
    case (Inl e)
    then show ?thesis by (simp add: bindS_def on_src_def readS_def)
  next
    case (Inr data)
    show ?thesis
    proof (cases "data = [] \<or> data_len_new (length data) = None")
      case True
      then show ?thesis using Inr by (auto simp: bindS_def on_src_def readS_def returnS_def failS_def)
    next
      case False
      then obtain len where len: "data_len_new (length data) = Some len" and data: "data \<noteq> []" by auto
      have "at < u64_max" using Inr data by (auto simp: file_read_def split: if_splits)
      then have "u64_max - sat_add64 at (length data) < n"
        using Suc.prems data by (cases data) (auto simp: sat_add_def)
      then have "sd_chunks env (n + j) file path (sat_add64 at (length data)) r' =
          sd_chunks env n file path (sat_add64 at (length data)) r'" for r'
        by (rule Suc.IH)
      then show ?thesis using Inr len data by (simp add: bindS_def on_src_def readS_def split: prod.split sum.split)
    qed
  qed
qed simp

lemma rest_rounds: "quiet env replies 0 k r \<Longrightarrow> sd_rest env (Suc k + j) r = sd_rest env (Suc k) r"
proof (induction k arbitrary: r)
  case 0
  then show ?case by (simp add: quiet_def)
next
  case (Suc k)
  obtain r1 x where due: "answers_due env True r = (r1, x)" by fastforce
  show ?case
  proof (cases "sd_pending r = [] \<or> (\<exists>e. x = Inl e)")
    case True
    then show ?thesis using due by (auto simp: bindS_def)
  next
    case False
    then obtain u where x: "x = Inr u" by (cases x) auto
    then have "quiet env replies 0 k r1"
      using holds_at [OF quiet_due(1) Suc.prems] due by simp
    from Suc.IH [OF this] show ?thesis using False due x by (simp add: bindS_def)
  qed
qed

section \<open>A copy sent\<close>

text \<open>C38: A sending end keeps the copy's protocol, whatever the system says and the receiver replies. What it hands to the
  stream's task is, as far as it got, items one after another that make a sentence: directories are entered and left in
  step, within \<open>MAX_DEPTH\<close>; at most \<open>WINDOW\<close> headers await an answer; a file's bytes, that it is the same, or that
  it differs is said once, of a header that awaits it, each chunk as long as it says, and in a dry run no bytes go;
  the end is said once, with every directory left and every header answered, or else why the copy was given
  up. No message is over a chunk and an item. If the receiver did not end the copy and the stream took all,
  the sentence is whole; and a copy is said to have gone well only if the receiver said so.\<close>

theorem senders_keep_the_protocol:
  assumes "send env srcs room replies s = (r, result)"
  shows "\<exists>its t. speaks (o_dry_run (se_opts env)) (Saying 0 [] False) its = Some t \<and>
    prefix (concat (sd_sent r)) (said env its) \<and>
    (\<forall>m\<in>set (sd_sent r). m \<noteq> [] \<and> length m \<le> CHUNK + MAX_ITEM + 4) \<and>
    (sd_over r = None \<longrightarrow> 0 < sd_room r \<longrightarrow> (\<forall>it. length (se_encode env it) \<le> MAX_ITEM) \<longrightarrow>
      t = Said \<and> concat (sd_sent r) = said env its) \<and>
    (\<forall>m. result = Inr m \<longrightarrow> Some (End_Copy (Inr m)) \<in> set replies)"
proof -
  obtain t where t: "talks env replies t r"
    "sd_over r = None \<longrightarrow> 0 < sd_room r \<longrightarrow> (\<forall>it. length (se_encode env it) \<le> MAX_ITEM) \<longrightarrow> t = Said \<and> sd_buf r = []"
    and word: "\<forall>m. result = Inr m \<longrightarrow> Some (End_Copy (Inr m)) \<in> set replies"
    using send_talks [OF assms] by auto
  obtain its where its: "speaks (o_dry_run (se_opts env)) (Saying 0 [] False) its = Some t"
    "concat (sd_sent r) @ sd_buf r = said env its \<or> sd_room r = 0 \<and> prefix (concat (sd_sent r)) (said env its)"
    using t(1) by (auto simp: talks_def)
  show ?thesis
  proof (intro exI [of _ its] exI [of _ t] conjI)
    show "prefix (concat (sd_sent r)) (said env its)" using its(2) by (metis prefixI)
    show "\<forall>m\<in>set (sd_sent r). m \<noteq> [] \<and> length m \<le> CHUNK + MAX_ITEM + 4"
      using t(1) by (simp add: talks_def most_message_def)
    show "sd_over r = None \<longrightarrow> 0 < sd_room r \<longrightarrow> (\<forall>it. length (se_encode env it) \<le> MAX_ITEM) \<longrightarrow>
        t = Said \<and> concat (sd_sent r) = said env its"
      using t(2) its(2) by (metis append_Nil2 less_numeral_extra(3))
  qed (use its(1) word in simp_all)
qed

text \<open>A directory with an empty file in it, sent whole.\<close>

definition one_file :: "(unit, nat) send_env" where
  "one_file = \<lparr>
     se_os = empty_os\<lparr>
       sys_statat := (\<lambda>s d n. Inr \<lparr>st_type = FT_Regular, st_mode = 0x1A4, st_size = 0, st_mtime = 0, st_nsec = 0\<rparr>),
       sys_fstat := (\<lambda>s d. Inr \<lparr>st_type = FT_Regular, st_mode = 0x1A4, st_size = 0, st_mtime = 0, st_nsec = 0\<rparr>),
       sys_read_dir := (\<lambda>s d. Inr [[0x61]])\<rparr>,
     se_open = (\<lambda>p. failS E_Else), se_read_at = (\<lambda>s f at. Inr []),
     se_opts = \<lparr>o_keep_times = False, o_delete = False, o_dry_run = False, o_excludes = Excludes []\<rparr>,
     se_encode = (\<lambda>it. [case it of Contents _ _ \<Rightarrow> 1 | File _ \<Rightarrow> 2 | End_Dir \<Rightarrow> 3 | Data_From _ _ \<Rightarrow> 4 | Sent_All \<Rightarrow> 5
       | All_Done \<Rightarrow> 6 | _ \<Rightarrow> 0])\<rparr>"

lemmas sender_evals = bindS_def on_src_def readS_def stat_of_def fsat_names_def fsat_stat_def entry_of_def
   out_item_def encode_def u32_be_bytes_def out_flush_def changeS_def sd_entry_def sd_file_def open_file_def open_dir_def
   open_dir_path_def name_new_def MAX_FILE_NAME_def mode_new_def time_new_def answers_due_def sender_init_def returnS_def failS_def
   left_out_def excludes_def Let_def MAX_ITEM_def CHUNK_def WINDOW_def u32_max_def strip_prefix_def sat_add_def u64_max_def

lemma one_file_dir:
  "sd_dir one_file (Suc k) True None [] 1 (sender_init () 9 [None, Some (Answer (Want 0 0 None)), None, Some (End_Copy (Inr summary_none))]) =
   (\<lparr>sd_os = (), sd_sent = [], sd_room = 9, sd_buf = [0, 0, 0, 1, 1, 0, 0, 0, 1, 2, 0, 0, 0, 1, 3],
     sd_replies = [Some (Answer (Want 0 0 None)), None, Some (End_Copy (Inr summary_none))],
     sd_pending = [(0, 2, [0x61])], sd_next = 1, sd_tree = [], sd_over = None\<rparr>, Inr ())"
  by (simp add: one_file_def empty_os_def sender_evals)

lemma one_file_chunks: "sd_chunks one_file (Suc n) f p at r = (r, Inr ())"
  by (simp add: one_file_def file_read_def bindS_def on_src_def readS_def returnS_def)

lemma one_file_sel:
  "\<not> o_dry_run (se_opts one_file)"
  "se_encode one_file it = [case it of Contents _ _ \<Rightarrow> 1 | File _ \<Rightarrow> 2 | End_Dir \<Rightarrow> 3 | Data_From _ _ \<Rightarrow> 4 | Sent_All \<Rightarrow> 5
     | All_Done \<Rightarrow> 6 | _ \<Rightarrow> 0]"
  by (simp_all add: one_file_def)

lemma small_u64: "n \<le> 65536 \<Longrightarrow> n \<le> u64_max"
  by (simp add: u64_max_def)

lemma one_file_rest:
  "sd_rest one_file (Suc (Suc 0)) \<lparr>sd_os = (), sd_sent = [], sd_room = 9, sd_buf = [0, 0, 0, 1, 1, 0, 0, 0, 1, 2, 0, 0, 0, 1, 3],
     sd_replies = [Some (Answer (Want 0 0 None)), None, Some (End_Copy (Inr summary_none))],
     sd_pending = [(0, 2, [0x61])], sd_next = 1, sd_tree = [], sd_over = None\<rparr> =
   (\<lparr>sd_os = (), sd_sent = [[0, 0, 0, 1, 1, 0, 0, 0, 1, 2, 0, 0, 0, 1, 3]], sd_room = 8, sd_buf = [0, 0, 0, 1, 4, 0, 0, 0, 1, 5],
     sd_replies = [Some (End_Copy (Inr summary_none))],
     sd_pending = [], sd_next = 1, sd_tree = [], sd_over = None\<rparr>, Inr ())"
  by (simp add: one_file_sel one_file_chunks small_u64 bindS_def out_item_def encode_def u32_be_bytes_def out_flush_def changeS_def
      answers_due_def returnS_def Let_def MAX_ITEM_def CHUNK_def u32_max_def wait_answers_def sd_answer_def answer_id_def
      answer_from_def answer_with_def del: sd_chunks.simps)

lemma one_file_sent:
  "\<exists>r. send one_file [Source_Beneath [0x2f] []] 9 [None, Some (Answer (Want 0 0 None)), None, Some (End_Copy (Inr summary_none))] () =
      (r, Inr summary_none) \<and>
    sd_sent r = [[0, 0, 0, 1, 1, 0, 0, 0, 1, 2, 0, 0, 0, 1, 3], [0, 0, 0, 1, 4, 0, 0, 0, 1, 5, 0, 0, 0, 1, 6]] \<and>
    sd_over r = None \<and> sd_room r = 7"
proof -
  let ?init = "sender_init () 9 [None, Some (Answer (Want 0 0 None)), None, Some (End_Copy (Inr summary_none))]"
  have "top_dir one_file None [] 1 = sd_dir one_file (Suc 127) True None [] 1"
    by (simp add: top_dir_def MAX_DEPTH_def)
  then have dir: "top_dir one_file None [] 1 ?init = sd_dir one_file (Suc 127) True None [] 1 ?init"
    by (simp only:)
  have "sys_open_path (se_os one_file) p = returnS 1" for p
    by (simp add: one_file_def empty_os_def)
  then have "sd_sources one_file [Source_Beneath [0x2f] []] ?init = top_dir one_file None [] 1 ?init"
    by (simp add: sd_source_def bindS_def on_src_def open_dir_path_def returnS_def sender_init_def split: prod.split sum.split)
  note sources = this [unfolded dir one_file_dir]
  have "sd_all one_file [Source_Beneath [0x2f] []] ?init = sd_rest one_file (Suc (Suc 0)) \<lparr>sd_os = (), sd_sent = [], sd_room = 9,
     sd_buf = [0, 0, 0, 1, 1, 0, 0, 0, 1, 2, 0, 0, 0, 1, 3],
     sd_replies = [Some (Answer (Want 0 0 None)), None, Some (End_Copy (Inr summary_none))],
     sd_pending = [(0, 2, [0x61])], sd_next = 1, sd_tree = [], sd_over = None\<rparr>"
    unfolding sd_all_def bindS_def sources by simp
  note all = this [unfolded one_file_rest]
  show ?thesis unfolding send_def all by (simp add: one_file_def sender_evals)
qed

theorem senders_keep_the_protocol_witness:
  "\<exists>its. speaks False (Saying 0 [] False) its = Some Said \<and>
    said one_file its = [0, 0, 0, 1, 1, 0, 0, 0, 1, 2, 0, 0, 0, 1, 3, 0, 0, 0, 1, 4, 0, 0, 0, 1, 5, 0, 0, 0, 1, 6]"
proof -
  obtain r where run: "send one_file [Source_Beneath [0x2f] []] 9
      [None, Some (Answer (Want 0 0 None)), None, Some (End_Copy (Inr summary_none))] () = (r, Inr summary_none)"
    and sent: "sd_sent r = [[0, 0, 0, 1, 1, 0, 0, 0, 1, 2, 0, 0, 0, 1, 3], [0, 0, 0, 1, 4, 0, 0, 0, 1, 5, 0, 0, 0, 1, 6]]"
      "sd_over r = None" "sd_room r = 7"
    using one_file_sent by blast
  have "length (se_encode one_file it) \<le> MAX_ITEM" for it by (simp add: one_file_sel MAX_ITEM_def)
  then show ?thesis
    using senders_keep_the_protocol [OF run] sent one_file_sel(1) by auto
qed

end
