(* ===== verification/Koh_Send_Safety.thy ===== *)
theory Koh_Send_Safety
  imports Koh_Send_Proofs
begin

text \<open>
  What a sending end opens for a scoped key: only what is beneath the scope's directory, and nothing
  is changed. The calls are written down as the receiving end's are (\<open>Koh_Receive_Proofs\<close>).
\<close>

section \<open>The calls, written down\<close>

text \<open>The directories of scopes are opened by their paths: these calls give the first descriptors. Any other
  path's opening is written down.\<close>

definition unlogged :: "('s, 'e, 'a) act \<Rightarrow> ('s \<times> 'fd call list, 'e, 'a) act" where
  "unlogged m = (\<lambda>(s, l). case m s of (s', r) \<Rightarrow> ((s', l), r))"

definition sender_logging :: "path set \<Rightarrow> ('s, 'fd) send_env \<Rightarrow> ('s \<times> 'fd call list, 'fd) send_env" where
  "sender_logging roots env = \<lparr>
     se_os = (logged (se_os env))\<lparr>sys_open_path := (\<lambda>p.
       if p \<in> roots then unlogged (sys_open_path (se_os env) p)
       else logS (\<lambda>r. C_Open_Path p (gave r)) (sys_open_path (se_os env) p))\<rparr>,
     se_open = (\<lambda>p. logS (\<lambda>r. C_Open_Path p (gave r)) (se_open env p)),
     se_read_at = (\<lambda>s. se_read_at env (fst s)), se_opts = se_opts env, se_encode = se_encode env\<rparr>"

definition root_fds :: "path set \<Rightarrow> ('s, 'fd) send_env \<Rightarrow> 'fd set" where
  "root_fds roots env = {fd. \<exists>p\<in>roots. \<exists>s s'. sys_open_path (se_os env) p s = (s', Inr fd)}"

definition scoped_source :: "path set \<Rightarrow> source \<Rightarrow> bool" where
  "scoped_source roots src =
     (case src of Source_Path _ \<Rightarrow> False
      | Source_Beneath root path \<Rightarrow> root \<in> roots \<and> (\<forall>n\<in>set path. plain_name (name_bytes n)))"

section \<open>Operations that leave the system as it is\<close>

definition leaves :: "('s, 'fd, 'a) sact \<Rightarrow> bool" where
  "leaves m \<longleftrightarrow> (\<forall>r. sd_os (fst (m r)) = sd_os r)"

named_theorems leaves_rules \<open>operations that do not touch the system\<close>

lemma leaves_bind [leaves_rules]: "leaves m \<Longrightarrow> (\<And>a. leaves (f a)) \<Longrightarrow> leaves (bindS m f)"
  by (auto simp: leaves_def bindS_def split: prod.split sum.split) (metis fst_conv)+

lemma leaves_simple [leaves_rules]:
  "leaves (returnS a)" "leaves (failS e)" "leaves out_flush" "leaves (on_src path (readS f))"
  by (auto simp: leaves_def returnS_def failS_def out_flush_def on_src_def readS_def)

lemma leaves_change [leaves_rules]: "(\<And>r. sd_os (f r) = sd_os r) \<Longrightarrow> leaves (changeS f)"
  by (simp add: leaves_def changeS_def)

lemma leaves_at: "(\<And>r. leaves (f r)) \<Longrightarrow> leaves (\<lambda>r. f r r)"
  by (simp add: leaves_def)

lemma leaves_item [leaves_rules]: "leaves (out_item env it data)"
proof -
  have "leaves (\<lambda>r. if CHUNK < sat_add64 (sat_add64 (length (sd_buf r)) (length head)) (length data)
      then out_flush r else (r, Inr ()))" for head
    by (auto simp: leaves_def out_flush_def)
  then show ?thesis
    unfolding out_item_def by (auto split: sum.split intro!: leaves_rules)
qed

lemma leaves_chunks [leaves_rules]: "leaves (sd_chunks env n file path at)"
  by (induction n arbitrary: at) (auto intro!: leaves_rules split: option.split)

lemma leaves_answer [leaves_rules]: "leaves (sd_answer env a)"
proof -
  have "leaves (bindS (answer_from env fd path a) (answer_with env fd path i))" for fd path i
    unfolding answer_from_def answer_with_def Let_def
    by (auto split: option.split copy_answer.split intro!: leaves_rules simp del: sd_chunks.simps)
  then show ?thesis by (auto simp: leaves_def sd_answer_def split: option.split)
qed

lemma leaves_take [leaves_rules]: "leaves (take_answers env rs)"
  by (induction env rs rule: take_answers.induct) (auto intro!: leaves_rules)

lemma leaves_due [leaves_rules]:
  fixes env :: "('s, 'fd) send_env"
  shows "leaves (answers_due env waits)"
proof -
  have take: "sd_os (fst (take_answers env rs r)) = sd_os r" for rs and r :: "('s, 'fd) sender"
    using leaves_take by (auto simp: leaves_def)
  have "leaves (wait_answers env)"
    unfolding leaves_def wait_answers_def Let_def
    by (intro allI, split if_split) (intro conjI impI take)
  moreover have "leaves (\<lambda>r. take_answers env (sd_replies r) r)"
    by (rule leaves_at) (rule leaves_take)
  ultimately show ?thesis by (auto simp: answers_due_def intro!: leaves_rules)
qed

lemma leaves_rest [leaves_rules]: "leaves (sd_rest env n)"
proof (induction n)
  case (Suc n)
  have "leaves (bindS (answers_due env True) (\<lambda>_. sd_rest env n))" by (intro leaves_rules Suc.IH)
  then show ?case by (simp add: leaves_def)
qed (simp add: leaves_rules)

lemma leaves_file [leaves_rules]:
  fixes env :: "('s, 'fd) send_env"
  shows "leaves (sd_file env fd name path)"
  unfolding sd_file_def stat_of_def Let_def
proof (rule leaves_bind [OF leaves_simple(4)])
  fix meta
  let ?h = "\<lambda>i. \<lparr>h_id = i, h_name = name, h_mode = (case mode_new (e_mode meta) of None \<Rightarrow> Mode 0x1A4 | Some m \<Rightarrow> m),
      h_mtime = e_mtime meta, h_size = e_size meta\<rparr>"
  let ?m = "\<lambda>i :: file_id. bindS (changeS (\<lambda>r. r\<lparr>sd_next := i + 1\<rparr>)) (\<lambda>_.
      bindS (out_item env (File (?h i)) []) (\<lambda>_.
      bindS (changeS (\<lambda>r. r\<lparr>sd_pending := (i, fd, path) # filter (\<lambda>p. fst p \<noteq> i) (sd_pending r)\<rparr>)) (\<lambda>_.
      (\<lambda>r. answers_due env (WINDOW \<le> length (sd_pending r)) r))))"
  have "leaves (\<lambda>r. answers_due env (WINDOW \<le> length (sd_pending r)) r)"
    by (rule leaves_at) (rule leaves_due)
  then have "leaves (?m i)" for i
    by (intro leaves_rules) simp_all
  then show "leaves (\<lambda>r. ?m (sd_next r) r)" by (simp only: leaves_def) blast
qed


section \<open>Operations that stay beneath\<close>

text \<open>As \<open>stays\<close>, of a sender: given the descriptors in \<open>X\<close>, what is called only looks, on what is known.\<close>

definition rides ::
    "'fd set \<Rightarrow> 'fd set \<Rightarrow> ('s \<times> 'fd call list, 'fd, 'a) sact \<Rightarrow> ('a \<Rightarrow> 'fd set) \<Rightarrow> bool" where
  "rides B X m F \<longleftrightarrow>
     (\<forall>Y. X \<subseteq> Y \<longrightarrow> holds (\<lambda>r. sys_in True B Y (sd_os r)) m (\<lambda>a r. sys_in True B (F a \<union> Y) (sd_os r))
       (\<lambda>r. sys_in True B Y (sd_os r)))"

lemma rides_bind:
  assumes "rides B X m F" and "\<And>a. rides B (F a \<union> X) (f a) G"
  shows "rides B X (bindS m f) G"
  unfolding rides_def
proof (intro allI impI, rule holds_bind)
  fix Y assume XY: "X \<subseteq> Y"
  show "holds (\<lambda>r. sys_in True B Y (sd_os r)) m (\<lambda>a r. sys_in True B (F a \<union> Y) (sd_os r)) (\<lambda>r. sys_in True B Y (sd_os r))"
    using assms(1) XY by (simp add: rides_def)
  fix a
  have "F a \<union> X \<subseteq> F a \<union> Y" using XY by blast
  then have "holds (\<lambda>r. sys_in True B (F a \<union> Y) (sd_os r)) (f a)
      (\<lambda>b r. sys_in True B (G b \<union> (F a \<union> Y)) (sd_os r)) (\<lambda>r. sys_in True B (F a \<union> Y) (sd_os r))"
    using assms(2) [of a] unfolding rides_def by blast
  then show "holds (\<lambda>r. sys_in True B (F a \<union> Y) (sd_os r)) (f a)
      (\<lambda>b r. sys_in True B (G b \<union> Y) (sd_os r)) (\<lambda>r. sys_in True B Y (sd_os r))"
    by (rule holds_weaken) (erule sys_in_mono; blast)+
qed

lemma rides_leaves: "leaves m \<Longrightarrow> rides B X m (\<lambda>_. {})"
  unfolding rides_def holds_def leaves_def
  by (auto split: prod.split sum.split) (metis fst_conv)+

lemma rides_src:
  fixes m :: "('s \<times> 'fd call list, io_kind, 'a) act"
  assumes "stays True B X m F"
  shows "rides B X (on_src path m) F"
  unfolding rides_def
proof (intro allI impI)
  fix Y assume "X \<subseteq> Y"
  note stay = staysD [OF assms this]
  show "holds (\<lambda>r :: ('s \<times> 'fd call list, 'fd) sender. sys_in True B Y (sd_os r)) (on_src path m) (\<lambda>a r. sys_in True B (F a \<union> Y) (sd_os r))
      (\<lambda>r. sys_in True B Y (sd_os r))"
  proof -
    have at: "case on_src path m r of (s', x) \<Rightarrow> (case x of Inl _ \<Rightarrow> sys_in True B Y (sd_os s')
        | Inr a \<Rightarrow> sys_in True B (F a \<union> Y) (sd_os s'))"
      if "sys_in True B Y (sd_os r)" for r :: "('s \<times> 'fd call list, 'fd) sender"
      using holds_at [OF stay that]
      by (cases "m (sd_os r)"; cases "snd (m (sd_os r))") (auto simp: on_src_def)
    then show ?thesis by (simp only: holds_def) blast
  qed
qed

lemma rides_bind_src:
  "stays True B X m F \<Longrightarrow> (\<And>a. rides B (F a \<union> X) (f a) (\<lambda>_. {})) \<Longrightarrow> rides B X (bindS (on_src path m) f) (\<lambda>_. {})"
  by (rule rides_bind [OF rides_src])

lemma rides_bind_leaves:
  "leaves m \<Longrightarrow> (\<And>a. rides B X (f a) (\<lambda>_. {})) \<Longrightarrow> rides B X (bindS m f) (\<lambda>_. {})"
  by (rule rides_bind [OF rides_leaves]) simp_all

lemma rides_more: "rides B X m (\<lambda>_. {}) \<Longrightarrow> X \<subseteq> Z \<Longrightarrow> rides B Z m (\<lambda>_. {})"
  by (simp add: rides_def)

text \<open>The environment's calls.\<close>

lemma sender_os:
  "open_dir (se_os (sender_logging roots env)) = open_dir (logged (se_os env))"
  "open_file (se_os (sender_logging roots env)) = open_file (logged (se_os env))"
  "fsat_stat (se_os (sender_logging roots env)) = fsat_stat (logged (se_os env))"
  "stat_of (se_os (sender_logging roots env)) = stat_of (logged (se_os env))"
  "read_link (se_os (sender_logging roots env)) = read_link (logged (se_os env))"
  "fsat_names (se_os (sender_logging roots env)) = fsat_names (logged (se_os env))"
  by (auto simp: fun_eq_iff sender_logging_def open_dir_def open_file_def fsat_stat_def stat_of_def read_link_def fsat_names_def)

lemma stays_names_any: "stays dry B X (fsat_names (logged os) d) (\<lambda>_. {})"
  by (simp add: fsat_names_def stays_read)

lemma stays_root:
  assumes "root \<in> roots"
  shows "stays True (root_fds roots env) X (open_dir_path (se_os (sender_logging roots env)) root) (\<lambda>fd. {fd})"
proof (rule staysI)
  fix Y
  show "holds (sys_in True (root_fds roots env) Y) (open_dir_path (se_os (sender_logging roots env)) root)
      (\<lambda>fd. sys_in True (root_fds roots env) ({fd} \<union> Y)) (sys_in True (root_fds roots env) Y)"
    using assms
    by (auto simp: holds_def open_dir_path_def sender_logging_def unlogged_def sys_in_def known_def root_fds_def
        split: prod.splits sum.splits)
qed

lemma rides_entry:
  assumes "dir \<in> X" "plain_name (name_bytes name)" "\<And>d. rides B {d} (send_sub name rel d) (\<lambda>_. {})"
  shows "rides B X (sd_entry (sender_logging roots env) send_sub is_top dir name rel) (\<lambda>_. {})"
proof -
  let ?env = "sender_logging roots env"
  have sub: "rides B X (bindS (on_src path (open_dir (se_os ?env) dir (name_bytes name))) (send_sub name rel)) (\<lambda>_. {})" for path
    unfolding sender_os
  proof (rule rides_bind_src [OF stays_calls(1)])
    show "rides B ({d} \<union> X) (send_sub name rel d) (\<lambda>_. {})" for d
      by (rule rides_more [OF assms(3)]) simp
  qed (use assms in auto)
  have opens: "rides B X (bindS (on_src path (open_file (se_os ?env) dir (name_bytes name)))
      (\<lambda>fd. sd_file ?env fd name path)) (\<lambda>_. {})" for path
    unfolding sender_os
    by (rule rides_bind_src [OF stays_calls(2)]) (use assms in \<open>auto intro: rides_leaves leaves_file\<close>)
  have link: "leaves (bindS (on_src path (read_link (se_os ?env) dir (name_bytes name))) (\<lambda>target.
      case link_target_new target of
        Inl _ \<Rightarrow> failS (failure_new F_NameTooLong path)
      | Inr target \<Rightarrow> bindS (out_item ?env (Symlink name target) []) (\<lambda>_. answers_due ?env False)))" for path
    unfolding read_link_def by (auto intro!: leaves_rules split: sum.split)
  have skip: "leaves (if is_top then failS e else out_item ?env (Skipped name) [])" for e
    by (auto intro!: leaves_rules)
  have look: "leaves (on_src path (fsat_stat (se_os ?env) dir (name_bytes name)))" for path
    unfolding fsat_stat_def by (rule leaves_simple)
  show ?thesis
    unfolding sd_entry_def Let_def
    by (rule rides_bind_leaves [OF look])
      (auto split: option.split ekind.split intro!: sub opens rides_leaves [OF link] rides_leaves [OF skip] rides_leaves leaves_rules)
qed

lemma rides_each:
  assumes "\<And>n path. plain_name (name_bytes n) \<Longrightarrow> rides B X (send_entry n path) (\<lambda>_. {})"
  shows "rides B X (sd_each env send_entry rel entries) (\<lambda>_. {})"
proof (induction entries)
  case Nil
  show ?case by (simp add: rides_leaves leaves_rules)
next
  case (Cons entry entries)
  show ?case
  proof (cases "name_new entry")
    case (Inl e)
    then show ?thesis by (simp add: rides_leaves leaves_rules)
  next
    case (Inr name)
    have "rides B X (send_entry name (rel @ [entry])) (\<lambda>_. {})"
      by (rule assms) (rule name_new_plain [OF Inr])
    then have "rides B X (\<lambda>r. if left_out env (sd_tree r) (rel @ [entry]) (name_bytes name) then (r, Inr ())
        else send_entry name (rel @ [entry]) r) (\<lambda>_. {})"
      by (simp add: rides_def holds_def)
    from rides_bind [OF this] show ?thesis using Inr Cons.IH by simp
  qed
qed

lemma rides_dir: "rides B {dir} (sd_dir (sender_logging roots env) k is_top name rel dir) (\<lambda>_. {})"
proof (induction k arbitrary: is_top name rel dir)
  case 0
  show ?case by (simp add: rides_leaves leaves_rules)
next
  case (Suc k)
  let ?env = "sender_logging roots env"
  have looks: "leaves (on_src path (stat_of (se_os ?env) dir))" "leaves (on_src path (fsat_names (se_os ?env) dir))" for path
    unfolding stat_of_def fsat_names_def by (rule leaves_simple)+
  have each: "rides B {dir} (sd_each ?env (sd_entry ?env (\<lambda>n. sd_dir ?env k False (Some n)) False dir) rel names) (\<lambda>_. {})" for names
    by (intro rides_each rides_entry Suc.IH) simp_all
  show ?case
    unfolding sd_dir.simps Let_def
    by (intro rides_bind_leaves looks leaves_item leaves_change rides_bind [OF each, simplified] rides_leaves) simp_all
qed

lemma rides_walk:
  "dir \<in> X \<Longrightarrow> (\<And>n. n \<in> set path \<Longrightarrow> plain_name (name_bytes n)) \<Longrightarrow>
    stays True B X (walk (se_os (sender_logging roots env)) dir path) (\<lambda>fd. {fd})"
proof (induction path arbitrary: dir X)
  case Nil
  then show ?case by (simp add: stays_return)
next
  case (Cons n path)
  show ?case unfolding walk.simps
  proof (rule stays_bind)
    show "stays True B X (open_dir (se_os (sender_logging roots env)) dir (name_bytes n)) (\<lambda>fd. {fd})"
      unfolding sender_os using Cons.prems by (intro stays_calls(1)) auto
    show "stays True B ({sub} \<union> X) (walk (se_os (sender_logging roots env)) sub path) (\<lambda>fd. {fd})" for sub
      using Cons.prems by (intro Cons.IH) auto
  qed
qed

lemma rides_source:
  assumes "scoped_source roots src"
  shows "rides (root_fds roots env) X (sd_source (sender_logging roots env) src) (\<lambda>_. {})"
proof (cases src)
  case (Source_Path path)
  then show ?thesis using assms by (simp add: scoped_source_def)
next
  case (Source_Beneath root path)
  let ?env = "sender_logging roots env" and ?B = "root_fds roots env"
  have root: "root \<in> roots" and plain: "\<And>n. n \<in> set path \<Longrightarrow> plain_name (name_bytes n)"
    using assms Source_Beneath by (simp_all add: scoped_source_def)
  have whole: "rides ?B ({fd} \<union> X) (top_dir ?env None names fd) (\<lambda>_. {})" for fd names
    unfolding top_dir_def by (rule rides_more [OF rides_dir]) simp
  have beneath: "rides ?B ({fd} \<union> X) (bindS (on_src shown (walk (se_os ?env) fd (butlast path)))
      (\<lambda>parent. top_entry ?env parent (last path) names)) (\<lambda>_. {})" if "path \<noteq> []" for fd shown names
  proof (rule rides_bind_src [OF rides_walk])
    show "plain_name (name_bytes n)" if "n \<in> set (butlast path)" for n
      using plain in_set_butlastD [OF that] by simp
    show "rides ?B ({parent} \<union> ({fd} \<union> X)) (top_entry ?env parent (last path) names) (\<lambda>_. {})" for parent
      unfolding top_entry_def top_dir_def
      by (rule rides_entry) (use plain [OF last_in_set [OF that]] rides_dir in auto)
  qed simp
  have "rides ?B X (bindS (on_src shown (open_dir_path (se_os ?env) root)) (\<lambda>fd.
      if path = [] then top_dir ?env None names fd
      else bindS (on_src shown (walk (se_os ?env) fd (butlast path))) (\<lambda>parent. top_entry ?env parent (last path) names))) (\<lambda>_. {})"
    for shown names
    by (rule rides_bind_src [OF stays_root [OF root]]) (use whole beneath in auto)
  then show ?thesis using Source_Beneath by (simp add: sd_source_def Let_def)
qed


lemma rides_sources:
  "(\<And>src. src \<in> set srcs \<Longrightarrow> scoped_source roots src) \<Longrightarrow>
    rides (root_fds roots env) X (sd_sources (sender_logging roots env) srcs) (\<lambda>_. {})"
proof (induction srcs)
  case Nil
  show ?case by (simp add: rides_leaves leaves_rules)
next
  case (Cons src srcs)
  have "rides (root_fds roots env) X (sd_source (sender_logging roots env) src) (\<lambda>_. {})"
    by (rule rides_source) (simp add: Cons.prems)
  from rides_bind [OF this] show ?case using Cons by simp
qed

lemma rides_all:
  assumes "\<And>src. src \<in> set srcs \<Longrightarrow> scoped_source roots src"
  shows "rides (root_fds roots env) {} (sd_all (sender_logging roots env) srcs) (\<lambda>_. {})"
proof -
  have "leaves (\<lambda>r. sd_rest (sender_logging roots env) (Suc (length (sd_pending r))) r)"
    by (rule leaves_at) (rule leaves_rest)
  then have rest: "rides (root_fds roots env) ({} \<union> {}) (\<lambda>r. sd_rest (sender_logging roots env) (Suc (length (sd_pending r))) r) (\<lambda>_. {})"
    by (rule rides_leaves)
  have "rides (root_fds roots env) {} (sd_sources (sender_logging roots env) srcs) (\<lambda>_. {})"
    by (rule rides_sources) (rule assms)
  from rides_bind [OF this rest] show ?thesis by (simp add: sd_all_def)
qed

text \<open>The end of a copy makes no call.\<close>

lemma send_os:
  assumes "send env srcs room replies s = (r, result)"
  shows "sd_os r = sd_os (fst (sd_all env srcs (sender_init s room replies)))"
proof -
  have "leaves (bindS (out_item env it []) (\<lambda>_. out_flush))" for it
    by (intro leaves_rules)
  then show ?thesis
    using assms by (auto simp: send_def leaves_def Let_def split: prod.splits option.splits)
qed

text \<open>C39: A scoped key's copy is sent from beneath its directory alone, and changes nothing. Whatever
  the directory holds and the receiver replies: beside the scope's directory, opened by its path, each call the sending end
  makes opens a directory or a file, by a name that is one component and never \<open>.\<close> or \<open>..\<close>, in the
  scope's directory or one an earlier such call gave; no other path is opened, and nothing is made, written,
  renamed or removed.\<close>

theorem scoped_copies_come_from_beneath:
  assumes "\<forall>src\<in>set srcs. scoped_source roots src"
    and "send (sender_logging roots env) srcs room replies (s, []) = (r, result)"
  shows "within True (root_fds roots env) (snd (sd_os r))"
proof -
  have "rides (root_fds roots env) {} (sd_all (sender_logging roots env) srcs) (\<lambda>_. {})"
    using assms(1) by (intro rides_all) simp
  then have "holds (\<lambda>r. sys_in True (root_fds roots env) {} (sd_os r)) (sd_all (sender_logging roots env) srcs)
      (\<lambda>_ r. sys_in True (root_fds roots env) {} (sd_os r)) (\<lambda>r. sys_in True (root_fds roots env) {} (sd_os r))"
    by (simp add: rides_def)
  from holds_at [OF this, of "sender_init (s, []) room replies"]
  have "sys_in True (root_fds roots env) {} (sd_os (fst (sd_all (sender_logging roots env) srcs (sender_init (s, []) room replies))))"
    by (auto simp: sender_init_def sys_in_def split: prod.splits sum.splits)
  then show ?thesis by (simp add: send_os [OF assms(2)] sys_in_def)
qed

theorem scoped_copies_come_from_beneath_witness:
  "\<exists>r result. send (sender_logging {[0x2f]} one_file) [Source_Beneath [0x2f] [Name [0x61]]] 0 [] ((), []) = (r, result) \<and>
    snd (sd_os r) = [C_Open_File 1 [0x61] (Some 2)] \<and> within True (root_fds {[0x2f]} one_file) (snd (sd_os r))"
proof -
  obtain r result where run: "send (sender_logging {[0x2f]} one_file) [Source_Beneath [0x2f] [Name [0x61]]] 0 [] ((), []) = (r, result)"
    by fastforce
  have "snd (sd_os r) = [C_Open_File 1 [0x61] (Some 2)]"
    by (simp add: send_os [OF run])
      (simp add: sd_all_def sd_source_def sender_logging_def one_file_def empty_os_def logged_def unlogged_def logS_def gave_def top_entry_def
      sender_evals wait_answers_def)
  moreover have "within True (root_fds {[0x2f]} one_file) (snd (sd_os r))"
    by (rule scoped_copies_come_from_beneath [OF _ run]) (simp add: scoped_source_def plain_name_def)
  ultimately show ?thesis using run by blast
qed

end
