(* ===== verification/Koh_Attach.thy ===== *)
theory Koh_Attach
  imports Koh_Session
begin

text \<open>
  \<open>src/src/server/attach.rs\<close>: one connection to a session. A turn of \<open>serve\<close>'s loop is its head and then one arm
  of the \<open>select!\<close>; what the world says (the time, the round trip, what the session published, what a stream
  brought, whether a channel had room) is in the arm. Beside the new state a turn gives what it does:
  what it asks the session, and how it closes. An epoch's writer (\<open>write_epoch\<close>) is a task of its own that
  takes what is queued in order (the arm \<open>Writer_Took\<close>); the streams are iroh's.
\<close>

definition WRITER_QUEUE :: nat where "WRITER_QUEUE = 4096"
definition FIRST_BUDGET :: nat where "FIRST_BUDGET = 256 * 1024"
definition MAX_TOPS :: nat where "MAX_TOPS = 1024"
definition LEAST_BUDGET :: nat where "LEAST_BUDGET = 64 * 1024"
definition MOST_BUDGET :: nat where "MOST_BUDGET = 4 * 2 ^ 20"
definition FINAL_WAIT :: nat where "FINAL_WAIT = millis 2000"
definition READ_BUF :: nat where "READ_BUF = 16 * 1024"
definition RATE_SPAN :: nat where "RATE_SPAN = millis 250"
definition HEARTBEAT :: nat where "HEARTBEAT = millis 3000"
definition MAX_CLIENT_MESSAGE :: nat where "MAX_CLIENT_MESSAGE = MAX_PASTE + 64 * 1024"
definition u128_max :: nat where "u128_max = 2 ^ 128 - 1"

section \<open>Pace\<close>

record pace =
  pc_written :: nat
  pc_read :: nat
  pc_since :: "nat \<times> nat"
  pc_budget :: nat

definition pace_new :: "nat \<Rightarrow> pace" where
  "pace_new now = \<lparr>pc_written = 0, pc_read = 0, pc_since = (now, 0), pc_budget = FIRST_BUDGET\<rparr>"

text \<open>What a link that read \<open>n\<close> bytes in \<open>span\<close> carries in a round trip and a margin, twice over.\<close>

definition sat_mul128 :: "nat \<Rightarrow> nat \<Rightarrow> nat" where
  "sat_mul128 a b = min (a * b) u128_max"

definition pace_carried :: "nat \<Rightarrow> nat \<Rightarrow> nat \<Rightarrow> nat" where
  "pace_carried n span rtt =
     (let rate = (if span = 0 then 0 else sat_mul128 n 1000000000 div span);
          window = rtt + millis 100;
          carried = sat_mul128 rate window div 1000000000
      in min (min carried u64_max * 2) u64_max)"

definition pace_read :: "nat \<Rightarrow> nat \<Rightarrow> nat \<Rightarrow> pace \<Rightarrow> pace" where
  "pace_read bytes now rtt p =
     (let p = p\<lparr>pc_read := max (pc_read p) (min bytes (pc_written p))\<rparr>;
          (at, before) = pc_since p;
          span = now - at
      in if RATE_SPAN \<le> span then
           p\<lparr>pc_budget := (if before < pc_read p
                          then clamp LEAST_BUDGET MOST_BUDGET (pace_carried (pc_read p - before) span rtt)
                          else pc_budget p),
             pc_since := (now, pc_read p)\<rparr>
         else p)"

definition pace_room :: "pace \<Rightarrow> bool" where
  "pace_room p \<longleftrightarrow> pc_written p - pc_read p < pc_budget p"

section \<open>Epochs\<close>

text \<open>\<open>ep_queue\<close>: what waits for the writer, closed once the end is queued or the writer is gone.\<close>

record epoch =
  ep_n :: "32 word"
  ep_queue :: "byte list list"
  ep_capacity :: nat
  ep_closed :: bool
  ep_pace :: pace
  ep_last_write :: nat

definition epoch_room :: "epoch \<Rightarrow> bool" where
  "epoch_room ep \<longleftrightarrow> pace_room (ep_pace ep) \<and> length (ep_queue ep) < ep_capacity ep"

definition epoch_send :: "(shown \<Rightarrow> byte list) \<Rightarrow> nat \<Rightarrow> shown \<Rightarrow> epoch \<Rightarrow> epoch \<times> bool" where
  "epoch_send postcard now s ep =
     (case encode_shown postcard s of
        Inl _ \<Rightarrow> (ep, True)
      | Inr bytes \<Rightarrow>
          (let p = ep_pace ep;
               ep1 = ep\<lparr>ep_pace := p\<lparr>pc_written := sat_add64 (pc_written p) (length bytes)\<rparr>, ep_last_write := now\<rparr>
           in if ep_closed ep \<or> ep_capacity ep \<le> length (ep_queue ep) then (ep1, False)
              else (ep1\<lparr>ep_queue := ep_queue ep @ [bytes]\<rparr>, True)))"

definition epoch_open :: "(shown \<Rightarrow> byte list) \<Rightarrow> nat \<Rightarrow> 32 word \<Rightarrow> shown list \<Rightarrow> epoch" where
  "epoch_open postcard now n shown =
     foldl (\<lambda>ep s. fst (epoch_send postcard now s ep))
       \<lparr>ep_n = n, ep_queue = [], ep_capacity = WRITER_QUEUE + length shown, ep_closed = False,
        ep_pace = pace_new now, ep_last_write = now\<rparr> shown"

section \<open>What the client asks\<close>

record asked =
  as_resized :: nat
  as_window :: "size option"
  as_redraw :: bool

definition asked_new :: asked where
  "asked_new = \<lparr>as_resized = 0, as_window = None, as_redraw = False\<rparr>"

type_synonym msg = "(input_event, wire_colours) client_msg"

text \<open>A stream's decoder, and what it decoded that waits for the session.\<close>

record from_client =
  fc_decoder :: decoder
  fc_waiting :: "to_session option"

definition from_client_new :: from_client where
  "from_client_new = \<lparr>fc_decoder = decoder_new, fc_waiting = None\<rparr>"

definition client_next :: "(byte list \<Rightarrow> msg option) \<Rightarrow> decoder \<Rightarrow> decoder \<times> (proto_error + msg option)" where
  "client_next from_bytes = next_msg MAX_CLIENT_MESSAGE from_bytes (msg_check check_events)"

definition take_msg ::
    "nat \<Rightarrow> nat \<Rightarrow> msg \<Rightarrow> from_client \<times> epoch \<times> asked \<Rightarrow> from_client \<times> epoch \<times> asked" where
  "take_msg now rtt m = (\<lambda>(f, ep, a).
     case m of
       Read n bytes \<Rightarrow>
         (f, if n = unat (ep_n ep) then ep\<lparr>ep_pace := pace_read bytes now rtt (ep_pace ep)\<rparr> else ep, a)
     | Resize n sz \<Rightarrow>
         (f, ep, if as_resized a < n then a\<lparr>as_resized := n, as_window := Some (clamp_dims sz)\<rparr> else a)
     | Redraw \<Rightarrow> (f, ep, a\<lparr>as_redraw := True\<rparr>)
     | Keys seq events \<Rightarrow> (f\<lparr>fc_waiting := Some (Events seq events)\<rparr>, ep, a)
     | Colours c \<Rightarrow> (f\<lparr>fc_waiting := Some (Session_Colours c)\<rparr>, ep, a))"


lemma client_next_shrinks:
  "client_next from_bytes d = (d', Inr (Some m)) \<Longrightarrow> length (pending d') < length (pending d)"
  by (auto simp: client_next_def next_msg_def bindE_Inr_iff dest: next_body_shrinks
      split: prod.splits sum.splits option.splits)

lemma take_msg_decoder [simp]: "fc_decoder (fst (take_msg now rtt m (f, ep, a))) = fc_decoder f"
  by (simp add: take_msg_def split: client_msg.split)

text \<open>\<open>take\<close>: \<open>now\<close> is what the clock says while it runs.\<close>

type_synonym taken = "from_client \<times> epoch \<times> asked"

function take_msgs ::
    "(byte list \<Rightarrow> msg option) \<Rightarrow> nat \<Rightarrow> nat \<Rightarrow> taken \<Rightarrow> taken \<times> (proto_error + unit)" where
  "take_msgs from_bytes now rtt (f, ep, a) =
     (if fc_waiting f \<noteq> None then ((f, ep, a), Inr ())
      else case client_next from_bytes (fc_decoder f) of
        (d, Inl e) \<Rightarrow> ((f\<lparr>fc_decoder := d\<rparr>, ep, a), Inl e)
      | (d, Inr None) \<Rightarrow> ((f\<lparr>fc_decoder := d\<rparr>, ep, a), Inr ())
      | (d, Inr (Some m)) \<Rightarrow> take_msgs from_bytes now rtt (take_msg now rtt m (f\<lparr>fc_decoder := d\<rparr>, ep, a)))"
  by pat_completeness auto

termination
  by (relation "measure (\<lambda>(_, _, _, f, _). length (pending (fc_decoder f)))")
    (auto simp: take_msg_def dest!: client_next_shrinks [OF sym] split: client_msg.split)

declare take_msgs.simps [simp del]

section \<open>A connection\<close>

text \<open>
  The locals of \<open>serve\<close>: \<open>at_streams\<close>, which of the client's two streams are open; \<open>at_from\<close>, the
  two as they are read. A redraw's answer (\<open>Start\<close>) is what it shows, and its top row.
\<close>

record attached =
  at_attach :: nat
  at_epoch :: epoch
  at_seen :: "nat option"
  at_tops :: "(nat \<times> nat) bounded"
  at_streams :: "bool list"
  at_from :: "from_client list"
  at_asked :: asked
  at_exited :: bool
  at_undelivered :: "nat option"
  at_told :: bool

type_synonym redraw_answer = "shown list \<times> nat option"

text \<open>What a turn does: what it asks or tells the session, the streams it opens, how it closes.\<close>

datatype did =
    Ask_Redraw "nat option"
  | New_Epoch "32 word"
  | Ask_Resize size
  | To_Session nat to_session
  | Tell_Ended
  | Close_Saying close
  | Close_Silently

definition push_top :: "nat option \<Rightarrow> nat \<Rightarrow> (nat \<times> nat) bounded \<Rightarrow> (nat \<times> nat) bounded" where
  "push_top topmost at tops =
     (case topmost of None \<Rightarrow> tops | Some row \<Rightarrow> push_evicting MAX_TOPS tops (at, row))"

definition attach_begin :: "(shown \<Rightarrow> byte list) \<Rightarrow> nat \<Rightarrow> nat \<Rightarrow> redraw_answer \<Rightarrow> attached" where
  "attach_begin postcard now attach = (\<lambda>(shown, topmost).
     let ep = epoch_open postcard now 1 shown in
     \<lparr>at_attach = attach, at_epoch = ep, at_seen = None,
      at_tops = push_top topmost (pc_written (ep_pace ep)) bounded_new,
      at_streams = [True, False], at_from = [from_client_new, from_client_new], at_asked = asked_new,
      at_exited = False, at_undelivered = None, at_told = False\<rparr>)"

section \<open>The head of the loop\<close>

text \<open>The tops the client has read up to.\<close>

fun pop_tops :: "nat \<Rightarrow> nat option \<Rightarrow> (nat \<times> nat) list \<Rightarrow> nat option \<times> (nat \<times> nat) list" where
  "pop_tops read seen [] = (seen, [])"
| "pop_tops read seen ((at, topmost) # tops) =
     (if at \<le> read then pop_tops read (Some topmost) tops else (seen, (at, topmost) # tops))"

definition see_tops :: "attached \<Rightarrow> attached" where
  "see_tops s =
     (let (seen, tops) = pop_tops (pc_read (ep_pace (at_epoch s))) (at_seen s) (items (at_tops s)) in
      s\<lparr>at_seen := seen, at_tops := Bounded tops\<rparr>)"

definition ENDED :: string where "ENDED = ''the session was ended (revoked, or the server is stopping)''"
definition DETACHED :: string where "DETACHED = ''client detached (session retained)''"

text \<open>A new epoch, if one is asked; \<open>answer\<close>: what the session said, nothing if it ended.\<close>

definition redraw_head ::
    "(shown \<Rightarrow> byte list) \<Rightarrow> nat \<Rightarrow> redraw_answer option \<Rightarrow> attached \<Rightarrow> attached \<times> did list \<times> string option" where
  "redraw_head postcard now answer s =
     (let redraw = as_redraw (at_asked s);
          s1 = s\<lparr>at_asked := (at_asked s)\<lparr>as_redraw := False\<rparr>\<rparr>
      in if redraw \<and> \<not> at_exited s then
           (case answer of
              None \<Rightarrow> (s1, [Ask_Redraw (at_seen s)], Some ENDED)
            | Some (shown, topmost) \<Rightarrow>
                (let n = ep_n (at_epoch s) + 1; ep = epoch_open postcard now n shown in
                 (s1\<lparr>at_epoch := ep, at_tops := push_top topmost (pc_written (ep_pace ep)) bounded_new\<rparr>,
                  [Ask_Redraw (at_seen s), New_Epoch n], None)))
         else (s1, [], None))"

text \<open>\<open>taken\<close>: whether the session's asks had room for the window.\<close>

definition window_head :: "bool \<Rightarrow> attached \<Rightarrow> attached \<times> did list" where
  "window_head taken s =
     (case as_window (at_asked s) of
        None \<Rightarrow> (s, [])
      | Some sz \<Rightarrow>
          if taken then (s\<lparr>at_asked := (at_asked s)\<lparr>as_window := None\<rparr>\<rparr>, [Ask_Resize sz]) else (s, []))"

section \<open>The arms\<close>

datatype session_says = Says event | Lagged | Session_Closed
datatype stream_read = Got "byte list" | Stream_End | Stream_Failed

datatype serve_arm =
    Session_Arm session_says
  | Delivered_Arm bool
  | Undelivered_Arm
  | Beat_Arm
  | Permit_Arm bool
  | Accept_Arm bool
  | Read_Arm nat stream_read

definition first_waiting :: "attached \<Rightarrow> nat option" where
  "first_waiting s = position (\<lambda>f. fc_waiting f \<noteq> None) (at_from s)"

definition wants :: "nat \<Rightarrow> attached \<Rightarrow> bool" where
  "wants at s \<longleftrightarrow>
     at < length (at_streams s) \<and> at_streams s ! at \<and> at < length (at_from s) \<and>
     fc_waiting (at_from s ! at) = None"

definition serve_ready :: "nat \<Rightarrow> serve_arm \<Rightarrow> attached \<Rightarrow> bool" where
  "serve_ready now arm s =
     (case arm of
        Session_Arm _ \<Rightarrow> \<not> at_exited s \<and> epoch_room (at_epoch s)
      | Delivered_Arm _ \<Rightarrow> at_exited s
      | Undelivered_Arm \<Rightarrow> at_exited s \<and> past (at_undelivered s) now
      | Beat_Arm \<Rightarrow>
          \<not> at_exited s \<and> epoch_room (at_epoch s) \<and>
          past (instant_add (ep_last_write (at_epoch s)) HEARTBEAT) now
      | Permit_Arm _ \<Rightarrow> first_waiting s \<noteq> None
      | Accept_Arm _ \<Rightarrow> True
      | Read_Arm at r \<Rightarrow> wants at s \<and> (case r of Got bytes \<Rightarrow> length bytes \<le> READ_BUF | _ \<Rightarrow> True))"

text \<open>What an arm comes to: on, a broken protocol, or the loop's end.\<close>

datatype outcome = Going | Breach proto_error | Over string

definition send_or_over ::
    "(shown \<Rightarrow> byte list) \<Rightarrow> nat \<Rightarrow> shown \<Rightarrow> attached \<Rightarrow> attached \<times> did list \<times> outcome" where
  "send_or_over postcard now m s =
     (let (ep, ok) = epoch_send postcard now m (at_epoch s) in
      (s\<lparr>at_epoch := ep\<rparr>, [], if ok then Going else Over DETACHED))"

definition is_exit :: "shown \<Rightarrow> bool" where
  "is_exit m = (case m of Exit _ _ \<Rightarrow> True | _ \<Rightarrow> False)"

definition on_session ::
    "(shown \<Rightarrow> byte list) \<Rightarrow> nat \<Rightarrow> session_says \<Rightarrow> attached \<Rightarrow> attached \<times> did list \<times> outcome" where
  "on_session postcard now says s =
     (case says of
        Says (Show m) \<Rightarrow>
          (let (s, ds, out) = send_or_over postcard now m (s\<lparr>at_exited := is_exit m\<rparr>) in
           if out = Going \<and> at_exited s then
             (s\<lparr>at_epoch := (at_epoch s)\<lparr>ep_closed := True\<rparr>, at_undelivered := instant_add now (FINAL_WAIT * 4)\<rparr>,
              ds, out)
           else (s, ds, out))
      | Says (Top_Event topmost) \<Rightarrow>
          (s\<lparr>at_tops := push_evicting MAX_TOPS (at_tops s) (pc_written (ep_pace (at_epoch s)), topmost)\<rparr>, [], Going)
      | Says (Echo_Event attach seq) \<Rightarrow>
          if attach = at_attach s then send_or_over postcard now (Echo seq) s else (s, [], Going)
      | Lagged \<Rightarrow> (s\<lparr>at_asked := (at_asked s)\<lparr>as_redraw := True\<rparr>\<rparr>, [], Going)
      | Session_Closed \<Rightarrow> (s, [], Over ENDED))"

definition on_delivered :: "bool \<Rightarrow> attached \<Rightarrow> attached \<times> did list \<times> outcome" where
  "on_delivered delivered s =
     (if delivered then (s\<lparr>at_told := True\<rparr>, [Tell_Ended, Close_Saying SessionEnded], Over ''shell exited'')
      else (s, [Close_Silently], Over ''the end went undelivered (session kept)''))"

text \<open>\<open>take\<close> on the client's stream \<open>at\<close>.\<close>

definition take_from ::
    "(byte list \<Rightarrow> msg option) \<Rightarrow> nat \<Rightarrow> nat \<Rightarrow> nat \<Rightarrow> attached \<Rightarrow> attached \<times> outcome" where
  "take_from from_bytes now rtt at s =
     (let ((f, ep, a), r) = take_msgs from_bytes now rtt (at_from s ! at, at_epoch s, at_asked s) in
      (s\<lparr>at_from := (at_from s)[at := f], at_epoch := ep, at_asked := a\<rparr>,
       case r of Inl e \<Rightarrow> Breach e | Inr _ \<Rightarrow> Going))"

definition on_permit ::
    "(byte list \<Rightarrow> msg option) \<Rightarrow> nat \<Rightarrow> nat \<Rightarrow> bool \<Rightarrow> attached \<Rightarrow> attached \<times> did list \<times> outcome" where
  "on_permit from_bytes now rtt permit s =
     (if \<not> permit then (s, [], Over ENDED)
      else case first_waiting s of
        None \<Rightarrow> (s, [], Going)
      | Some at \<Rightarrow>
          (let f = at_from s ! at;
               (s1, out) = take_from from_bytes now rtt at (s\<lparr>at_from := (at_from s)[at := f\<lparr>fc_waiting := None\<rparr>]\<rparr>)
           in (s1, (case fc_waiting f of None \<Rightarrow> [] | Some i \<Rightarrow> [To_Session at i]), out)))"

definition on_accept :: "bool \<Rightarrow> attached \<Rightarrow> attached \<times> did list \<times> outcome" where
  "on_accept stream s =
     (if \<not> stream then (s, [], Over DETACHED)
      else if at_streams s ! 1 then (s, [], Breach UnknownStream)
      else (s\<lparr>at_streams := (at_streams s)[1 := True]\<rparr>, [], Going))"

definition on_read ::
    "(byte list \<Rightarrow> msg option) \<Rightarrow> nat \<Rightarrow> nat \<Rightarrow> nat \<Rightarrow> stream_read \<Rightarrow> attached \<Rightarrow> attached \<times> did list \<times> outcome" where
  "on_read from_bytes now rtt at r s =
     (case r of
        Got bytes \<Rightarrow>
          (let f = at_from s ! at;
               (s1, out) = take_from from_bytes now rtt at
                 (s\<lparr>at_from := (at_from s)[at := f\<lparr>fc_decoder := decoder_push (fc_decoder f) bytes\<rparr>]\<rparr>)
           in (s1, [], out))
      | Stream_End \<Rightarrow>
          (s\<lparr>at_streams := (at_streams s)[at := False]\<rparr>, [],
           case decoder_finish (fc_decoder (at_from s ! at)) of Inl e \<Rightarrow> Breach e | Inr _ \<Rightarrow> Going)
      | Stream_Failed \<Rightarrow> (s, [], Over DETACHED))"

section \<open>Turns and runs\<close>

text \<open>\<open>lk_encode\<close>, \<open>lk_decode\<close>: postcard's.\<close>

record link =
  lk_encode :: "shown \<Rightarrow> byte list"
  lk_decode :: "byte list \<Rightarrow> msg option"

record serve_turn =
  sv_now :: nat
  sv_rtt :: nat
  sv_redraw :: "redraw_answer option"
  sv_resized :: bool
  sv_arm :: serve_arm

definition serve_arm_step :: "link \<Rightarrow> serve_turn \<Rightarrow> attached \<Rightarrow> attached \<times> did list \<times> outcome" where
  "serve_arm_step l t s =
     (case sv_arm t of
        Session_Arm says \<Rightarrow> on_session (lk_encode l) (sv_now t) says s
      | Delivered_Arm delivered \<Rightarrow> on_delivered delivered s
      | Undelivered_Arm \<Rightarrow> (s, [Close_Silently], Over ''the end went undelivered (session kept)'')
      | Beat_Arm \<Rightarrow> send_or_over (lk_encode l) (sv_now t) Beat s
      | Permit_Arm permit \<Rightarrow> on_permit (lk_decode l) (sv_now t) (sv_rtt t) permit s
      | Accept_Arm stream \<Rightarrow> on_accept stream s
      | Read_Arm at r \<Rightarrow> on_read (lk_decode l) (sv_now t) (sv_rtt t) at r s)"

text \<open>A turn; \<open>None\<close> if its arm cannot be taken. Beside the state and what was done, how the loop ended, if it did.\<close>

definition serve_step :: "link \<Rightarrow> serve_turn \<Rightarrow> attached \<Rightarrow> (attached \<times> did list \<times> string option) option" where
  "serve_step l t s =
     (case redraw_head (lk_encode l) (sv_now t) (sv_redraw t) (see_tops s) of
        (s1, ds, Some how) \<Rightarrow> Some (s1, ds, Some how)
      | (s1, ds, None) \<Rightarrow>
          (let (s2, ds2) = window_head (sv_resized t) s1 in
           if \<not> serve_ready (sv_now t) (sv_arm t) s2 then None
           else case serve_arm_step l t s2 of
             (s3, ds3, Going) \<Rightarrow> Some (s3, ds @ ds2 @ ds3, None)
           | (s3, ds3, Breach e) \<Rightarrow> Some (s3, ds @ ds2 @ ds3 @ [Close_Saying ProtocolError], Some DETACHED)
           | (s3, ds3, Over how) \<Rightarrow> Some (s3, ds @ ds2 @ ds3, Some how)))"

text \<open>After the loop; \<open>because\<close>: why the client closed the connection, if it did.\<close>

definition serve_after :: "close option \<Rightarrow> attached \<Rightarrow> did list" where
  "serve_after because s = (if at_exited s \<and> \<not> at_told s \<and> because = Some SessionEnded then [Tell_Ended] else [])"

text \<open>The epoch's writer, \<open>write_epoch\<close>, beside the loop: it takes the oldest message, or is gone
  (its stream could not be opened or written).\<close>

datatype serve_event = Turn serve_turn | Writer_Took | Writer_Gone

definition writer_took :: "attached \<Rightarrow> attached" where
  "writer_took s = s\<lparr>at_epoch := (at_epoch s)\<lparr>ep_queue := tl (ep_queue (at_epoch s))\<rparr>\<rparr>"

definition writer_gone :: "attached \<Rightarrow> attached" where
  "writer_gone s = s\<lparr>at_epoch := (at_epoch s)\<lparr>ep_queue := [], ep_closed := True\<rparr>\<rparr>"

fun serve_run :: "link \<Rightarrow> serve_event list \<Rightarrow> attached \<Rightarrow> (attached \<times> did list \<times> string option) option" where
  "serve_run l [] s = Some (s, [], None)"
| "serve_run l (Writer_Took # es) s = (if ep_queue (at_epoch s) = [] then None else serve_run l es (writer_took s))"
| "serve_run l (Writer_Gone # es) s = serve_run l es (writer_gone s)"
| "serve_run l (Turn t # es) s =
     (case serve_step l t s of
        None \<Rightarrow> None
      | Some (s1, ds, Some how) \<Rightarrow> if es = [] then Some (s1, ds, Some how) else None
      | Some (s1, ds, None) \<Rightarrow> map_option (\<lambda>(s2, ds', how). (s2, ds @ ds', how)) (serve_run l es s1))"

end
