(* ===== verification/Koh_Attach_Proofs.thy ===== *)
theory Koh_Attach_Proofs
  imports Koh_Attach
begin

text \<open>
  What \<open>Koh_Attach\<close>'s connection keeps, over any run of its loop: what is in flight past what the client
  read, the redraws apart, and all it holds stay within bounds; and what the client types reaches the
  session in order, however its streams are read and however often the session has no room for it.
\<close>

section \<open>One message from the decoder\<close>

definition body_msg :: "(byte list \<Rightarrow> msg option) \<Rightarrow> byte list \<Rightarrow> proto_error + msg" where
  "body_msg from_bytes body =
     (case from_bytes body of
        None \<Rightarrow> Inl Malformed | Some m \<Rightarrow> bindE (msg_check check_events m) (\<lambda>_. Inr m))"

lemma client_next_cases:
  assumes "d_start d \<le> length (d_buf d)"
  obtains (part) "partial MAX_CLIENT_MESSAGE (pending d)"
      "client_next from_bytes d = (\<lparr>d_buf = pending d, d_start = 0\<rparr>, Inr None)"
  | (broken) e where "client_next from_bytes d = (d, Inl e)" "\<And>b. fst (frames MAX_CLIENT_MESSAGE (pending d @ b)) = []"
  | (whole) d' body where "d_buf d' = d_buf d" "d_start d' \<le> length (d_buf d')"
      "client_next from_bytes d = (d', case body_msg from_bytes body of Inl e \<Rightarrow> Inl e | Inr m \<Rightarrow> Inr (Some m))"
      "\<And>b. fst (frames MAX_CLIENT_MESSAGE (pending d @ b)) = body # fst (frames MAX_CLIENT_MESSAGE (pending d' @ b))"
proof (cases rule: frame_cases [of MAX_CLIENT_MESSAGE "pending d"])
  case part
  then show thesis
    using that(1) next_body_partial by (simp add: client_next_def next_msg_def)
next
  case (broken e)
  have "next_body MAX_CLIENT_MESSAGE d = (d, Inl e)"
    using broken by (simp add: next_body_def)
  moreover have "fst (frames MAX_CLIENT_MESSAGE (pending d @ b)) = []" for b
    by (subst frames.simps) (use broken in simp)
  ultimately show thesis using that(2) by (simp add: client_next_def next_msg_def)
next
  case (whole len)
  define d' where "d' = d\<lparr>d_start := d_start d + 4 + len\<rparr>"
  have in_buf: "d_start d + 4 + len \<le> length (d_buf d)"
    using whole assms by (simp add: pending_def)
  have d': "pending d' = drop (4 + len) (pending d)"
    by (simp add: d'_def pending_def add.commute add.left_commute)
  have "next_body MAX_CLIENT_MESSAGE d = (d', Inr (Some (take len (drop 4 (pending d)))))"
    using whole in_buf by (simp add: next_body_def d'_def Let_def pending_def add.commute)
  moreover have "fst (frames MAX_CLIENT_MESSAGE (pending d @ b)) =
      take len (drop 4 (pending d)) # fst (frames MAX_CLIENT_MESSAGE (pending d' @ b))" for b
    by (subst frames.simps) (use whole d' in \<open>simp split: prod.split\<close>)
  ultimately show thesis
    using that(3) [of d' "take len (drop 4 (pending d))"] in_buf
    by (simp add: d'_def client_next_def next_msg_def body_msg_def bindE_def split: option.splits sum.splits)
qed

section \<open>What a stream's bytes say to the session\<close>

definition input_of :: "msg \<Rightarrow> to_session list" where
  "input_of m = (case m of Keys seq events \<Rightarrow> [Events seq events] | Colours c \<Rightarrow> [Session_Colours c] | _ \<Rightarrow> [])"

text \<open>The input in the bodies, up to the first that is none of the client's messages.\<close>

fun inputs_in :: "(byte list \<Rightarrow> msg option) \<Rightarrow> byte list list \<Rightarrow> to_session list" where
  "inputs_in from_bytes [] = []"
| "inputs_in from_bytes (body # bodies) =
     (case body_msg from_bytes body of Inl _ \<Rightarrow> [] | Inr m \<Rightarrow> input_of m @ inputs_in from_bytes bodies)"

definition inputs_of :: "(byte list \<Rightarrow> msg option) \<Rightarrow> byte list \<Rightarrow> to_session list" where
  "inputs_of from_bytes bytes = inputs_in from_bytes (fst (frames MAX_CLIENT_MESSAGE bytes))"

lemma inputs_of_partial: "partial MAX_CLIENT_MESSAGE p \<Longrightarrow> inputs_of from_bytes p = []"
  by (simp add: inputs_of_def frames_partial)

definition waits :: "from_client \<Rightarrow> to_session list" where
  "waits f = (case fc_waiting f of None \<Rightarrow> [] | Some i \<Rightarrow> [i])"

definition drained :: "from_client \<Rightarrow> bool" where
  "drained f \<longleftrightarrow> (fc_waiting f = None \<longrightarrow> d_start (fc_decoder f) = 0 \<and> partial MAX_CLIENT_MESSAGE (d_buf (fc_decoder f)))"

section \<open>What taking messages keeps of an epoch\<close>

definition read_on :: "epoch \<Rightarrow> epoch \<Rightarrow> bool" where
  "read_on ep ep' \<longleftrightarrow>
     ep' = ep\<lparr>ep_pace := ep_pace ep'\<rparr> \<and> pc_written (ep_pace ep') = pc_written (ep_pace ep) \<and>
     pc_read (ep_pace ep) \<le> pc_read (ep_pace ep') \<and>
     (pc_budget (ep_pace ep) \<le> MOST_BUDGET \<longrightarrow> pc_budget (ep_pace ep') \<le> MOST_BUDGET)"

lemma read_on_refl [simp]: "read_on ep ep"
  by (simp add: read_on_def)

lemma read_on_trans: "read_on ep ep' \<Longrightarrow> read_on ep' ep'' \<Longrightarrow> read_on ep ep''"
  unfolding read_on_def by (cases ep; cases ep'; cases ep'') auto

lemma clamp_MOST: "clamp LEAST_BUDGET MOST_BUDGET n \<le> MOST_BUDGET"
  by (simp add: clamp_def LEAST_BUDGET_def MOST_BUDGET_def)

lemma pace_read_keeps:
  "pc_written (pace_read bytes now rtt p) = pc_written p"
  "pc_read p \<le> pc_read (pace_read bytes now rtt p)"
  "pc_budget p \<le> MOST_BUDGET \<Longrightarrow> pc_budget (pace_read bytes now rtt p) \<le> MOST_BUDGET"
  by (auto simp: pace_read_def Let_def clamp_MOST split: prod.splits)

lemma take_msg_reads_on: "read_on ep (fst (snd (take_msg now rtt m (f, ep, a))))"
  by (auto simp: take_msg_def read_on_def pace_read_keeps split: client_msg.splits)

lemma take_msg_waits:
  "fc_waiting f = None \<Longrightarrow> waits (fst (take_msg now rtt m (f, ep, a))) = input_of m"
  by (simp add: take_msg_def waits_def input_of_def split: client_msg.splits)

lemma take_msg_pure:
  "take_msg now rtt m (f, ep, a) = (f', ep', a') \<Longrightarrow> fc_decoder f' = fc_decoder f"
  using take_msg_decoder [of now rtt m f ep a] by simp

lemma take_msgs_spec:
  assumes "take_msgs from_bytes now rtt (f, ep, a) = ((f', ep', a'), r)"
    and "fc_waiting f = None" and "d_start (fc_decoder f) \<le> length (d_buf (fc_decoder f))"
  shows "read_on ep ep' \<and> d_start (fc_decoder f') \<le> length (d_buf (fc_decoder f')) \<and>
    length (d_buf (fc_decoder f')) \<le> length (d_buf (fc_decoder f)) \<and>
    (r = Inr () \<longrightarrow> drained f' \<and>
       (\<forall>b. inputs_of from_bytes (pending (fc_decoder f) @ b) = waits f' @ inputs_of from_bytes (pending (fc_decoder f') @ b))) \<and>
    (r \<noteq> Inr () \<longrightarrow> fc_waiting f' = None)"
  using assms
proof (induction from_bytes now rtt "(f, ep, a)" arbitrary: f ep a rule: take_msgs.induct)
  case (1 from_bytes now rtt f ep a)
  show ?case
    using "1.prems"(3)
  proof (cases rule: client_next_cases [of "fc_decoder f" from_bytes])
    case part
    have "f' = f\<lparr>fc_decoder := \<lparr>d_buf = pending (fc_decoder f), d_start = 0\<rparr>\<rparr>" "ep' = ep" "r = Inr ()"
      using "1.prems"(1,2) part by (simp_all add: take_msgs.simps)
    then show ?thesis using part(1) "1.prems"(2)
      by (simp add: drained_def waits_def pending_def)
  next
    case (broken e)
    then show ?thesis using "1.prems" by (auto simp: take_msgs.simps)
  next
    case (whole d' body)
    show ?thesis
    proof (cases "body_msg from_bytes body")
      case (Inl e)
      then show ?thesis using "1.prems" whole by (auto simp: take_msgs.simps)
    next
      case (Inr m)
      have got: "client_next from_bytes (fc_decoder f) = (d', Inr (Some m))"
        using whole(3) Inr by simp
      obtain f1 ep1 a1 where m: "take_msg now rtt m (f\<lparr>fc_decoder := d'\<rparr>, ep, a) = (f1, ep1, a1)"
        by (rule prod_cases3)
      have rest: "take_msgs from_bytes now rtt (f1, ep1, a1) = ((f', ep', a'), r)"
        using "1.prems"(1,2) got m by (simp add: take_msgs.simps [of _ _ _ f])
      have dec: "fc_decoder f1 = d'" using take_msg_pure [OF m] by simp
      have on: "read_on ep ep1" using take_msg_reads_on [of ep now rtt m "f\<lparr>fc_decoder := d'\<rparr>" a] m by simp
      have w1: "waits f1 = input_of m"
        using take_msg_waits [of "f\<lparr>fc_decoder := d'\<rparr>" now rtt m ep a] "1.prems"(2) m by simp
      have ins: "inputs_of from_bytes (pending (fc_decoder f) @ b) = input_of m @ inputs_of from_bytes (pending d' @ b)" for b
        using whole(4) Inr by (simp add: inputs_of_def)
      show ?thesis
      proof (cases "fc_waiting f1")
        case None
        then have "input_of m = []" using w1 by (simp add: waits_def)
        moreover note "1.hyps" [OF _ got [symmetric] refl refl m rest None]
        ultimately show ?thesis
          using "1.prems"(2) whole(1,2) dec ins on read_on_trans [OF on] by auto
      next
        case (Some i)
        then have "f' = f1" "ep' = ep1" "r = Inr ()" using rest by (simp_all add: take_msgs.simps)
        then show ?thesis using Some w1 ins on whole(1,2) dec by (simp add: drained_def)
      qed
    qed
  qed
qed


section \<open>What goes from a stream to the session\<close>

fun brought_by :: "nat \<Rightarrow> serve_arm \<Rightarrow> byte list" where
  "brought_by at (Read_Arm i (Got bytes)) = (if i = at then bytes else [])"
| "brought_by at _ = []"

fun brought :: "nat \<Rightarrow> serve_event list \<Rightarrow> byte list" where
  "brought at [] = []"
| "brought at (Turn t # es) = brought_by at (sv_arm t) @ brought at es"
| "brought at (_ # es) = brought at es"

fun sent_from :: "nat \<Rightarrow> did list \<Rightarrow> to_session list" where
  "sent_from at [] = []"
| "sent_from at (To_Session i input # ds) = (if i = at then [input] else []) @ sent_from at ds"
| "sent_from at (_ # ds) = sent_from at ds"

lemma sent_from_append [simp]: "sent_from at (ds @ ds') = sent_from at ds @ sent_from at ds'"
  by (induction at ds rule: sent_from.induct) auto

text \<open>All of a stream's bytes so far, \<open>bytes\<close>, with whatever comes behind them: what was sent, what
  waits, and what is left in the decoder.\<close>

definition accounted :: "(byte list \<Rightarrow> msg option) \<Rightarrow> byte list \<Rightarrow> to_session list \<Rightarrow> from_client \<Rightarrow> bool" where
  "accounted from_bytes bytes sent f \<longleftrightarrow>
     (\<forall>b. inputs_of from_bytes (bytes @ b) = sent @ waits f @ inputs_of from_bytes (pending (fc_decoder f) @ b))"

lemma accounted_new: "accounted from_bytes [] [] from_client_new"
  by (simp add: accounted_def from_client_new_def waits_def pending_def decoder_new_def)

lemma pending_push: "d_start d \<le> length (d_buf d) \<Longrightarrow> pending (decoder_push d bytes) = pending d @ bytes"
  by (simp add: pending_def decoder_push_def)

lemma accounted_push:
  assumes "accounted from_bytes bytes sent f" "d_start (fc_decoder f) \<le> length (d_buf (fc_decoder f))"
  shows "accounted from_bytes (bytes @ got) sent (f\<lparr>fc_decoder := decoder_push (fc_decoder f) got\<rparr>)"
  using assms unfolding accounted_def by (auto simp: pending_push waits_def simp flip: append_assoc) (simp add: append_assoc)

lemma accounted_send:
  "accounted from_bytes bytes sent f \<Longrightarrow> accounted from_bytes bytes (sent @ waits f) (f\<lparr>fc_waiting := None\<rparr>)"
  by (simp add: accounted_def waits_def)

lemma accounted_prefix: "accounted from_bytes bytes sent f \<Longrightarrow> prefix sent (inputs_of from_bytes (bytes @ b))"
  by (simp add: accounted_def)

section \<open>Bounds\<close>

definition dec_ok :: "from_client \<Rightarrow> bool" where
  "dec_ok f \<longleftrightarrow>
     d_start (fc_decoder f) \<le> length (d_buf (fc_decoder f)) \<and>
     length (d_buf (fc_decoder f)) \<le> MAX_CLIENT_MESSAGE + 4 + READ_BUF"

definition epoch_ok :: "nat \<Rightarrow> nat \<Rightarrow> epoch \<Rightarrow> bool" where
  "epoch_ok R N ep \<longleftrightarrow>
     pc_budget (ep_pace ep) \<le> MOST_BUDGET \<and>
     pc_written (ep_pace ep) - pc_read (ep_pace ep) \<le> max R (MOST_BUDGET + (4 + MAX_SHOWN)) \<and>
     length (ep_queue ep) \<le> ep_capacity ep \<and> ep_capacity ep \<le> WRITER_QUEUE + N"

lemma partial_short: "partial limit p \<Longrightarrow> length p < limit + 4"
  by (auto simp: partial_def body_len_def Let_def split: if_splits)

lemma read_on_ok: "read_on ep ep' \<Longrightarrow> epoch_ok R N ep \<Longrightarrow> epoch_ok R N ep'"
  unfolding read_on_def epoch_ok_def by (cases ep; cases ep') auto

lemma encode_shown_short: "encode_shown postcard m = Inr bytes \<Longrightarrow> length bytes \<le> 4 + MAX_SHOWN"
  by (auto simp: encode_shown_def encode_def Let_def split: if_splits)

lemma sat_add_upto: "sat_add m a b \<le> a + b"
  by (simp add: sat_add_def)

lemma epoch_send_ok:
  assumes "epoch_send postcard now m ep = (ep', ok)" "epoch_ok R N ep" "epoch_room ep"
  shows "epoch_ok R N ep'"
proof (cases "encode_shown postcard m")
  case (Inl e)
  then show ?thesis using assms by (simp add: epoch_send_def)
next
  case (Inr bytes)
  have "sat_add64 (pc_written (ep_pace ep)) (length bytes) \<le> pc_written (ep_pace ep) + (4 + MAX_SHOWN)"
    using sat_add_upto [of u64_max "pc_written (ep_pace ep)" "length bytes"] encode_shown_short [OF Inr] by linarith
  then show ?thesis
    using assms Inr by (auto simp: epoch_send_def epoch_ok_def epoch_room_def pace_room_def Let_def split: if_splits)
qed

text \<open>A redraw's bytes as they are framed, and that an epoch opens with all of it queued.\<close>

definition framed :: "(shown \<Rightarrow> byte list) \<Rightarrow> shown \<Rightarrow> byte list" where
  "framed postcard m = (case encode_shown postcard m of Inl _ \<Rightarrow> [] | Inr bytes \<Rightarrow> bytes)"

definition redraw_bytes :: "(shown \<Rightarrow> byte list) \<Rightarrow> shown list \<Rightarrow> nat" where
  "redraw_bytes postcard shown = (\<Sum>m\<leftarrow>shown. length (framed postcard m))"

definition sends :: "(shown \<Rightarrow> byte list) \<Rightarrow> nat \<Rightarrow> shown list \<Rightarrow> epoch \<Rightarrow> epoch" where
  "sends postcard now shown ep = foldl (\<lambda>ep m. fst (epoch_send postcard now m ep)) ep shown"

lemma sends_spec:
  assumes "\<not> ep_closed ep" "length (ep_queue ep) + length shown \<le> ep_capacity ep"
  shows "ep_queue (sends postcard now shown ep) =
      ep_queue ep @ map (framed postcard) (filter (\<lambda>m. okay (encode_shown postcard m)) shown) \<and>
    ep_capacity (sends postcard now shown ep) = ep_capacity ep \<and>
    pc_budget (ep_pace (sends postcard now shown ep)) = pc_budget (ep_pace ep) \<and>
    pc_written (ep_pace (sends postcard now shown ep)) \<le> pc_written (ep_pace ep) + redraw_bytes postcard shown"
  using assms
proof (induction shown arbitrary: ep)
  case Nil
  then show ?case by (simp add: sends_def redraw_bytes_def)
next
  case (Cons m shown)
  define ep1 where "ep1 = fst (epoch_send postcard now m ep)"
  have go: "sends postcard now (m # shown) ep = sends postcard now shown ep1"
    by (simp add: sends_def ep1_def)
  have one: "\<not> ep_closed ep1 \<and> ep_capacity ep1 = ep_capacity ep \<and> pc_budget (ep_pace ep1) = pc_budget (ep_pace ep) \<and>
      ep_queue ep1 = ep_queue ep @ (if okay (encode_shown postcard m) then [framed postcard m] else []) \<and>
      pc_written (ep_pace ep1) \<le> pc_written (ep_pace ep) + length (framed postcard m)"
    using Cons.prems by (auto simp: ep1_def epoch_send_def framed_def Let_def sat_add_upto split: sum.split)
  have room: "\<not> ep_closed ep1" "length (ep_queue ep1) + length shown \<le> ep_capacity ep1"
    using one Cons.prems by (auto split: if_splits)
  show ?case using Cons.IH [OF room] one by (auto simp: go redraw_bytes_def)
qed

lemma epoch_open_sends:
  "epoch_open postcard now n shown =
     sends postcard now shown \<lparr>ep_n = n, ep_queue = [], ep_capacity = WRITER_QUEUE + length shown,
       ep_closed = False, ep_pace = pace_new now, ep_last_write = now\<rparr>"
  by (simp add: epoch_open_def sends_def)

lemma epoch_open_ok:
  assumes "redraw_bytes postcard shown \<le> R" "length shown \<le> N"
  shows "epoch_ok R N (epoch_open postcard now n shown)"
proof -
  let ?E = "epoch_open postcard now n shown"
  have "length (filter (\<lambda>m. okay (encode_shown postcard m)) shown) \<le> length shown" by simp
  then have "length (ep_queue ?E) \<le> length shown" "ep_capacity ?E = WRITER_QUEUE + length shown"
    "pc_budget (ep_pace ?E) = FIRST_BUDGET" "pc_written (ep_pace ?E) \<le> redraw_bytes postcard shown"
    using sends_spec [of "\<lparr>ep_n = n, ep_queue = [], ep_capacity = WRITER_QUEUE + length shown,
       ep_closed = False, ep_pace = pace_new now, ep_last_write = now\<rparr>" shown postcard now]
    by (simp_all add: epoch_open_sends pace_new_def)
  then show ?thesis
    using assms unfolding epoch_ok_def by (auto simp: FIRST_BUDGET_def MOST_BUDGET_def)
qed


section \<open>A turn\<close>

text \<open>The bounds of a connection, and, while its loop goes on, that its streams hold no message whole
  but behind one that waits.\<close>

definition attach_ok :: "nat \<Rightarrow> nat \<Rightarrow> attached \<Rightarrow> bool" where
  "attach_ok R N s \<longleftrightarrow>
     epoch_ok R N (at_epoch s) \<and> within MAX_TOPS (at_tops s) \<and> length (at_streams s) = 2 \<and>
     length (at_from s) = 2 \<and> (\<forall>f\<in>set (at_from s). dec_ok f)"

definition attach_drained :: "attached \<Rightarrow> bool" where
  "attach_drained s \<longleftrightarrow> (\<forall>f\<in>set (at_from s). drained f)"

definition answer_within :: "link \<Rightarrow> nat \<Rightarrow> nat \<Rightarrow> redraw_answer \<Rightarrow> bool" where
  "answer_within l R N = (\<lambda>(shown, _). redraw_bytes (lk_encode l) shown \<le> R \<and> length shown \<le> N)"

lemma MAX_TOPS_pos: "0 < MAX_TOPS"
  by (simp add: MAX_TOPS_def)

lemma within_push_top: "within MAX_TOPS tops \<Longrightarrow> within MAX_TOPS (push_top topmost at tops)"
  by (simp add: push_top_def within_push_evicting MAX_TOPS_pos split: option.split)

lemma pop_tops_shorter: "length (snd (pop_tops read seen tops)) \<le> length tops"
  by (induction read seen tops rule: pop_tops.induct) auto

lemma see_tops_keeps [simp]:
  "at_from (see_tops s) = at_from s" "at_asked (see_tops s) = at_asked s" "at_exited (see_tops s) = at_exited s"
  "at_epoch (see_tops s) = at_epoch s" "at_streams (see_tops s) = at_streams s" "at_told (see_tops s) = at_told s"
  by (simp_all add: see_tops_def split: prod.split)

lemma see_tops_ok: "attach_ok R N s \<Longrightarrow> attach_ok R N (see_tops s)"
  using pop_tops_shorter [of "pc_read (ep_pace (at_epoch s))" "at_seen s" "items (at_tops s)"]
  by (auto simp: attach_ok_def see_tops_def within_def split: prod.split)

lemma redraw_head_keeps:
  assumes "redraw_head postcard now answer s = (s', ds, how)"
  shows "at_from s' = at_from s" "sent_from at ds = []" "at_exited s' = at_exited s" "at_told s' = at_told s"
    "at_streams s' = at_streams s"
  using assms by (auto simp: redraw_head_def Let_def split: if_splits option.splits prod.splits)

lemma redraw_head_ok:
  assumes "redraw_head (lk_encode l) now answer s = (s', ds, how)" "attach_ok R N s"
    and "\<And>a. answer = Some a \<Longrightarrow> answer_within l R N a"
  shows "attach_ok R N s'"
  using assms
  by (auto simp: redraw_head_def attach_ok_def answer_within_def epoch_open_ok within_push_top within_new Let_def
      split: if_splits option.splits prod.splits)

lemma window_head_keeps:
  assumes "window_head taken s = (s', ds)"
  shows "s' = s\<lparr>at_asked := at_asked s'\<rparr>" "sent_from at ds = []"
  using assms by (auto simp: window_head_def split: if_splits option.splits)

lemma send_or_over_keeps:
  assumes "send_or_over postcard now m s = (s', ds, out)"
  shows "s' = s\<lparr>at_epoch := at_epoch s'\<rparr>" "ds = []"
    "epoch_room (at_epoch s) \<Longrightarrow> epoch_ok R N (at_epoch s) \<Longrightarrow> epoch_ok R N (at_epoch s')"
  using assms epoch_send_ok [of postcard now m "at_epoch s"]
  by (auto simp: send_or_over_def split: prod.splits)

lemma on_session_keeps:
  assumes "on_session postcard now says s = (s', ds, out)"
  shows "at_from s' = at_from s" "ds = []"
    "epoch_room (at_epoch s) \<Longrightarrow> attach_ok R N s \<Longrightarrow> attach_ok R N s'"
proof -
  note sent = send_or_over_keeps [where postcard = postcard and now = now]
  have "at_from s' = at_from s \<and> ds = [] \<and> (epoch_room (at_epoch s) \<longrightarrow> attach_ok R N s \<longrightarrow> attach_ok R N s')"
  proof (cases says)
    case (Says e)
    show ?thesis
    proof (cases e)
      case (Show m)
      obtain s1 ds1 out1 where 1: "send_or_over postcard now m (s\<lparr>at_exited := is_exit m\<rparr>) = (s1, ds1, out1)"
        by (rule prod_cases3)
      have "at_from s1 = at_from s" "at_tops s1 = at_tops s" "at_streams s1 = at_streams s"
        using arg_cong [OF sent(1) [OF 1], of at_from] arg_cong [OF sent(1) [OF 1], of at_tops]
          arg_cong [OF sent(1) [OF 1], of at_streams] by simp_all
      moreover have "epoch_room (at_epoch s) \<Longrightarrow> epoch_ok R N (at_epoch s) \<Longrightarrow> epoch_ok R N (at_epoch s1)"
        using sent(3) [OF 1, of R N] by simp
      ultimately have 2: "at_from s1 = at_from s" "epoch_room (at_epoch s) \<longrightarrow> attach_ok R N s \<longrightarrow> attach_ok R N s1"
        by (simp_all add: attach_ok_def)
      have 3: "s' = s1 \<or> s' = s1\<lparr>at_epoch := (at_epoch s1)\<lparr>ep_closed := True\<rparr>, at_undelivered := instant_add now (FINAL_WAIT * 4)\<rparr>"
        and ds: "ds = ds1"
        using assms Says Show 1 by (simp_all add: on_session_def split: if_splits)
      have "at_from s' = at_from s1" "attach_ok R N s1 \<longrightarrow> attach_ok R N s'"
        using 3 by (auto simp: attach_ok_def epoch_ok_def)
      then show ?thesis using 2 ds sent(2) [OF 1] by simp
    next
      case (Echo_Event attach seq)
      obtain s1 ds1 out1 where 1: "send_or_over postcard now (Echo seq) s = (s1, ds1, out1)"
        by (rule prod_cases3)
      have "at_from s1 = at_from s" "at_tops s1 = at_tops s" "at_streams s1 = at_streams s"
        using arg_cong [OF sent(1) [OF 1], of at_from] arg_cong [OF sent(1) [OF 1], of at_tops]
          arg_cong [OF sent(1) [OF 1], of at_streams] by simp_all
      then show ?thesis
        using assms Says Echo_Event 1 sent(2) [OF 1] sent(3) [OF 1, of R N]
        by (auto simp: on_session_def attach_ok_def split: if_splits)
    next
      case (Top_Event topmost)
      then show ?thesis
        using assms Says
        by (auto simp: on_session_def attach_ok_def within_push_evicting MAX_TOPS_pos)
    qed
  qed (use assms in \<open>auto simp: on_session_def attach_ok_def\<close>)
  then show "at_from s' = at_from s" "ds = []"
    "epoch_room (at_epoch s) \<Longrightarrow> attach_ok R N s \<Longrightarrow> attach_ok R N s'" by auto
qed

text \<open>Taking from a stream that no message waits on.\<close>

lemma take_from_spec:
  assumes "take_from from_bytes now rtt at s = (s', out)"
    and "at < length (at_from s)" "fc_waiting (at_from s ! at) = None" "dec_ok (at_from s ! at)"
  shows "s' = s\<lparr>at_from := (at_from s)[at := at_from s' ! at], at_epoch := at_epoch s', at_asked := at_asked s'\<rparr>"
    "read_on (at_epoch s) (at_epoch s')" "dec_ok (at_from s' ! at)"
    "out = Going \<Longrightarrow> drained (at_from s' ! at)"
    "out = Going \<Longrightarrow> accounted from_bytes bytes sent (at_from s ! at) \<Longrightarrow> accounted from_bytes bytes sent (at_from s' ! at)"
    "out \<noteq> Over how"
proof -
  obtain f ep a r where t: "take_msgs from_bytes now rtt (at_from s ! at, at_epoch s, at_asked s) = ((f, ep, a), r)"
    by (metis prod_cases3 surj_pair)
  note spec = take_msgs_spec [OF t assms(3)]
  have s': "s' = s\<lparr>at_from := (at_from s)[at := f], at_epoch := ep, at_asked := a\<rparr>"
    and out: "out = (case r of Inl e \<Rightarrow> Breach e | Inr _ \<Rightarrow> Going)"
    using assms(1) t by (auto simp: take_from_def)
  have f: "at_from s' ! at = f" using s' assms(2) by simp
  have ok: "r = Inr ()" if "out = Going" using that out by (cases r) auto
  show "s' = s\<lparr>at_from := (at_from s)[at := at_from s' ! at], at_epoch := at_epoch s', at_asked := at_asked s'\<rparr>"
    using s' f by simp
  show "read_on (at_epoch s) (at_epoch s')" "dec_ok (at_from s' ! at)"
    using spec assms(4) s' f by (auto simp: dec_ok_def)
  show "drained (at_from s' ! at)" if "out = Going"
    using spec assms(4) f ok [OF that] by (simp add: dec_ok_def)
  show "accounted from_bytes bytes sent (at_from s' ! at)"
    if "out = Going" "accounted from_bytes bytes sent (at_from s ! at)"
    using spec assms(3,4) f ok [OF that(1)] that(2) by (simp add: dec_ok_def accounted_def waits_def)
  show "out \<noteq> Over how" using out by (cases r) auto
qed


text \<open>The same where the stream was changed first: what it brought pushed, or what waited sent.\<close>

lemma take_changed:
  assumes "take_from from_bytes now rtt i (s\<lparr>at_from := (at_from s)[i := f]\<rparr>) = (s', out)"
    and "attach_ok R N s" "attach_drained s" "i < 2" "fc_waiting f = None" "dec_ok f"
  shows "attach_ok R N s'" "out = Going \<Longrightarrow> attach_drained s'" "out \<noteq> Over how"
    "at \<noteq> i \<Longrightarrow> at_from s' ! at = at_from s ! at"
    "out = Going \<Longrightarrow> accounted from_bytes bytes sent f \<Longrightarrow> accounted from_bytes bytes sent (at_from s' ! i)"
proof -
  let ?s = "s\<lparr>at_from := (at_from s)[i := f]\<rparr>"
  have two: "length (at_from s) = 2" using assms(2) by (simp add: attach_ok_def)
  then have i: "at_from ?s ! i = f" "i < length (at_from ?s)" using assms(4) by simp_all
  note took = take_from_spec [OF assms(1) i(2), unfolded i(1), OF assms(5,6)]
  have s': "at_from s' = (at_from s)[i := at_from s' ! i]" "at_tops s' = at_tops s" "at_streams s' = at_streams s"
    using arg_cong [OF took(1), of at_from] arg_cong [OF took(1), of at_tops] arg_cong [OF took(1), of at_streams] by simp_all
  have old: "set (at_from s') \<subseteq> insert (at_from s' ! i) (set (at_from s))"
    by (subst s'(1)) (rule set_update_subset_insert)
  have len: "length (at_from s') = 2" using arg_cong [OF s'(1), of length] two by simp
  show "attach_ok R N s'"
    using assms(2) took(3) read_on_ok [of "at_epoch s" "at_epoch s'" R N] took(2) s'(2,3) len old
    by (auto simp: attach_ok_def)
  show "attach_drained s'" if "out = Going"
    using assms(3) took(4) [OF that] old by (auto simp: attach_drained_def)
  show "out \<noteq> Over how" by (rule took(6))
  show "at_from s' ! at = at_from s ! at" if "at \<noteq> i"
    using arg_cong [OF s'(1), of "\<lambda>x. x ! at"] that by simp
  show "accounted from_bytes bytes sent (at_from s' ! i)" if "out = Going" "accounted from_bytes bytes sent f"
    using took(5) that by blast
qed

text \<open>What a turn keeps of a stream's account: all of it while the loop goes on; and what was sent is
  always the first of what the stream said.\<close>

definition turn_keeps ::
    "nat \<Rightarrow> nat \<Rightarrow> (byte list \<Rightarrow> msg option) \<Rightarrow> nat \<Rightarrow> byte list \<Rightarrow> to_session list \<Rightarrow> attached \<Rightarrow> bool \<Rightarrow> bool" where
  "turn_keeps R N from_bytes at bytes sent s going \<longleftrightarrow>
     attach_ok R N s \<and> (\<forall>b. prefix sent (inputs_of from_bytes (bytes @ b))) \<and>
     (going \<longrightarrow> attach_drained s \<and> accounted from_bytes bytes sent (at_from s ! at))"

lemma turn_keepsI:
  "attach_ok R N s \<Longrightarrow> attach_drained s \<Longrightarrow> accounted from_bytes bytes sent (at_from s ! at) \<Longrightarrow>
    turn_keeps R N from_bytes at bytes sent s going"
  by (auto simp: turn_keeps_def accounted_prefix)

lemma first_waiting_SomeD:
  assumes "first_waiting s = Some i"
  shows "i < length (at_from s)" "fc_waiting (at_from s ! i) \<noteq> None"
  using assms position_SomeD by (fastforce simp: first_waiting_def)+

lemma on_permit_keeps:
  assumes "on_permit from_bytes now rtt permit s = (s', ds, out)"
    and "turn_keeps R N from_bytes at bytes sent s True"
  shows "turn_keeps R N from_bytes at bytes (sent @ sent_from at ds) s' (out = Going)"
proof (cases "if permit then first_waiting s else None")
  case None
  then have "s' = s" "ds = []" using assms(1) by (auto simp: on_permit_def split: if_splits)
  then show ?thesis using assms(2) by (simp add: turn_keeps_def)
next
  case (Some i)
  then have here: "permit" "first_waiting s = Some i" by (auto split: if_splits)
  let ?f = "at_from s ! i"
  have ok: "attach_ok R N s" "attach_drained s" "accounted from_bytes bytes sent (at_from s ! at)"
    using assms(2) by (simp_all add: turn_keeps_def)
  note i = first_waiting_SomeD [OF here(2)]
  have two: "i < 2" using i(1) ok(1) by (simp add: attach_ok_def)
  have dec: "dec_ok (?f\<lparr>fc_waiting := None\<rparr>)" using ok(1) i(1) by (auto simp: attach_ok_def dec_ok_def)
  obtain input where w: "fc_waiting ?f = Some input" using i(2) by auto
  obtain s1 out1 where took: "take_from from_bytes now rtt i (s\<lparr>at_from := (at_from s)[i := ?f\<lparr>fc_waiting := None\<rparr>]\<rparr>) = (s1, out1)"
    by fastforce
  have went: "s' = s1" "ds = [To_Session i input]" "out = out1"
    using assms(1) here took w by (simp_all add: on_permit_def)
  note keeps = take_changed [OF took ok(1,2) two _ dec, simplified]
  show ?thesis
  proof (cases "at = i")
    case True
    have "accounted from_bytes bytes (sent @ [input]) (?f\<lparr>fc_waiting := None\<rparr>)"
      using accounted_send [OF ok(3)] True w by (simp add: waits_def)
    then show ?thesis
      using keeps(1,2) keeps(5) [of bytes "sent @ [input]"] True went accounted_prefix
      by (auto simp: turn_keeps_def)
  next
    case False
    then show ?thesis
      using keeps(1,2,4) went ok(3) accounted_prefix by (auto simp: turn_keeps_def)
  qed
qed

lemma drained_push:
  assumes "drained f" "fc_waiting f = None" "dec_ok f" "length got \<le> READ_BUF"
  shows "dec_ok (f\<lparr>fc_decoder := decoder_push (fc_decoder f) got\<rparr>)"
proof -
  have "partial MAX_CLIENT_MESSAGE (d_buf (fc_decoder f))" "d_start (fc_decoder f) = 0"
    using assms(1,2) by (simp_all add: drained_def)
  then show ?thesis
    using partial_short [of MAX_CLIENT_MESSAGE "d_buf (fc_decoder f)"] assms(4)
    by (simp add: dec_ok_def decoder_push_def)
qed

lemma on_read_keeps:
  assumes "on_read from_bytes now rtt i r s = (s', ds, out)"
    and "turn_keeps R N from_bytes at bytes sent s True"
    and "wants i s" "\<And>got. r = Got got \<Longrightarrow> length got \<le> READ_BUF"
  shows "turn_keeps R N from_bytes at (bytes @ brought_by at (Read_Arm i r)) (sent @ sent_from at ds) s' (out = Going)"
proof (cases r)
  case (Got got)
  let ?f = "at_from s ! i"
  have ok: "attach_ok R N s" "attach_drained s" "accounted from_bytes bytes sent (at_from s ! at)"
    using assms(2) by (simp_all add: turn_keeps_def)
  have i: "i < 2" "fc_waiting ?f = None" "dec_ok ?f" "drained ?f"
    using assms(3) ok(1,2) by (auto simp: wants_def attach_ok_def attach_drained_def)
  let ?g = "?f\<lparr>fc_decoder := decoder_push (fc_decoder ?f) got\<rparr>"
  have dec: "dec_ok ?g" by (rule drained_push [OF i(4,2,3) assms(4) [OF Got]])
  obtain s1 out1 where took: "take_from from_bytes now rtt i (s\<lparr>at_from := (at_from s)[i := ?g]\<rparr>) = (s1, out1)"
    by fastforce
  have went: "s' = s1" "ds = []" "out = out1"
    using assms(1) Got took by (simp_all add: on_read_def)
  note keeps = take_changed [OF took ok(1,2) i(1) _ dec, simplified, OF i(2)]
  show ?thesis
  proof (cases "at = i")
    case True
    have "accounted from_bytes (bytes @ got) sent ?g"
      using accounted_push ok(3) i(3) True by (simp add: dec_ok_def)
    then show ?thesis
      using keeps(1,2) keeps(5) [of "bytes @ got" sent] True went Got accounted_prefix
      by (auto simp: turn_keeps_def simp flip: append_assoc)
  next
    case False
    then show ?thesis
      using keeps(1,2,4) went ok(3) accounted_prefix Got by (auto simp: turn_keeps_def)
  qed
next
  case Stream_End
  then show ?thesis using assms(1,2) by (auto simp: on_read_def turn_keeps_def attach_ok_def attach_drained_def)
next
  case Stream_Failed
  then show ?thesis using assms(1,2) by (auto simp: on_read_def turn_keeps_def)
qed


lemma serve_arm_keeps:
  assumes "serve_arm_step l t s = (s', ds, out)" "serve_ready (sv_now t) (sv_arm t) s"
    and "turn_keeps R N (lk_decode l) at bytes sent s True"
  shows "turn_keeps R N (lk_decode l) at (bytes @ brought_by at (sv_arm t)) (sent @ sent_from at ds) s' (out = Going)"
proof -
  have same: "turn_keeps R N (lk_decode l) at bytes sent s' going"
    if "at_from s' = at_from s" "attach_ok R N s'" for going
    using assms(3) that by (simp add: turn_keeps_def attach_drained_def)
  have ok: "attach_ok R N s" using assms(3) by (simp add: turn_keeps_def)
  show ?thesis
  proof (cases "sv_arm t")
    case (Session_Arm says)
    then have on: "on_session (lk_encode l) (sv_now t) says s = (s', ds, out)" and "epoch_room (at_epoch s)"
      using assms(1,2) by (simp_all add: serve_arm_step_def serve_ready_def)
    with on_session_keeps [OF on] ok same show ?thesis using Session_Arm by simp
  next
    case (Delivered_Arm delivered)
    then have "at_from s' = at_from s" "sent_from at ds = []" "attach_ok R N s'"
      using assms(1) ok by (auto simp: serve_arm_step_def on_delivered_def attach_ok_def split: if_splits)
    then show ?thesis using same Delivered_Arm by simp
  next
    case Undelivered_Arm
    then show ?thesis using assms(1) ok same by (auto simp: serve_arm_step_def)
  next
    case Beat_Arm
    then have on: "send_or_over (lk_encode l) (sv_now t) Beat s = (s', ds, out)" and room: "epoch_room (at_epoch s)"
      using assms(1,2) by (simp_all add: serve_arm_step_def serve_ready_def)
    have keeps: "at_from s' = at_from s" "at_tops s' = at_tops s" "at_streams s' = at_streams s"
      using arg_cong [OF send_or_over_keeps(1) [OF on], of at_from] arg_cong [OF send_or_over_keeps(1) [OF on], of at_tops]
        arg_cong [OF send_or_over_keeps(1) [OF on], of at_streams] by simp_all
    then have "attach_ok R N s'"
      using ok send_or_over_keeps(3) [OF on room] by (simp add: attach_ok_def)
    then show ?thesis using same keeps(1) send_or_over_keeps(2) [OF on] Beat_Arm by simp
  next
    case (Permit_Arm permit)
    then show ?thesis using assms(1,3) on_permit_keeps by (simp add: serve_arm_step_def)
  next
    case (Accept_Arm stream)
    then have "at_from s' = at_from s" "ds = []" "attach_ok R N s'"
      using assms(1) ok by (auto simp: serve_arm_step_def on_accept_def attach_ok_def split: if_splits)
    then show ?thesis using same Accept_Arm by simp
  next
    case (Read_Arm i r)
    then have "on_read (lk_decode l) (sv_now t) (sv_rtt t) i r s = (s', ds, out)" "wants i s"
      "\<And>got. r = Got got \<Longrightarrow> length got \<le> READ_BUF"
      using assms(1,2) by (auto simp: serve_arm_step_def serve_ready_def)
    from on_read_keeps [OF this(1) assms(3) this(2,3)] show ?thesis using Read_Arm by simp
  qed
qed

lemma serve_step_keeps:
  assumes "serve_step l t s = Some (s', ds, how)"
    and "turn_keeps R N (lk_decode l) at bytes sent s True"
    and "\<And>a. sv_redraw t = Some a \<Longrightarrow> answer_within l R N a"
  shows "turn_keeps R N (lk_decode l) at (bytes @ brought_by at (sv_arm t)) (sent @ sent_from at ds) s' (how = None)"
proof -
  obtain s1 ds1 how1 where head: "redraw_head (lk_encode l) (sv_now t) (sv_redraw t) (see_tops s) = (s1, ds1, how1)"
    by (rule prod_cases3)
  have ok1: "turn_keeps R N (lk_decode l) at bytes (sent @ sent_from at ds1) s1 True"
    using redraw_head_keeps [OF head] redraw_head_ok [OF head see_tops_ok assms(3)] assms(2)
    by (simp add: turn_keeps_def attach_drained_def)
  show ?thesis
  proof (cases how1)
    case (Some w)
    have "turn_keeps R N (lk_decode l) at (bytes @ got) (sent @ sent_from at ds1) s1 False" for got
      using ok1 by (simp add: turn_keeps_def)
    then show ?thesis using assms(1) head Some by (auto simp: serve_step_def)
  next
    case None
    obtain s2 ds2 where window: "window_head (sv_resized t) s1 = (s2, ds2)" by fastforce
    have same: "at_from s2 = at_from s1" "at_epoch s2 = at_epoch s1" "at_tops s2 = at_tops s1" "at_streams s2 = at_streams s1"
      using arg_cong [OF window_head_keeps(1) [OF window], of at_from] arg_cong [OF window_head_keeps(1) [OF window], of at_epoch]
        arg_cong [OF window_head_keeps(1) [OF window], of at_tops] arg_cong [OF window_head_keeps(1) [OF window], of at_streams]
      by simp_all
    have ok2: "turn_keeps R N (lk_decode l) at bytes (sent @ sent_from at (ds1 @ ds2)) s2 True"
      using ok1 same window_head_keeps(2) [OF window, of at] by (simp add: turn_keeps_def attach_ok_def attach_drained_def)
    obtain s3 ds3 out where arm: "serve_arm_step l t s2 = (s3, ds3, out)" by (rule prod_cases3)
    have ready: "serve_ready (sv_now t) (sv_arm t) s2"
      using assms(1) head None window by (simp add: serve_step_def split: if_splits)
    note kept = serve_arm_keeps [OF arm ready ok2]
    show ?thesis
      using assms(1) head None window arm ready kept
      by (cases out) (auto simp: serve_step_def)
  qed
qed

text \<open>The redraws a run asks of the session are its turns'.\<close>

fun answers :: "serve_event list \<Rightarrow> redraw_answer list" where
  "answers [] = []"
| "answers (Turn t # es) = (case sv_redraw t of None \<Rightarrow> [] | Some a \<Rightarrow> [a]) @ answers es"
| "answers (_ # es) = answers es"

lemma writer_keeps:
  "turn_keeps R N fb at bytes sent s going \<Longrightarrow> turn_keeps R N fb at bytes sent (writer_took s) going"
  "turn_keeps R N fb at bytes sent s going \<Longrightarrow> turn_keeps R N fb at bytes sent (writer_gone s) going"
  by (auto simp: turn_keeps_def attach_ok_def attach_drained_def epoch_ok_def writer_took_def writer_gone_def)

lemma serve_run_keeps:
  assumes "serve_run l es s = Some (s', ds, how)"
    and "turn_keeps R N (lk_decode l) at bytes sent s True"
    and "\<And>a. a \<in> set (answers es) \<Longrightarrow> answer_within l R N a"
  shows "turn_keeps R N (lk_decode l) at (bytes @ brought at es) (sent @ sent_from at ds) s' (how = None)"
  using assms
proof (induction l es s arbitrary: bytes sent ds rule: serve_run.induct)
  case (1 l s)
  then show ?case by simp
next
  case (2 l es s)
  then show ?case using writer_keeps(1) by (fastforce split: if_splits)
next
  case (3 l es s)
  then show ?case using writer_keeps(2) by fastforce
next
  case (4 l t es s)
  obtain s1 ds1 how1 where step: "serve_step l t s = Some (s1, ds1, how1)"
    using "4.prems"(1) by (auto split: option.splits)
  have now: "answer_within l R N a" if "sv_redraw t = Some a" for a
    using "4.prems"(3) that by simp
  note kept = serve_step_keeps [OF step "4.prems"(2) now]
  show ?case
  proof (cases how1)
    case (Some w)
    then show ?thesis using "4.prems"(1) step kept by (auto split: if_splits)
  next
    case None
    then obtain ds2 where rest: "serve_run l es s1 = Some (s', ds2, how)" and ds: "ds = ds1 @ ds2"
      using "4.prems"(1) step by auto
    have later: "answer_within l R N a" if "a \<in> set (answers es)" for a
      using "4.prems"(3) that by simp
    have "turn_keeps R N (lk_decode l) at ((bytes @ brought_by at (sv_arm t)) @ brought at es)
        ((sent @ sent_from at ds1) @ sent_from at ds2) s' (how = None)"
      using None kept by (intro "4.IH" [OF step refl refl _ rest _ later]) simp_all
    then show ?thesis using ds by simp
  qed
qed

lemma attach_begin_keeps:
  assumes "answer_within l R N answer" "at < 2"
  shows "turn_keeps R N (lk_decode l) at [] [] (attach_begin (lk_encode l) now attach answer) True"
proof (rule turn_keepsI)
  have new: "drained from_client_new" "dec_ok from_client_new"
    by (simp_all add: from_client_new_def drained_def dec_ok_def decoder_new_def)
  show "attach_ok R N (attach_begin (lk_encode l) now attach answer)"
    using assms new
    by (auto simp: attach_begin_def attach_ok_def answer_within_def epoch_open_ok within_push_top within_new Let_def split: prod.split)
  show "attach_drained (attach_begin (lk_encode l) now attach answer)"
    using new by (auto simp: attach_begin_def attach_drained_def Let_def split: prod.split)
  have "at_from (attach_begin (lk_encode l) now attach answer) ! at = from_client_new"
    using assms(2) by (cases at) (auto simp: attach_begin_def Let_def split: prod.split)
  then show "accounted (lk_decode l) [] [] (at_from (attach_begin (lk_encode l) now attach answer) ! at)"
    by (simp add: accounted_new)
qed


text \<open>A run's redraws are within some bound.\<close>

lemma answers_within: "\<exists>R N. \<forall>a\<in>set as. answer_within l R N a"
proof (induction as)
  case (Cons a as)
  then obtain R N where 1: "\<forall>a\<in>set as. answer_within l R N a" by blast
  obtain shown topmost where a: "a = (shown, topmost)" by (rule prod.exhaust)
  have "answer_within l (max R (redraw_bytes (lk_encode l) shown)) (max N (length shown)) b" if "b \<in> set (a # as)" for b
    using 1 a that by (auto simp: answer_within_def)
  then show ?case by blast
qed simp

lemma run_keeps:
  assumes "serve_run l es (attach_begin (lk_encode l) now attach answer) = Some (s, ds, how)" "at < 2"
    and "\<forall>a\<in>set (answer # answers es). answer_within l R N a"
  shows "turn_keeps R N (lk_decode l) at (brought at es) (sent_from at ds) s (how = None)"
  using serve_run_keeps [OF assms(1) attach_begin_keeps [of l R N answer at now attach, OF _ assms(2)]] assms(3) by simp

section \<open>A connection, run\<close>

definition a_link :: link where
  "a_link = \<lparr>lk_encode = (\<lambda>_. [1]), lk_decode = (\<lambda>b. Some (Keys (unat (hd b)) []))\<rparr>"

definition a_turn :: "serve_arm \<Rightarrow> serve_event" where
  "a_turn arm = Turn \<lparr>sv_now = 0, sv_rtt = 0, sv_redraw = None, sv_resized = False, sv_arm = arm\<rparr>"

definition a_run :: "serve_event list" where
  "a_run = map a_turn [Read_Arm 0 (Got [0, 0, 0]), Read_Arm 0 (Got [1, 7, 0, 0, 0, 1, 8]), Permit_Arm True, Permit_Arm True]"

lemma a_run_done:
  "map_option (\<lambda>(s, ds, how). (ds, how, map fc_waiting (at_from s)))
      (serve_run a_link a_run (attach_begin (lk_encode a_link) 0 1 ([Beat], None))) =
    Some ([To_Session 0 (Events 7 []), To_Session 0 (Events 8 [])], None, [None, None])"
  by (simp add: a_run_def a_turn_def a_link_def attach_begin_def serve_step_def redraw_head_def window_head_def
      see_tops_def serve_ready_def serve_arm_step_def on_read_def on_permit_def take_from_def take_msgs.simps
      take_msg_def client_next_def next_msg_def next_body_def pending_def decoder_push_def compact_def
      body_len_def u32_of_be_def MAX_CLIENT_MESSAGE_def MAX_PASTE_def wants_def first_waiting_def READ_BUF_def
      from_client_new_def decoder_new_def asked_new_def push_top_def bounded_new_def msg_check_def check_events_def
      bindE_def Let_def)

text \<open>C23: input reaches the session in order. Over any run of a connection's loop, however the client's
  streams were cut into reads, however often the session had no room for input and whatever came between
  (redraws, windows, what the program shows), what the session was sent from a stream is the first of the
  input that the stream's bytes are messages of, in their order, each once; and as long as the loop goes on
  and nothing of the stream waits for the session, it is all of it: no message is left in the decoder for
  want of a further read.\<close>

theorem input_reaches_the_session_in_order:
  assumes "serve_run l es (attach_begin (lk_encode l) now attach answer) = Some (s, ds, how)" "at < 2"
  shows "prefix (sent_from at ds) (inputs_of (lk_decode l) (brought at es)) \<and>
    (how = None \<longrightarrow> fc_waiting (at_from s ! at) = None \<longrightarrow>
      sent_from at ds = inputs_of (lk_decode l) (brought at es))"
proof -
  obtain R N where within: "\<forall>a\<in>set (answer # answers es). answer_within l R N a"
    using answers_within by blast
  note kept = run_keeps [OF assms within]
  have "prefix (sent_from at ds) (inputs_of (lk_decode l) (brought at es @ []))"
    using kept unfolding turn_keeps_def by blast
  moreover have "sent_from at ds = inputs_of (lk_decode l) (brought at es)"
    if "how = None" and none: "fc_waiting (at_from s ! at) = None"
  proof -
    let ?f = "at_from s ! at"
    have ok: "length (at_from s) = 2" "drained ?f" and acc: "accounted (lk_decode l) (brought at es) (sent_from at ds) ?f"
      using kept that(1) assms(2) by (auto simp: turn_keeps_def attach_ok_def attach_drained_def)
    have "partial MAX_CLIENT_MESSAGE (pending (fc_decoder ?f))"
      using ok(2) none by (simp add: drained_def pending_def)
    then show ?thesis
      using acc [unfolded accounted_def, rule_format, of "[]"] none by (simp add: waits_def inputs_of_partial)
  qed
  ultimately show ?thesis by simp
qed

theorem input_reaches_the_session_in_order_witness:
  "\<exists>s ds. serve_run a_link a_run (attach_begin (lk_encode a_link) 0 1 ([Beat], None)) = Some (s, ds, None) \<and>
    inputs_of (lk_decode a_link) (brought 0 a_run) = [Events 7 [], Events 8 []]"
proof -
  obtain s ds where "serve_run a_link a_run (attach_begin (lk_encode a_link) 0 1 ([Beat], None)) = Some (s, ds, None)"
    and "ds = [To_Session 0 (Events 7 []), To_Session 0 (Events 8 [])]" "map fc_waiting (at_from s) = [None, None]"
    using a_run_done by auto
  moreover from this(3) have "fc_waiting (at_from s ! 0) = None" by (cases "at_from s") auto
  ultimately show ?thesis using input_reaches_the_session_in_order [of a_link a_run 0 1 "([Beat], None)" s ds None 0] by auto
qed

text \<open>C24: a connection holds little, and is never far ahead of its client. Over any run of its loop whose
  redraws take at most \<open>R\<close> bytes in \<open>N\<close> messages each: what was queued of the epoch past what the client
  said it read is at most the redraw, or the largest budget and one message; the writer's queue, the tops kept and
  each stream's buffer stay within their bounds.\<close>

theorem a_connection_keeps_its_pace:
  assumes "serve_run l es (attach_begin (lk_encode l) now attach answer) = Some (s, ds, how)"
    and "\<forall>(shown, topmost)\<in>set (answer # answers es). redraw_bytes (lk_encode l) shown \<le> R \<and> length shown \<le> N"
  shows "pc_written (ep_pace (at_epoch s)) - pc_read (ep_pace (at_epoch s)) \<le> max R (MOST_BUDGET + (4 + MAX_SHOWN)) \<and>
    length (ep_queue (at_epoch s)) \<le> WRITER_QUEUE + N \<and> length (items (at_tops s)) \<le> MAX_TOPS \<and>
    (\<forall>f\<in>set (at_from s). length (d_buf (fc_decoder f)) \<le> MAX_CLIENT_MESSAGE + 4 + READ_BUF)"
proof -
  have "\<forall>a\<in>set (answer # answers es). answer_within l R N a"
    using assms(2) by (simp add: answer_within_def)
  then have "attach_ok R N s"
    using run_keeps [OF assms(1), of 0 R N] by (simp add: turn_keeps_def)
  then show ?thesis
    by (simp add: attach_ok_def epoch_ok_def within_def dec_ok_def)
qed

theorem a_connection_keeps_its_pace_witness:
  "\<exists>s ds. serve_run a_link a_run (attach_begin (lk_encode a_link) 0 1 ([Beat], None)) = Some (s, ds, None) \<and>
    length (ep_queue (at_epoch s)) \<le> WRITER_QUEUE + 1"
proof -
  obtain s ds where "serve_run a_link a_run (attach_begin (lk_encode a_link) 0 1 ([Beat], None)) = Some (s, ds, None)"
    using a_run_done by auto
  moreover have "answers a_run = []" by (simp add: a_run_def a_turn_def)
  moreover have "redraw_bytes (lk_encode a_link) [Beat] \<le> 5"
    by (simp add: redraw_bytes_def framed_def a_link_def encode_shown_def encode_def MAX_SHOWN_def MAX_OUT_def u32_be_bytes_def)
  ultimately show ?thesis
    using a_connection_keeps_its_pace [of a_link a_run 0 1 "([Beat], None)" s ds None 5 1] by auto
qed

end
