(* ===== verification/Koh_Keys.thy ===== *)
theory Koh_Keys
  imports Koh_Events Koh_Stream
begin

text \<open>
  \<open>src/src/client/input.rs\<close> and \<open>src/src/client/probe.rs\<close>: what the client reads from the user's terminal.
  fux-vt's decoder is a state of any kind with the operations the code calls; its replies are those the
  exhaustive match names. \<open>key_bytes\<close> is a key's legacy bytes.
\<close>

section \<open>The questions\<close>

definition osc_query :: "string \<Rightarrow> byte list" where
  "osc_query q = ESC # ascii q @ [ESC, 0x5c]"

definition CSI_C :: "byte list" where "CSI_C = ESC # ascii ''[c''"

definition QUERIES :: "byte list" where "QUERIES = ESC # ascii ''[?996n'' @ CSI_C"

definition COLOUR_QUERIES :: "byte list" where
  "COLOUR_QUERIES = osc_query '']10;?'' @ osc_query '']11;?'' @
     concat (map osc_query
       ['']4;0;?'', '']4;1;?'', '']4;2;?'', '']4;3;?'', '']4;4;?'', '']4;5;?'', '']4;6;?'', '']4;7;?'',
        '']4;8;?'', '']4;9;?'', '']4;10;?'', '']4;11;?'', '']4;12;?'', '']4;13;?'', '']4;14;?'', '']4;15;?'']) @
     CSI_C"

definition probe_queries :: "bool \<Rightarrow> byte list" where
  "probe_queries colours =
     (if colours
      then (case strip_suffix CSI_C COLOUR_QUERIES of Some q \<Rightarrow> q | None \<Rightarrow> COLOUR_QUERIES) else []) @ QUERIES"

section \<open>The machine\<close>

definition ESCAPE_PREFIX :: byte where "ESCAPE_PREFIX = 0x1e"
definition SUSPEND_KEY :: byte where "SUSPEND_KEY = 0x1a"

datatype reply =
    R_Scheme wire_scheme | R_Foreground rgb | R_Background rgb | R_Palette nat rgb | R_Attributes | R_Other

record 'd decoder =
  dc_new :: 'd
  dc_bytes :: "'d \<Rightarrow> byte list \<Rightarrow> 'd \<times> reply vt_input list"
  dc_mark :: "'d \<Rightarrow> nat \<Rightarrow> 'd"
  dc_deadline :: "'d \<Rightarrow> nat option"
  dc_timeout :: "'d \<Rightarrow> 'd \<times> reply vt_input list"
  dc_expect :: "'d \<Rightarrow> nat \<Rightarrow> 'd"
  dc_key_bytes :: "key_press \<Rightarrow> byte list"

record read_in =
  in_events :: "input_event list"
  in_quit :: bool
  in_suspend :: bool
  in_colours :: "wire_colours option"
  in_paste_too_long :: bool

definition read_none :: read_in where
  "read_none = \<lparr>in_events = [], in_quit = False, in_suspend = False, in_colours = None, in_paste_too_long = False\<rparr>"

record 'd keys =
  ky_decoder :: 'd
  ky_prefix :: "keystroke option"
  ky_colours :: "wire_colours option"
  ky_asked :: bool
  ky_reports :: bool
  ky_ask :: "byte list"
  ky_partial :: "byte list"

definition colours_none :: wire_colours where
  "colours_none = \<lparr>c_foreground = None, c_background = None, c_palette = replicate PALETTE None, c_scheme = None\<rparr>"

definition keys_new :: "'d decoder \<Rightarrow> nat \<Rightarrow> bool \<Rightarrow> 'd keys" where
  "keys_new dc now colours =
     \<lparr>ky_decoder = dc_expect dc (dc_new dc) now, ky_prefix = None,
      ky_colours = (if colours then Some colours_none else None), ky_asked = colours, ky_reports = False,
      ky_ask = probe_queries colours, ky_partial = []\<rparr>"

definition take_questions :: "'d keys \<Rightarrow> 'd keys \<times> byte list" where
  "take_questions k = (k\<lparr>ky_ask := []\<rparr>, ky_ask k)"

definition keys_colours :: "'d keys \<Rightarrow> wire_colours option" where
  "keys_colours k =
     (case ky_colours k of Some c \<Rightarrow> if colours_known c then Some c else None | None \<Rightarrow> None)"

text \<open>An answer of the terminal's, and the colours to tell, if it was a round's last.\<close>

definition scheme_reply :: "'d decoder \<Rightarrow> nat \<Rightarrow> wire_colours \<Rightarrow> wire_scheme \<Rightarrow> 'd keys \<Rightarrow> 'd keys" where
  "scheme_reply dc now c scheme k =
     (let k1 = k\<lparr>ky_colours := Some (c\<lparr>c_scheme := Some scheme\<rparr>), ky_reports := True,
                 ky_ask := ky_ask k @ (if ky_reports k then [] else ESC # ascii ''[?2031h'')\<rparr>
      in if ky_asked k then k1
         else k1\<lparr>ky_asked := True, ky_ask := ky_ask k1 @ COLOUR_QUERIES,
                 ky_decoder := dc_expect dc (ky_decoder k1) now\<rparr>)"

definition keys_reply :: "'d decoder \<Rightarrow> nat \<Rightarrow> reply \<Rightarrow> 'd keys \<Rightarrow> 'd keys \<times> wire_colours option" where
  "keys_reply dc now reply k =
     (case ky_colours k of
        None \<Rightarrow> (k, None)
      | Some c \<Rightarrow>
          (case reply of
             R_Scheme scheme \<Rightarrow> (scheme_reply dc now c scheme k, None)
           | R_Foreground rgb \<Rightarrow> (k\<lparr>ky_colours := Some (c\<lparr>c_foreground := Some rgb\<rparr>)\<rparr>, None)
           | R_Background rgb \<Rightarrow> (k\<lparr>ky_colours := Some (c\<lparr>c_background := Some rgb\<rparr>)\<rparr>, None)
           | R_Palette n rgb \<Rightarrow>
               (if n < length (c_palette c)
                then k\<lparr>ky_colours := Some (c\<lparr>c_palette := (c_palette c)[n := Some rgb]\<rparr>)\<rparr> else k, None)
           | R_Attributes \<Rightarrow>
               if ky_asked k then (k\<lparr>ky_asked := False\<rparr>, if colours_known c then Some c else None) else (k, None)
           | R_Other \<Rightarrow> (k, None)))"

text \<open>What an input's key is in legacy bytes, where that matters: a key with Ctrl, or after the prefix.\<close>

definition legacy_key :: "'d decoder \<Rightarrow> 'd keys \<Rightarrow> reply vt_input \<Rightarrow> byte list option" where
  "legacy_key dc k i =
     (case i of
        In_Key s \<Rightarrow>
          if m_ctrl (kp_mods (ks_press s)) \<or> ky_prefix k \<noteq> None then Some (dc_key_bytes dc (ks_press s)) else None
      | _ \<Rightarrow> None)"

definition read_input :: "reply vt_input \<Rightarrow> read_in \<Rightarrow> read_in" where
  "read_input i r =
     r\<lparr>in_events := in_events r @ (case from_input i of Some e \<Rightarrow> [e] | None \<Rightarrow> [])\<rparr>"

text \<open>One input of \<open>take\<close>'s loop, and whether the loop goes on.\<close>

definition take_one :: "'d decoder \<Rightarrow> nat \<Rightarrow> reply vt_input \<Rightarrow> 'd keys \<times> read_in \<Rightarrow> ('d keys \<times> read_in) \<times> bool" where
  "take_one dc now i = (\<lambda>(k, r).
     case i of
       In_Reply reply \<Rightarrow>
         (case keys_reply dc now reply k of
            (k', None) \<Rightarrow> ((k', r), True)
          | (k', Some c) \<Rightarrow> ((k', r\<lparr>in_colours := Some c\<rparr>), True))
     | Paste_Too_Long \<Rightarrow> ((k, r\<lparr>in_paste_too_long := True\<rparr>), True)
     | _ \<Rightarrow>
         (let key = legacy_key dc k i in
          case ky_prefix k of
            Some prefix \<Rightarrow>
              (let k' = k\<lparr>ky_prefix := None\<rparr> in
               if key = Some [0x2e] then ((k', r\<lparr>in_quit := True\<rparr>), False)
               else if key = Some [SUSPEND_KEY] then ((k', r\<lparr>in_suspend := True\<rparr>), True)
               else
                 (let r' = r\<lparr>in_events := in_events r @ [Key (key_from_stroke prefix)]\<rparr> in
                  if key = Some [ESCAPE_PREFIX] \<or> key = Some [0x5e] then ((k', r'), True)
                  else ((k', read_input i r'), True)))
          | None \<Rightarrow>
              if key = Some [ESCAPE_PREFIX]
              then ((case i of In_Key s \<Rightarrow> k\<lparr>ky_prefix := Some s\<rparr> | _ \<Rightarrow> k, r), True)
              else ((k, read_input i r), True)))"

fun take_all :: "'d decoder \<Rightarrow> nat \<Rightarrow> reply vt_input list \<Rightarrow> 'd keys \<times> read_in \<Rightarrow> 'd keys \<times> read_in" where
  "take_all dc now [] s = s"
| "take_all dc now (i # is) s =
     (case take_one dc now i s of (s', going) \<Rightarrow> if going then take_all dc now is s' else s')"

definition keys_take :: "'d decoder \<Rightarrow> nat \<Rightarrow> reply vt_input list \<Rightarrow> 'd keys \<Rightarrow> 'd keys \<times> read_in" where
  "keys_take dc now decoded k = take_all dc now decoded (k, read_none)"

definition keys_bytes :: "'d decoder \<Rightarrow> nat \<Rightarrow> byte list \<Rightarrow> 'd keys \<Rightarrow> 'd keys \<times> read_in" where
  "keys_bytes dc now new k =
     (let bytes = ky_partial k @ new;
          at = length bytes - incomplete_utf8 bytes;
          (d1, decoded) = dc_bytes dc (ky_decoder k) (take at bytes);
          d2 = dc_mark dc d1 now;
          k1 = k\<lparr>ky_partial := [], ky_decoder := d2\<rparr>
      in if dc_deadline dc d2 = None then keys_take dc now decoded (k1\<lparr>ky_partial := drop at bytes\<rparr>)
         else
           (let (d3, decoded2) = dc_bytes dc d2 (drop at bytes)
            in keys_take dc now (decoded @ decoded2) (k1\<lparr>ky_decoder := d3\<rparr>)))"

definition keys_deadline :: "'d decoder \<Rightarrow> 'd keys \<Rightarrow> nat option" where
  "keys_deadline dc k = dc_deadline dc (ky_decoder k)"

definition keys_timeout :: "'d decoder \<Rightarrow> nat \<Rightarrow> 'd keys \<Rightarrow> 'd keys \<times> read_in" where
  "keys_timeout dc now k =
     (case dc_deadline dc (ky_decoder k) of
        None \<Rightarrow> (k, read_none)
      | Some d \<Rightarrow>
          if now < d then (k, read_none)
          else (let (d', decoded) = dc_timeout dc (ky_decoder k)
                in keys_take dc now decoded (k\<lparr>ky_decoder := d'\<rparr>)))"

section \<open>What the program gets\<close>

text \<open>
  The escape prefix as the user knows it, read off the whole of what was typed: after it, \<open>.\<close> ends
  the session, Ctrl-Z suspends, the prefix again or \<open>^\<close> is the prefix for the program, and before anything
  else it is for the program, and so is that.
\<close>

definition typed :: "reply vt_input \<Rightarrow> bool" where
  "typed i = (case i of In_Reply _ \<Rightarrow> False | Paste_Too_Long \<Rightarrow> False | _ \<Rightarrow> True)"

definition sends :: "reply vt_input \<Rightarrow> input_event list" where
  "sends i = (case from_input i of Some e \<Rightarrow> [e] | None \<Rightarrow> [])"

definition is_prefix_key :: "'d decoder \<Rightarrow> keystroke \<Rightarrow> bool" where
  "is_prefix_key dc s \<longleftrightarrow> m_ctrl (kp_mods (ks_press s)) \<and> dc_key_bytes dc (ks_press s) = [ESCAPE_PREFIX]"

definition legacy :: "'d decoder \<Rightarrow> reply vt_input \<Rightarrow> byte list" where
  "legacy dc i = (case i of In_Key s \<Rightarrow> dc_key_bytes dc (ks_press s) | _ \<Rightarrow> [])"

fun program_gets :: "'d decoder \<Rightarrow> reply vt_input list \<Rightarrow> input_event list" where
  "program_gets dc [] = []"
| "program_gets dc (In_Key s # is) =
     (if is_prefix_key dc s then
        (case is of
           [] \<Rightarrow> []
         | j # js \<Rightarrow>
             if legacy dc j = [0x2e] then []
             else if legacy dc j = [SUSPEND_KEY] then program_gets dc js
             else if legacy dc j = [ESCAPE_PREFIX] \<or> legacy dc j = [0x5e]
                  then Key (key_from_stroke s) # program_gets dc js
             else Key (key_from_stroke s) # sends j @ program_gets dc js)
      else sends (In_Key s) @ program_gets dc is)"
| "program_gets dc (i # is) = sends i @ program_gets dc is"

text \<open>Whether the user asked to end the session.\<close>

fun asks_to_quit :: "'d decoder \<Rightarrow> reply vt_input list \<Rightarrow> bool" where
  "asks_to_quit dc [] = False"
| "asks_to_quit dc (In_Key s # is) =
     (if is_prefix_key dc s then
        (case is of [] \<Rightarrow> False | j # js \<Rightarrow> legacy dc j = [0x2e] \<or> asks_to_quit dc js)
      else asks_to_quit dc is)"
| "asks_to_quit dc (i # is) = asks_to_quit dc is"

definition pressed :: "'d keys \<Rightarrow> reply vt_input list" where
  "pressed k = (case ky_prefix k of Some s \<Rightarrow> [In_Key s] | None \<Rightarrow> [])"

definition keys_ok :: "'d decoder \<Rightarrow> 'd keys \<Rightarrow> bool" where
  "keys_ok dc k \<longleftrightarrow> (\<forall>s. ky_prefix k = Some s \<longrightarrow> is_prefix_key dc s)"

lemma keys_reply_prefix: "keys_reply dc now reply k = (k', c) \<Longrightarrow> ky_prefix k' = ky_prefix k"
  by (auto simp: keys_reply_def scheme_reply_def Let_def split: option.splits reply.splits if_splits)

lemma gets_plain:
  "typed i \<Longrightarrow> (\<And>s. i = In_Key s \<Longrightarrow> \<not> is_prefix_key dc s) \<Longrightarrow> program_gets dc (i # is) = sends i @ program_gets dc is"
  by (cases i) auto

text \<open>One input: what it adds to the events is what the program gets, the prefix carried on.\<close>

lemma take_one_spec:
  assumes "take_one dc now i (k, r) = ((k', r'), going)" and "keys_ok dc k" and "\<not> in_quit r"
  shows "in_quit r' \<longleftrightarrow> \<not> going"
    and "\<exists>ev. in_events r' = in_events r @ ev \<and>
      (if going then keys_ok dc k' \<and>
         (\<forall>rest. program_gets dc (pressed k @ filter typed [i] @ rest) = ev @ program_gets dc (pressed k' @ rest))
       else (\<forall>rest. program_gets dc (pressed k @ filter typed [i] @ rest) = ev))"
proof -
  have "(in_quit r' \<longleftrightarrow> \<not> going) \<and> (\<exists>ev. in_events r' = in_events r @ ev \<and>
      (if going then keys_ok dc k' \<and>
         (\<forall>rest. program_gets dc (pressed k @ filter typed [i] @ rest) = ev @ program_gets dc (pressed k' @ rest))
       else (\<forall>rest. program_gets dc (pressed k @ filter typed [i] @ rest) = ev)))"
  proof (cases "typed i")
    case False
    have "going \<and> r' = r\<lparr>in_paste_too_long := in_paste_too_long r', in_colours := in_colours r'\<rparr> \<and> ky_prefix k' = ky_prefix k"
    proof (cases i)
      case (In_Reply x)
      obtain k1 c where kr: "keys_reply dc now x k = (k1, c)" by (cases "keys_reply dc now x k")
      show ?thesis
        using assms(1) keys_reply_prefix [OF kr] by (cases c) (auto simp: take_one_def In_Reply kr)
    qed (use False assms(1) in \<open>auto simp: take_one_def typed_def\<close>)
    then obtain a b where "going" "r' = r\<lparr>in_paste_too_long := a, in_colours := b\<rparr>" "ky_prefix k' = ky_prefix k"
      by blast
    then show ?thesis
      using False assms(2, 3) by (simp add: keys_ok_def pressed_def)
  next
    case True
    show ?thesis
    proof (cases "ky_prefix k")
      case None
      show ?thesis
      proof (cases "\<exists>s. i = In_Key s \<and> is_prefix_key dc s")
        case True
        then show ?thesis
          using assms None by (auto simp: take_one_def legacy_key_def is_prefix_key_def Let_def keys_ok_def pressed_def typed_def)
      next
        case False
        then have "legacy_key dc k i \<noteq> Some [ESCAPE_PREFIX]"
          using None by (auto simp: legacy_key_def is_prefix_key_def split: vt_input.splits)
        then have "k' = k" "r' = read_input i r" "going"
          using assms(1) None \<open>typed i\<close> by (auto simp: take_one_def typed_def Let_def split: vt_input.splits)
        moreover have "program_gets dc (i # rest) = sends i @ program_gets dc rest" for rest
          by (rule gets_plain) (use True False in auto)
        ultimately show ?thesis
          using assms None True by (auto simp: pressed_def read_input_def sends_def)
      qed
    next
      case (Some p)
      have p: "is_prefix_key dc p" using assms(2) Some by (simp add: keys_ok_def)
      have key: "legacy_key dc k i = Some b \<longleftrightarrow> legacy dc i = b" if "b \<noteq> []" for b
        using Some that by (cases i) (auto simp: legacy_key_def legacy_def)
      show ?thesis
        using assms Some p True key [of "[0x2e]"] key [of "[SUSPEND_KEY]"] key [of "[ESCAPE_PREFIX]"] key [of "[0x5e]"]
        by (cases i) (auto simp: take_one_def typed_def Let_def pressed_def keys_ok_def read_input_def sends_def
            split: if_splits)
    qed
  qed
  then show "in_quit r' \<longleftrightarrow> \<not> going"
    and "\<exists>ev. in_events r' = in_events r @ ev \<and>
      (if going then keys_ok dc k' \<and>
         (\<forall>rest. program_gets dc (pressed k @ filter typed [i] @ rest) = ev @ program_gets dc (pressed k' @ rest))
       else (\<forall>rest. program_gets dc (pressed k @ filter typed [i] @ rest) = ev))"
    by simp_all
qed

lemma take_all_spec:
  assumes "take_all dc now is (k, r) = (k', r')" and "keys_ok dc k" and "\<not> in_quit r"
  shows "\<exists>ev. in_events r' = in_events r @ ev \<and>
      (if in_quit r' then (\<forall>rest. program_gets dc (pressed k @ filter typed is @ rest) = ev)
       else keys_ok dc k' \<and>
         (\<forall>rest. program_gets dc (pressed k @ filter typed is @ rest) = ev @ program_gets dc (pressed k' @ rest)))"
  using assms
proof (induction "is" arbitrary: k r)
  case (Cons i "is")
  obtain k1 r1 going where one: "take_one dc now i (k, r) = ((k1, r1), going)"
    by (metis prod.exhaust)
  obtain ev where ev: "in_events r1 = in_events r @ ev" and step:
      "if going then keys_ok dc k1 \<and>
         (\<forall>rest. program_gets dc (pressed k @ filter typed [i] @ rest) = ev @ program_gets dc (pressed k1 @ rest))
       else (\<forall>rest. program_gets dc (pressed k @ filter typed [i] @ rest) = ev)"
    using take_one_spec(2) [OF one Cons.prems(2,3)] by blast
  have q: "in_quit r1 \<longleftrightarrow> \<not> going" by (rule take_one_spec(1) [OF one Cons.prems(2,3)])
  have f: "filter typed (i # is) @ rest = filter typed [i] @ filter typed is @ rest" for rest by simp
  show ?case
  proof (cases going)
    case False
    then have "k' = k1" "r' = r1" using Cons.prems(1) one by simp_all
    then show ?thesis
      using ev step q False unfolding f by auto
  next
    case True
    then have all: "take_all dc now is (k1, r1) = (k', r')" using Cons.prems(1) one by simp
    obtain ev2 where "in_events r' = in_events r1 @ ev2"
        "if in_quit r' then (\<forall>rest. program_gets dc (pressed k1 @ filter typed is @ rest) = ev2)
         else keys_ok dc k' \<and>
           (\<forall>rest. program_gets dc (pressed k1 @ filter typed is @ rest) = ev2 @ program_gets dc (pressed k' @ rest))"
      using Cons.IH [OF all] step q True by auto
    then show ?thesis
      using ev step True unfolding f by (intro exI [of _ "ev @ ev2"]) auto
  qed
qed auto

text \<open>What was read in turn, until the user asks to quit.\<close>

fun keys_run :: "'d decoder \<Rightarrow> (nat \<times> reply vt_input list) list \<Rightarrow> 'd keys \<Rightarrow> read_in list" where
  "keys_run dc [] k = []"
| "keys_run dc ((now, is) # more_reads) k =
     (case keys_take dc now is k of (k', r) \<Rightarrow> r # (if in_quit r then [] else keys_run dc more_reads k'))"

lemma keys_run_spec:
  "keys_ok dc k \<Longrightarrow>
     concat (map in_events (keys_run dc rs k)) = program_gets dc (pressed k @ filter typed (concat (map snd rs)))"
proof (induction rs arbitrary: k)
  case Nil
  then show ?case by (auto simp: pressed_def keys_ok_def split: option.split)
next
  case (Cons x rs)
  obtain now "is" where x: "x = (now, is)" by (cases x)
  obtain k' r where t: "keys_take dc now is k = (k', r)" by (cases "keys_take dc now is k")
  obtain ev where "in_events r = ev"
      "if in_quit r then (\<forall>rest. program_gets dc (pressed k @ filter typed is @ rest) = ev)
       else keys_ok dc k' \<and>
         (\<forall>rest. program_gets dc (pressed k @ filter typed is @ rest) = ev @ program_gets dc (pressed k' @ rest))"
    using take_all_spec [OF t [unfolded keys_take_def] Cons.prems] by (auto simp: read_none_def)
  then show ?case
    using Cons.IH [of k'] by (auto simp: x t)
qed


text \<open>Of what is read, at most the three bytes of a character's beginning wait, and only where the decoder waits
  for nothing.\<close>

lemma take_all_partial: "ky_partial (fst (take_all dc now is s)) = ky_partial (fst s)"
proof (induction "is" arbitrary: s)
  case (Cons i "is")
  have r: "ky_partial (fst (keys_reply dc now x k)) = ky_partial k" for x k
    by (auto simp: keys_reply_def scheme_reply_def Let_def split: option.split reply.split)
  have "ky_partial (fst (fst (take_one dc now i s))) = ky_partial (fst s)"
  proof (cases i)
    case (In_Reply x)
    then show ?thesis
      using r [of x "fst s"] by (auto simp: take_one_def split: prod.splits option.splits)
  qed (auto simp: take_one_def Let_def split: prod.splits option.splits)
  then show ?case
    using Cons by (auto split: prod.splits)
qed simp

lemma little_waits:
  assumes "keys_bytes dc now new k = (k', r)"
  shows "length (ky_partial k') \<le> 3 \<and> (\<exists>fed. ky_partial k @ new = fed @ ky_partial k')"
proof -
  let ?b = "ky_partial k @ new"
  have "length (drop (length ?b - incomplete_utf8 ?b) ?b) \<le> 3"
    using incomplete_utf8_le3 [of ?b] by simp
  moreover have tp: "ky_partial (fst (keys_take dc now l q)) = ky_partial q" for l q
    by (simp add: keys_take_def take_all_partial)
  have "ky_partial (fst (keys_bytes dc now new k)) \<in> {drop (length ?b - incomplete_utf8 ?b) ?b, []}"
    by (simp add: keys_bytes_def Let_def tp split: prod.split)
  then have "ky_partial k' = drop (length ?b - incomplete_utf8 ?b) ?b \<or> ky_partial k' = []"
    by (simp add: assms)
  ultimately show ?thesis
    by (metis append_Nil2 append_take_drop_id le0 list.size(3))
qed

end
