(* ===== verification/Spec2Isabelle.thy ===== *)
theory Spec2Isabelle
  imports Koh_Glob Koh_Jobs Koh_Session_Proofs Koh_Gate_Proofs Koh_Predict_Proofs Koh_Receive_Count Koh_Send_Safety Koh_Attach_Proofs Koh_Keys
begin

text \<open>
  A verification library for koh, a remote shell over QUIC: a server runs programs on
  pseudo-terminals and keeps them while clients come and go; a client shows a session on the user's
  terminal, guesses what typing will show, and asks the server for commands, waits and copies.
  Every name below with a \<open>.rs\<close> is under \<open>src/src/\<close>.

  \<^bold>\<open>How the parts fit.\<close> A client's connection passes the server's gate (\<open>server/cli.rs\<close>: the
  handshakes under way, the allowlist, the permits) and writes one request (\<open>request.rs\<close>), whose paths \<open>server/place.rs\<close>
  resolves beneath the key's scope. A shell request attaches to a session through the registry
  (\<open>server/session/sessions.rs\<close>). The session (\<open>server/session.rs\<close>) reads its program's output, runs it through the output filter
  (\<open>stream.rs\<close>) into its emulator (\<open>terminal/server.rs\<close>) and to the client, and reports what input it has
  taken in; each connection to it (\<open>server/attach.rs\<close>) passes the client's input on and keeps what is in flight to what the client reads. The messages
  between the two are framed by \<open>proto.rs\<close>, their events checked by \<open>events.rs\<close>. The client decodes what the
  user types (\<open>client/input.rs\<close>), shows its guesses (\<open>predict.rs\<close>) until a report settles them. A command
  that outlives its connection is a job (\<open>server/jobs.rs\<close>), and a copy (\<open>sync/\<close>) walks a tree at one end (\<open>sync/send.rs\<close>) and lands it
  at the other (\<open>sync/receive.rs\<close>). Saved servers and clients are lines of a file (\<open>names.rs\<close>).

  \<^bold>\<open>The theories.\<close>
  \<^item> \<open>Koh_Prelude\<close>: saturating and checked integers, instants, the slice functions of the standard library, fallible
    results. \<open>Koh_Utf8\<close>: UTF-8's encoding and lossy decoding, as \<open>std\<close> has them. \<open>Koh_Chunks\<close>: what it is for a machine fed in chunks
    to be independent of the cuts (a locale, interpreted by the filter and the decoder). \<open>Koh_BTree\<close>:
    ordered maps.
  \<^item> \<open>Koh_Bounded\<close>: \<open>bounded.rs\<close>. \<open>Koh_Stream\<close>, \<open>Koh_Stream_Proofs\<close>, \<open>Koh_Stream_Safety\<close>: \<open>stream.rs\<close>, the filter as the byte machine
    the code is, against a reader of single bytes. \<open>Koh_Request\<close>, \<open>Koh_Proto\<close>: \<open>request.rs\<close> and \<open>proto.rs\<close>.
    \<open>Koh_Events\<close>: \<open>events.rs\<close>. \<open>Koh_Terminal\<close>: \<open>terminal/server.rs\<close> and the text of rows in \<open>terminal/mod.rs\<close>.
  \<^item> \<open>Koh_Log\<close>, \<open>Koh_Jobs\<close>: the log and the table of \<open>server/jobs.rs\<close>. \<open>Koh_Reports\<close>: input pending, echo, end and reports (\<open>server/session/reports.rs\<close> and
    the types of \<open>server/session.rs\<close>). \<open>Koh_Sessions\<close>: the registry. \<open>Koh_Session\<close>, \<open>Koh_Session_Proofs\<close>: the running session, a turn of
    its loop for each event. \<open>Koh_Attach\<close>, \<open>Koh_Attach_Proofs\<close>: \<open>server/attach.rs\<close>, a connection to a session, a turn of its loop for each
    arm, its epoch's writer beside it.
  \<^item> \<open>Koh_Names\<close>, \<open>Koh_Names_Proofs\<close>: \<open>names.rs\<close>. \<open>Koh_Place\<close>: \<open>server/place.rs\<close>. \<open>Koh_Gate\<close>, \<open>Koh_Gate_Proofs\<close>: the gate in
    \<open>server/cli.rs\<close>. \<open>Koh_Predict\<close>, \<open>Koh_Predict_Proofs\<close>: \<open>predict.rs\<close>. \<open>Koh_Keys\<close>: \<open>client/input.rs\<close> and \<open>client/probe.rs\<close>.
  \<^item> \<open>Koh_Glob\<close>: \<open>sync/glob.rs\<close>. \<open>Koh_Sync\<close>: the messages of a copy, \<open>sync/mod.rs\<close>. \<open>Koh_Fsat\<close>: \<open>sync/fsat.rs\<close> and the operations that change a
    state and may fail. \<open>Koh_Receive\<close>, \<open>Koh_Receive_Proofs\<close>, \<open>Koh_Receive_Count\<close>: \<open>sync/receive.rs\<close>. \<open>Koh_Send\<close>, \<open>Koh_Send_Proofs\<close>,
    \<open>Koh_Send_Safety\<close>: \<open>sync/send.rs\<close>.

  \<^bold>\<open>How code becomes definitions.\<close> A struct is a record, an enum a datatype with its constructors
  (renamed where HOL has the name), a method a definition of the same name that returns the state it leaves,
  with what it emits beside it; an early return is an \<open>Inl\<close>. A Rust integer is a natural number whose saturation or check is written out at its
  width, or a word where the bits count. Instants are nanoseconds. What a library decides (fux-vt's
  parser and screen, postcard's decoding, BLAKE3, the system's calls, endpoint ids and addresses) is an
  argument or a field of a record of functions, of any behaviour unless a theorem names what it
  relies on. A long function is split where its code divides (a match, a loop, an arm), each part
  mapped to its lines.

  \<^bold>\<open>What the lemmas show.\<close> The output filter gives the same bytes and marks however its input is cut,
  holds little, relays no mark without the nonce, and on its own output drops nothing. Messages are
  decoded the same however they arrive and arrive as they were encoded; what is held of them is bounded.
  A log read tells what the job wrote and what is lost; a job's streams account for every byte. The job table and the registry keep their caps and give a peer only
  what is its own; a revoked peer keeps nothing. Every input is acknowledged, and the end
  is told last, after the output and in time. Commands on the saved lists change what they say
  and nothing else. A scoped key stays in its directory: paths, commands, requests. The gate agrees on removals, bounds handshakes per source
  and keeps to its permits. Typing is never shown unless the terminal echoes, and frames settle
  every guess. What is typed reaches the program as the escape prefix's rules read it, mixed with the terminal's answers or
  not, and a connection passes it on in order, each message once, while what it has in flight stays within its budget.
  A copy stays within its target, changes nothing in a dry run, holds little and accounts for each file; the end that sends
  it keeps the protocol, and a scoped key's reads only what is beneath its directory.

  \<^bold>\<open>Fuel and bounds.\<close> \<open>glob_fuel\<close> (the product of the lengths) is enough for the matcher's loop, proved with it
  (\<open>matches_is_the_specification\<close>). The receiver's loops (\<open>rv_rounds\<close>, \<open>write_chunks\<close>, \<open>close_rounds\<close>, \<open>made_dirs_up\<close>) take as many rounds as
  there are bytes of input, directories to close or bytes of a path, and each round uses one up. The sender's (\<open>sd_chunks\<close>, \<open>sd_rest\<close>) take
  more rounds than a file has offsets or the sender unanswered headers; more change nothing (\<open>chunk_rounds\<close>, \<open>rest_rounds\<close>). \<open>sd_dir\<close> and
  \<open>remove_left\<close> recurse on the depth the code bounds.
  Other loops are structural or \<open>function\<close>s with their measure.

  \<^bold>\<open>Not modelled.\<close> Command lines, menus and texts for people (\<open>args.rs\<close>, \<open>main.rs\<close>, \<open>menu.rs\<close>, \<open>client/cli.rs\<close>, most of \<open>server/cli.rs\<close>); the tasks that join streams, channels
  and processes to these machines (\<open>client/mod.rs\<close>, \<open>client/io.rs\<close>, \<open>server/exec.rs\<close>, \<open>server/copy.rs\<close>, \<open>pty.rs\<close>, \<open>transport_iroh/mod.rs\<close>): they are
  tokio's and iroh's scheduling, and their outcomes are the events and arguments of the models here; key files (\<open>identity/\<close>), which are system calls in
  sequence; drawing (\<open>client/display.rs\<close>, \<open>terminal/redraw.rs\<close>), which is fux-vt's screens written out; waiting (\<open>server/wait.rs\<close>), which polls
  the jobs, sessions and files.
\<close>

end
